(* ===== verification/Prelude.thy ===== *)
theory Prelude
  imports Main "HOL-Library.Word" "HOL-Library.Signed_Division" "HOL-Library.Multiset"
begin

text \<open>
  What every other theory of the development shares: the outcomes of a C function that
  does not return normally, the sum type that carries them, fixed C buffers as lists of
  characters, and generic facts on lists that more than one component needs.

  Conventions.  A C \<open>char\<close> is a HOL \<^typ>\<open>char\<close>; read as a number it is signed
  (x86-64, gcc).  \<open>uint32_t\<close> is \<^typ>\<open>32 word\<close>, a \<open>size_t\<close> that takes part
  in bit arithmetic is \<^typ>\<open>64 word\<close>, and a \<open>size_t\<close> that only counts objects in
  memory is \<^typ>\<open>nat\<close>.  A C \<open>int\<close> is \<^typ>\<open>int\<close> with the overflow check
  \<open>cint\<close> written out.
\<close>

unbundle bit_operations_syntax

type_synonym u32 = "32 word"
type_synonym u64 = "64 word"

section \<open>Outcomes\<close>

text \<open>
  The ways a call can fail to return a value: \<open>exit (1)\<close> or \<open>exit (0)\<close>, a failed assertion, an
  access outside an object, a read of a pointer or byte never written, a null or dangling
  pointer, signed overflow, a thread that waits for a lock, and a loop that has used up
  the fuel it was given.
\<close>

datatype fault =
    Exit1
  | Exit0
  | Assert_Failed
  | Out_Of_Bounds
  | Uninit
  | Null_Deref
  | Dangling
  | Signed_Overflow
  | Blocked
  | Out_Of_Fuel

type_synonym 'a res = "fault + 'a"

fun bind_res :: "'a res \<Rightarrow> ('a \<Rightarrow> 'b res) \<Rightarrow> 'b res" where
  "bind_res (Inl e) f = Inl e"
| "bind_res (Inr x) f = f x"

fun map_res :: "('a \<Rightarrow> 'b) \<Rightarrow> 'a res \<Rightarrow> 'b res" where
  "map_res f (Inl e) = Inl e"
| "map_res f (Inr x) = Inr (f x)"

named_theorems res_iff \<open>when a composed computation returns a value\<close>

lemma bind_res_Inr_iff [res_iff]:
  "bind_res m f = Inr y \<longleftrightarrow> (\<exists>x. m = Inr x \<and> f x = Inr y)"
  by (cases m) auto

lemma bind_res_Inl_iff:
  "bind_res m f = Inl e \<longleftrightarrow> m = Inl e \<or> (\<exists>x. m = Inr x \<and> f x = Inl e)"
  by (cases m) auto

lemma map_res_Inr_iff [res_iff]: "map_res f m = Inr y \<longleftrightarrow> (\<exists>x. m = Inr x \<and> y = f x)"
  by (cases m) auto

lemma bind_res_assoc: "bind_res (bind_res m f) g = bind_res m (\<lambda>x. bind_res (f x) g)"
  by (cases m) auto

lemma bind_res_cong [fundef_cong]:
  "m = m' \<Longrightarrow> (\<And>x. m' = Inr x \<Longrightarrow> f x = f' x) \<Longrightarrow> bind_res m f = bind_res m' f'"
  by (cases m') auto

section \<open>Characters, integers, buffers\<close>

abbreviation NUL :: char where "NUL \<equiv> CHR 0x00"
abbreviation LF :: char where "LF \<equiv> CHR 0x0A"
abbreviation CR :: char where "CR \<equiv> CHR 0x0D"
abbreviation SP :: char where "SP \<equiv> CHR 0x20"

text \<open>The value of a (signed) \<open>char\<close> in an arithmetic expression.\<close>

definition schar :: "char \<Rightarrow> int" where
  "schar c = (let n = of_char c :: int in if n < 128 then n else n - 256)"

lemma of_char_bounds: "0 \<le> (of_char c :: int)" "(of_char c :: int) < 256"
proof -
  have eq: "(of_char c :: int) mod 256 = of_char c"
    by (rule of_char_mod_256)
  show "0 \<le> (of_char c :: int)"
    using pos_mod_sign [of 256 "of_char c"] unfolding eq by simp
  show "(of_char c :: int) < 256"
    using pos_mod_bound [of 256 "of_char c"] unfolding eq by simp
qed

lemma schar_inj: "schar c = schar d \<longleftrightarrow> c = d"
proof
  assume "schar c = schar d"
  then have "(of_char c :: int) = of_char d"
    using of_char_bounds [of c] of_char_bounds [of d]
    by (auto simp: schar_def Let_def split: if_splits)
  then show "c = d" by (simp only: of_char_eq_iff)
qed simp

text \<open>A signed 32-bit \<open>int\<close> result: overflow is undefined.\<close>

definition cint :: "int \<Rightarrow> int res" where
  "cint x = (if - (2 ^ 31) \<le> x \<and> x < 2 ^ 31 then Inr x else Inl Signed_Overflow)"

text \<open>
  A buffer is the list of its initialised bytes; a read or a write outside it is a fault.
  \<open>cstr\<close> is the C string a buffer holds, and \<open>c_strlen\<close> its length: a buffer
  without a terminating zero has none.
\<close>

definition buf_set :: "'a list \<Rightarrow> nat \<Rightarrow> 'a \<Rightarrow> 'a list res" where
  "buf_set b i x = (if i < length b then Inr (b[i := x]) else Inl Out_Of_Bounds)"

definition buf_read :: "'a list \<Rightarrow> nat \<Rightarrow> nat \<Rightarrow> 'a list res" where
  "buf_read b pos n = (if pos + n \<le> length b then Inr (take n (drop pos b)) else Inl Uninit)"

definition buf_write :: "'a list \<Rightarrow> nat \<Rightarrow> 'a list \<Rightarrow> 'a list res" where
  "buf_write b pos xs =
     (if pos + length xs \<le> length b
      then Inr (take pos b @ xs @ drop (pos + length xs) b) else Inl Out_Of_Bounds)"

definition cstr :: "string \<Rightarrow> string" where
  "cstr b = takeWhile (\<lambda>c. c \<noteq> NUL) b"

definition c_strlen :: "string \<Rightarrow> nat res" where
  "c_strlen b = (if NUL \<in> set b then Inr (length (cstr b)) else Inl Out_Of_Bounds)"

lemma cstr_append_NUL [simp]: "NUL \<notin> set s \<Longrightarrow> cstr (s @ NUL # t) = s"
  by (induction s) (auto simp: cstr_def)

lemma cstr_no_NUL [simp]: "NUL \<notin> set s \<Longrightarrow> cstr s = s"
  by (induction s) (auto simp: cstr_def)

lemma NUL_notin_cstr [simp]: "NUL \<notin> set (cstr s)"
  by (auto simp: cstr_def dest: set_takeWhileD)

lemma c_strlen_append_NUL [simp]: "NUL \<notin> set s \<Longrightarrow> c_strlen (s @ NUL # t) = Inr (length s)"
  by (simp add: c_strlen_def)

lemma buf_read_append:
  "length a = pos \<Longrightarrow> length b = n \<Longrightarrow> buf_read (a @ b @ c) pos n = Inr b"
  by (simp add: buf_read_def)

lemma length_buf_write: "buf_write b pos xs = Inr b' \<Longrightarrow> length b' = length b"
  by (auto simp: buf_write_def split: if_splits)

section \<open>Lists\<close>

lemma find_append:
  "find P (xs @ ys) = (case find P xs of None \<Rightarrow> find P ys | Some x \<Rightarrow> Some x)"
  by (induction xs) auto

lemma find_None_iff_all: "find P xs = None \<longleftrightarrow> (\<forall>x \<in> set xs. \<not> P x)"
  by (induction xs) auto

lemma find_SomeD: "find P xs = Some x \<Longrightarrow> x \<in> set xs \<and> P x"
  by (induction xs) (auto split: if_splits)

lemma map_of_append_None: "map_of xs k = None \<Longrightarrow> map_of (xs @ ys) k = map_of ys k"
  by (simp add: map_of_append map_add_def)

lemma concat_update:
  "i < length xss \<Longrightarrow>
     concat (xss[i := ys]) = concat (take i xss) @ ys @ concat (drop (Suc i) xss)"
  by (simp add: upd_conv_take_nth_drop)

lemma concat_split:
  "i < length xss \<Longrightarrow>
     concat xss = concat (take i xss) @ xss ! i @ concat (drop (Suc i) xss)"
  by (metis concat.simps(2) concat_append id_take_nth_drop)

lemma in_concat_nth: "x \<in> set (concat xss) \<longleftrightarrow> (\<exists>i < length xss. x \<in> set (xss ! i))"
  by (auto simp: in_set_conv_nth) (metis nth_mem)+

lemma length_filter_key:
  "distinct (map fst xs) \<Longrightarrow> k \<in> fst ` set xs \<Longrightarrow> length xs = Suc (length (filter (\<lambda>e. fst e \<noteq> k) xs))"
proof (induction xs)
  case (Cons e xs)
  show ?case
  proof (cases "fst e = k")
    case True
    then have "filter (\<lambda>e. fst e \<noteq> k) xs = xs" using Cons.prems(1) by (intro filter_True) (auto simp: image_iff)
    with True show ?thesis by simp
  next
    case False
    with Cons show ?thesis by auto
  qed
qed simp

lemma map_of_filter_neq: "map_of (filter (\<lambda>e. fst e \<noteq> k) xs) = (map_of xs)(k := None)"
  by (induction xs) (auto simp: fun_eq_iff)

lemma mset_concat_update:
  "i < length xss \<Longrightarrow> mset (concat (xss[i := ys])) + mset (xss ! i) = mset (concat xss) + mset ys"
  by (simp only: concat_update concat_split [of i xss] mset_append) (simp add: ac_simps)

lemma map_of_mset_eq:
  assumes "mset xs = mset ys" "distinct (map fst ys)"
  shows "map_of xs = map_of ys"
proof -
  have "mset (map fst xs) = mset (map fst ys)" using assms(1) by simp
  then have "distinct (map fst xs)" using assms(2) mset_eq_imp_distinct_iff by blast
  then show ?thesis using assms mset_eq_setD [OF assms(1)] by (simp add: map_of_inject_set)
qed

lemma distinct_concat_nth:
  "distinct (concat xss) \<longleftrightarrow> (\<forall>i < length xss. distinct (xss ! i)) \<and>
     (\<forall>i < length xss. \<forall>j < i. set (xss ! i) \<inter> set (xss ! j) = {})"
proof (induction xss)
  case (Cons xs xss)
  have "set xs \<inter> set (concat xss) = {} \<longleftrightarrow> (\<forall>i < length xss. set (xss ! i) \<inter> set xs = {})"
    unfolding disjoint_iff in_concat_nth by blast
  then show ?case by (simp add: All_less_Suc2 Cons.IH del: set_concat) blast
qed simp

lemma fold_concat: "fold f (concat xss) p = fold (\<lambda>xs p. fold f xs p) xss p"
  by (induction xss arbitrary: p) auto

end
