(* ===== verification/Linked_List.thy ===== *)
theory Linked_List
  imports Prelude
begin

text \<open>
  \<open>linked_list.c\<close> on an explicit store: the list of running transactions.  \<open>kv_ll_add\<close> never
  writes the \<open>prev\<close> field of an element that is not the first, so what the field holds is
  the content of fresh memory, the pointer \<open>Undef\<close> here; a branch on it, a comparison with
  it or a dereference of it is undefined behaviour, the fault \<open>Uninit\<close>.

  The lemmas give the result of every operation on a list built by the operations:
  appending and removing the oldest element work, removing an element that is not the
  oldest reaches the unwritten pointer.
\<close>

section \<open>Definitions\<close>

datatype ptr = Null | Addr nat | Undef

record 'a ll_elem =
  elem_data :: 'a
  elem_next :: ptr
  elem_prev :: ptr

text \<open>
  \<open>struct kv_ll\<close> with the memory its elements live in; \<open>ll_brk\<close> is the next address
  \<open>malloc\<close> hands out.  The comparison function is an argument of \<open>kv_ll_del\<close>.
\<close>

record 'a kv_ll =
  ll_heap :: "nat \<Rightarrow> 'a ll_elem option"
  ll_brk :: nat
  ll_size :: nat
  ll_head :: ptr
  ll_tail :: ptr

definition kv_ll_create :: "'a kv_ll" where
  "kv_ll_create = \<lparr>ll_heap = (\<lambda>_. None), ll_brk = 0, ll_size = 0, ll_head = Null, ll_tail = Null\<rparr>"

fun is_null :: "ptr \<Rightarrow> bool res" where
  "is_null Null = Inr True"
| "is_null (Addr a) = Inr False"
| "is_null Undef = Inl Uninit"

fun ptr_eq :: "ptr \<Rightarrow> ptr \<Rightarrow> bool res" where
  "ptr_eq Undef q = Inl Uninit"
| "ptr_eq p Undef = Inl Uninit"
| "ptr_eq p q = Inr (p = q)"

fun deref :: "'a kv_ll \<Rightarrow> ptr \<Rightarrow> (nat \<times> 'a ll_elem) res" where
  "deref ll Null = Inl Null_Deref"
| "deref ll Undef = Inl Uninit"
| "deref ll (Addr a) = (case ll_heap ll a of None \<Rightarrow> Inl Dangling | Some e \<Rightarrow> Inr (a, e))"

definition set_next :: "'a kv_ll \<Rightarrow> ptr \<Rightarrow> ptr \<Rightarrow> 'a kv_ll res" where
  "set_next ll p q =
     map_res (\<lambda>(a, e). ll\<lparr>ll_heap := (ll_heap ll)(a \<mapsto> e\<lparr>elem_next := q\<rparr>)\<rparr>) (deref ll p)"

definition set_prev :: "'a kv_ll \<Rightarrow> ptr \<Rightarrow> ptr \<Rightarrow> 'a kv_ll res" where
  "set_prev ll p q =
     map_res (\<lambda>(a, e). ll\<lparr>ll_heap := (ll_heap ll)(a \<mapsto> e\<lparr>elem_prev := q\<rparr>)\<rparr>) (deref ll p)"

text \<open>1: not empty, nothing done; 0: freed.\<close>

definition kv_ll_destroy :: "'a kv_ll \<Rightarrow> int res" where
  "kv_ll_destroy ll = map_res (\<lambda>null. if \<not> null then 1 else 0) (is_null (ll_head ll))"

definition kv_ll_size :: "'a kv_ll \<Rightarrow> nat" where
  "kv_ll_size ll = ll_size ll"

definition kv_ll_add :: "'a kv_ll \<Rightarrow> 'a \<Rightarrow> 'a kv_ll res" where
  "kv_ll_add ll data =
     (let a = ll_brk ll;
          new_elem = \<lparr>elem_data = data, elem_next = Null, elem_prev = Undef\<rparr>;
          ll = ll\<lparr>ll_heap := (ll_heap ll)(a \<mapsto> new_elem), ll_brk := a + 1\<rparr> in
      bind_res (is_null (ll_head ll)) (\<lambda>empty.
      bind_res
        (if empty then
           map_res (\<lambda>ll. ll\<lparr>ll_head := Addr a, ll_tail := Addr a\<rparr>) (set_prev ll (Addr a) Null)
         else
           map_res (\<lambda>ll. ll\<lparr>ll_tail := Addr a\<rparr>) (set_next ll (ll_tail ll) (Addr a)))
        (\<lambda>ll. Inr (ll\<lparr>ll_size := ll_size ll + 1\<rparr>))))"

text \<open>The four cases of unlinking \<open>elem\<close> (its address and its fields).\<close>

definition kv_ll_unlink :: "'a kv_ll \<Rightarrow> nat \<Rightarrow> 'a ll_elem \<Rightarrow> 'a kv_ll res" where
  "kv_ll_unlink ll a e =
     bind_res (ptr_eq (Addr a) (ll_head ll)) (\<lambda>is_head.
     bind_res (ptr_eq (Addr a) (ll_tail ll)) (\<lambda>is_tail.
     if is_head \<and> is_tail then Inr (ll\<lparr>ll_head := Null, ll_tail := Null\<rparr>)
     else if is_head then
       (let ll = ll\<lparr>ll_head := elem_next e\<rparr> in
        bind_res (is_null (ll_head ll)) (\<lambda>null.
        if \<not> null then set_prev ll (ll_head ll) Null else Inr ll))
     else if is_tail then
       (let ll = ll\<lparr>ll_tail := elem_prev e\<rparr> in
        bind_res (is_null (ll_tail ll)) (\<lambda>null.
        if \<not> null then set_next ll (ll_tail ll) Null else Inr ll))
     else
       bind_res (set_next ll (elem_prev e) (elem_next e)) (\<lambda>ll.
       set_prev ll (elem_next e) (elem_prev e))))"

text \<open>
  The loop of \<open>kv_ll_del\<close> from \<open>elem\<close> on.  The fuel bounds the number of elements visited;
  one more than the size of the list is enough.
\<close>

fun kv_ll_del_loop ::
  "nat \<Rightarrow> ('a \<Rightarrow> 'a \<Rightarrow> bool res) \<Rightarrow> 'a kv_ll \<Rightarrow> 'a \<Rightarrow> ptr \<Rightarrow> ('a option \<times> 'a kv_ll) res" where
  "kv_ll_del_loop 0 equal_func ll data elem = Inl Out_Of_Fuel"
| "kv_ll_del_loop (Suc fuel) equal_func ll data elem =
     bind_res (is_null elem) (\<lambda>null.
     if null then Inr (None, ll)
     else
       bind_res (deref ll elem) (\<lambda>(a, e).
       bind_res (equal_func data (elem_data e)) (\<lambda>eq.
       if \<not> eq then kv_ll_del_loop fuel equal_func ll data (elem_next e)
       else
         map_res (\<lambda>ll. (Some (elem_data e),
             ll\<lparr>ll_heap := (ll_heap ll)(a := None), ll_size := ll_size ll - 1\<rparr>))
           (kv_ll_unlink ll a e))))"

definition kv_ll_del ::
  "('a \<Rightarrow> 'a \<Rightarrow> bool res) \<Rightarrow> 'a kv_ll \<Rightarrow> 'a \<Rightarrow> ('a option \<times> 'a kv_ll) res" where
  "kv_ll_del equal_func ll data =
     kv_ll_del_loop (ll_size ll + 1) equal_func ll data (ll_head ll)"

definition kv_ll_del_tail :: "'a kv_ll \<Rightarrow> ('a option \<times> 'a kv_ll) res" where
  "kv_ll_del_tail ll =
     bind_res (is_null (ll_head ll)) (\<lambda>empty.
     if empty then Inr (None, ll)
     else
       bind_res (ptr_eq (ll_head ll) (ll_tail ll)) (\<lambda>single.
       bind_res (deref ll (ll_tail ll)) (\<lambda>(a, e).
       if single then
         Inr (Some (elem_data e),
           ll\<lparr>ll_heap := (ll_heap ll)(a := None), ll_size := ll_size ll - 1,
              ll_head := Null, ll_tail := Null\<rparr>)
       else
         map_res (\<lambda>ll. (Some (elem_data e),
             ll\<lparr>ll_heap := (ll_heap ll)(a := None), ll_size := ll_size ll - 1\<rparr>))
           (set_next ll (elem_prev e) Null))))"

fun kv_ll_foreach_loop ::
  "nat \<Rightarrow> 'a kv_ll \<Rightarrow> ('p \<Rightarrow> 'a \<Rightarrow> 'p res) \<Rightarrow> 'p \<Rightarrow> ptr \<Rightarrow> 'p res" where
  "kv_ll_foreach_loop 0 ll func param elem = Inl Out_Of_Fuel"
| "kv_ll_foreach_loop (Suc fuel) ll func param elem =
     bind_res (is_null elem) (\<lambda>null.
     if null then Inr param
     else
       bind_res (deref ll elem) (\<lambda>(a, e).
       bind_res (func param (elem_data e)) (\<lambda>param.
       kv_ll_foreach_loop fuel ll func param (elem_next e))))"

definition kv_ll_foreach :: "'a kv_ll \<Rightarrow> ('p \<Rightarrow> 'a \<Rightarrow> 'p res) \<Rightarrow> 'p \<Rightarrow> 'p res" where
  "kv_ll_foreach ll func param = kv_ll_foreach_loop (ll_size ll + 1) ll func param (ll_head ll)"

section \<open>The list in the store\<close>

text \<open>
  \<open>ll_seg h pv as xs\<close>: the addresses \<open>as\<close> hold the data \<open>xs\<close>, linked forwards; the first has
  \<open>prev\<close> field \<open>pv\<close>, the others an unwritten one.
\<close>

fun first_ptr :: "nat list \<Rightarrow> ptr" where
  "first_ptr [] = Null"
| "first_ptr (a # as) = Addr a"

fun ll_seg :: "(nat \<Rightarrow> 'a ll_elem option) \<Rightarrow> ptr \<Rightarrow> nat list \<Rightarrow> 'a list \<Rightarrow> bool" where
  "ll_seg h pv [] [] = True"
| "ll_seg h pv (a # as) (x # xs) =
     (h a = Some \<lparr>elem_data = x, elem_next = first_ptr as, elem_prev = pv\<rparr> \<and> ll_seg h Undef as xs)"
| "ll_seg h pv _ _ = False"

definition ll_at :: "'a kv_ll \<Rightarrow> nat list \<Rightarrow> 'a list \<Rightarrow> bool" where
  "ll_at ll as xs \<longleftrightarrow> ll_seg (ll_heap ll) Null as xs \<and> distinct as \<and> (\<forall>a \<in> set as. a < ll_brk ll)
     \<and> ll_size ll = length xs \<and> ll_head ll = first_ptr as
     \<and> ll_tail ll = (if as = [] then Null else Addr (last as))"

definition ll_rep :: "'a kv_ll \<Rightarrow> 'a list \<Rightarrow> bool" where
  "ll_rep ll xs \<longleftrightarrow> (\<exists>as. ll_at ll as xs)"

section \<open>Lemmas\<close>

lemma ll_seg_length: "ll_seg h pv as xs \<Longrightarrow> length as = length xs"
  by (induction h pv as xs rule: ll_seg.induct) auto

lemma ll_seg_Nil [simp]: "ll_seg h pv [] xs \<longleftrightarrow> xs = []" "ll_seg h pv as [] \<longleftrightarrow> as = []"
  by (cases xs; simp) (cases as; simp)

lemma ll_seg_Cons2: "ll_seg h pv (a # as) xs \<longleftrightarrow> (\<exists>x ys. xs = x # ys \<and>
    h a = Some \<lparr>elem_data = x, elem_next = first_ptr as, elem_prev = pv\<rparr> \<and> ll_seg h Undef as ys)"
  by (cases xs) auto

lemma ll_seg_other [simp]: "a \<notin> set as \<Longrightarrow> ll_seg (h(a := e)) pv as xs = ll_seg h pv as xs"
  by (induction h pv as xs rule: ll_seg.induct) auto

lemma ll_seg_snoc:
  assumes "ll_seg h pv as xs" "distinct as" "as \<noteq> []" "b \<notin> set as"
    "h (last as) = Some e"
  shows "ll_seg (h(b \<mapsto> \<lparr>elem_data = x, elem_next = Null, elem_prev = Undef\<rparr>, last as \<mapsto> e\<lparr>elem_next := Addr b\<rparr>)) 
     pv (as @ [b]) (xs @ [x])"
  using assms
proof (induction as arbitrary: pv xs)
  case (Cons a as)
  then obtain y ys where xs: "xs = y # ys" "h a = Some \<lparr>elem_data = y, elem_next = first_ptr as, elem_prev = pv\<rparr>"
     "ll_seg h Undef as ys" by (auto simp: ll_seg_Cons2)
  show ?case
  proof (cases "as = []")
    case True
    with Cons.prems xs show ?thesis by auto
  next
    case False
    then have "a \<noteq> last as" using Cons.prems(2) last_in_set by auto
    moreover have "first_ptr (as @ [b]) = first_ptr as" using False by (cases as) auto
    ultimately show ?thesis using Cons.IH [OF xs(3)] Cons.prems xs False by auto
  qed
qed simp

lemma ll_seg_last: "ll_seg h pv as xs \<Longrightarrow> as \<noteq> [] \<Longrightarrow>
   h (last as) = Some \<lparr>elem_data = last xs, elem_next = Null, elem_prev = (if length as = 1 then pv else Undef)\<rparr>"
proof (induction as arbitrary: pv xs)
  case (Cons a as)
  then obtain y ys where xs: "xs = y # ys" "ll_seg h Undef as ys" 
     "h a = Some \<lparr>elem_data = y, elem_next = first_ptr as, elem_prev = pv\<rparr>" by (auto simp: ll_seg_Cons2)
  with Cons show ?case using ll_seg_length [OF xs(2)] by (cases "as = []") auto
qed simp

lemma kv_ll_create_rep: "ll_rep kv_ll_create []"
  by (auto simp: ll_rep_def ll_at_def kv_ll_create_def intro!: exI [of _ "[]"])

lemma first_ptr_simps [simp]: "is_null (first_ptr as) = Inr (as = [])"
  by (cases as) auto

lemma kv_ll_add_at:
  assumes "ll_at ll as xs"
  shows "\<exists>ll'. kv_ll_add ll x = Inr ll' \<and> ll_at ll' (as @ [ll_brk ll]) (xs @ [x])"
proof (cases "as = []")
  case True
  with assms show ?thesis by (auto simp: ll_at_def kv_ll_add_def Let_def set_prev_def)
next
  case False
  let ?b = "ll_brk ll"
  from assms have a: "ll_seg (ll_heap ll) Null as xs" "distinct as" "?b \<notin> set as" "ll_size ll = length xs"
    "ll_head ll = first_ptr as" "ll_tail ll = Addr (last as)" "\<forall>a \<in> set as. a < ?b"
    using False by (auto simp: ll_at_def)
  have l: "last as \<noteq> ?b" using a(3) False last_in_set by metis
  have f: "first_ptr (as @ [?b]) = first_ptr as" using False by (cases as) auto
  note la = ll_seg_last [OF a(1) False]
  show ?thesis
    using ll_seg_snoc [OF a(1,2) False a(3) la, of x] a l False
    by (auto simp: kv_ll_add_def Let_def set_next_def ll_at_def f less_Suc_eq la)
qed

subsection \<open>Removing\<close>

text \<open>
  \<open>eq_as equal_func data P xs\<close>: on the elements of the list the comparison with \<open>data\<close>
  returns and answers \<open>P\<close>.
\<close>

definition eq_as :: "('a \<Rightarrow> 'a \<Rightarrow> bool res) \<Rightarrow> 'a \<Rightarrow> ('a \<Rightarrow> bool) \<Rightarrow> 'a list \<Rightarrow> bool" where
  "eq_as equal_func data P xs \<longleftrightarrow> (\<forall>x \<in> set xs. equal_func data x = Inr (P x))"

lemma del_loop_none:
  assumes "ll_seg (ll_heap ll) pv as xs" "length xs < fuel" "eq_as eqf d P xs" "\<forall>x \<in> set xs. \<not> P x"
  shows "kv_ll_del_loop fuel eqf ll d (first_ptr as) = Inr (None, ll)"
  using assms
proof (induction fuel arbitrary: pv as xs)
  case (Suc fuel)
  then show ?case by (cases as) (auto simp: ll_seg_Cons2 eq_as_def)
qed simp

lemma kv_ll_del_none:
  assumes "ll_rep ll xs" "eq_as eqf d P xs" "\<forall>x \<in> set xs. \<not> P x"
  shows "kv_ll_del eqf ll d = Inr (None, ll)"
proof -
  obtain as where "ll_seg (ll_heap ll) Null as xs" "ll_size ll = length xs" "ll_head ll = first_ptr as"
    using assms(1) by (auto simp: ll_rep_def ll_at_def)
  then show ?thesis
    unfolding kv_ll_del_def using del_loop_none [of ll Null as xs "length xs + 1"] assms(2,3)
    by (simp del: kv_ll_del_loop.simps)
qed

lemma ll_at_ConsE:
  assumes "ll_at ll as (x # xs)"
  obtains a bs where "as = a # bs" "ll_heap ll a = Some \<lparr>elem_data = x, elem_next = first_ptr bs, elem_prev = Null\<rparr>"
    "ll_seg (ll_heap ll) Undef bs xs" "a \<notin> set bs" "distinct bs" "\<forall>b \<in> set (a # bs). b < ll_brk ll"
    "ll_size ll = Suc (length xs)" "ll_head ll = Addr a" "ll_tail ll = Addr (last (a # bs))"
  using assms by (cases as) (auto simp: ll_at_def)

lemma unlink_head:
  assumes "ll_at ll (a # bs) (x # xs)"
  shows "\<exists>ll'. kv_ll_unlink ll a \<lparr>elem_data = x, elem_next = first_ptr bs, elem_prev = Null\<rparr> = Inr ll' \<and>
     ll_at (ll'\<lparr>ll_heap := (ll_heap ll')(a := None), ll_size := ll_size ll' - 1\<rparr>) bs xs"
proof (cases bs)
  case Nil
  with assms show ?thesis by (auto simp: ll_at_def kv_ll_unlink_def)
next
  case (Cons b cs)
  from assms obtain ys y where l: "xs = y # ys" "a \<noteq> b" "a \<notin> set cs" "b \<notin> set cs" "distinct cs"
    "ll_heap ll b = Some \<lparr>elem_data = y, elem_next = first_ptr cs, elem_prev = Undef\<rparr>"
    "ll_seg (ll_heap ll) Undef cs ys" "\<forall>c \<in> set (a # b # cs). c < ll_brk ll"
    "ll_size ll = Suc (Suc (length ys))" "ll_head ll = Addr a" "ll_tail ll = Addr (last (b # cs))"
    by (auto simp: Cons ll_at_def ll_seg_Cons2)
  have ne: "a \<noteq> last (b # cs)" using l(2,3) last_in_set [of "b # cs"] by auto
  have "kv_ll_unlink ll a \<lparr>elem_data = x, elem_next = first_ptr bs, elem_prev = Null\<rparr> =
    Inr (ll\<lparr>ll_head := Addr b, ll_heap := (ll_heap ll)(b \<mapsto> \<lparr>elem_data = y, elem_next = first_ptr cs, elem_prev = Null\<rparr>)\<rparr>)"
    using l ne by (simp add: kv_ll_unlink_def Cons set_prev_def Let_def del: last.simps)
  then show ?thesis using l by (auto simp: Cons ll_at_def)
qed

lemma kv_ll_del_first:
  assumes "ll_rep ll (x # xs)" "eq_as eqf d P (x # xs)" "P x"
  shows "\<exists>ll'. kv_ll_del eqf ll d = Inr (Some x, ll') \<and> ll_rep ll' xs"
proof -
  obtain as where as: "ll_at ll as (x # xs)" using assms(1) by (auto simp: ll_rep_def)
  obtain a bs where l: "as = a # bs" "ll_heap ll a = Some \<lparr>elem_data = x, elem_next = first_ptr bs, elem_prev = Null\<rparr>"
    "ll_head ll = Addr a" using ll_at_ConsE [OF as] by metis
  obtain ll' where u: "kv_ll_unlink ll a \<lparr>elem_data = x, elem_next = first_ptr bs, elem_prev = Null\<rparr> = Inr ll'"
    "ll_at (ll'\<lparr>ll_heap := (ll_heap ll')(a := None), ll_size := ll_size ll' - 1\<rparr>) bs xs"
    using unlink_head [of ll a bs x xs] as l(1) by auto
  have "eqf d x = Inr True" using assms(2,3) by (simp add: eq_as_def)
  then show ?thesis using l u by (auto simp: kv_ll_del_def ll_rep_def)
qed

lemma unlink_Undef:
  assumes "ll_head ll \<noteq> Addr a" "ll_head ll \<noteq> Undef" "ll_tail ll \<noteq> Undef"
  shows "kv_ll_unlink ll a \<lparr>elem_data = x, elem_next = p, elem_prev = Undef\<rparr> = Inl Uninit"
  using assms by (cases "ll_head ll"; cases "ll_tail ll") (auto simp: kv_ll_unlink_def Let_def set_next_def)

lemma del_loop_later:
  assumes "ll_seg (ll_heap ll) Undef as xs" "length xs < fuel" "eq_as eqf d P xs" "\<exists>x \<in> set xs. P x"
    "ll_head ll = Addr b" "b \<notin> set as" "ll_tail ll \<noteq> Undef"
  shows "kv_ll_del_loop fuel eqf ll d (first_ptr as) = Inl Uninit"
  using assms
proof (induction fuel arbitrary: as xs)
  case (Suc fuel)
  then obtain a bs y ys where as: "as = a # bs" "xs = y # ys"
    "ll_heap ll a = Some \<lparr>elem_data = y, elem_next = first_ptr bs, elem_prev = Undef\<rparr>"
    "ll_seg (ll_heap ll) Undef bs ys" by (cases as) (auto simp: ll_seg_Cons2)
  have e: "eqf d y = Inr (P y)" using Suc.prems(3) as by (simp add: eq_as_def)
  show ?case
  proof (cases "P y")
    case True
    then show ?thesis using as e Suc.prems by (simp add: unlink_Undef)
  next
    case False
    then have "kv_ll_del_loop fuel eqf ll d (first_ptr bs) = Inl Uninit"
      using as Suc.prems by (intro Suc.IH [of bs ys]) (auto simp: eq_as_def)
    with False as e show ?thesis by simp
  qed
qed simp

lemma kv_ll_del_later:
  assumes "ll_rep ll (x # xs)" "eq_as eqf d P (x # xs)" "\<not> P x" "\<exists>y \<in> set xs. P y"
  shows "kv_ll_del eqf ll d = Inl Uninit"
proof -
  obtain as where as: "ll_at ll as (x # xs)" using assms(1) by (auto simp: ll_rep_def)
  then obtain a bs where l: "as = a # bs" "ll_heap ll a = Some \<lparr>elem_data = x, elem_next = first_ptr bs, elem_prev = Null\<rparr>"
    "ll_seg (ll_heap ll) Undef bs xs" "a \<notin> set bs" "ll_size ll = Suc (length xs)" "ll_head ll = Addr a"
    "ll_tail ll = Addr (last (a # bs))" by (rule ll_at_ConsE)
  have "eqf d x = Inr False" "eq_as eqf d P xs" using assms(2,3) by (auto simp: eq_as_def)
  moreover have "kv_ll_del_loop (Suc (length xs)) eqf ll d (first_ptr bs) = Inl Uninit"
    using calculation(2) assms(4) l by (intro del_loop_later) auto
  ultimately show ?thesis using l by (simp add: kv_ll_del_def)
qed

lemma kv_ll_del_tail_eq:
  "ll_rep ll [] \<Longrightarrow> kv_ll_del_tail ll = Inr (None, ll)"
  "ll_rep ll [x] \<Longrightarrow> \<exists>ll'. kv_ll_del_tail ll = Inr (Some x, ll') \<and> ll_rep ll' []"
  "ll_rep ll (x # y # xs) \<Longrightarrow> kv_ll_del_tail ll = Inl Uninit"
proof -
  show "ll_rep ll [] \<Longrightarrow> kv_ll_del_tail ll = Inr (None, ll)"
    by (auto simp: ll_rep_def ll_at_def kv_ll_del_tail_def)
  show "ll_rep ll [x] \<Longrightarrow> \<exists>ll'. kv_ll_del_tail ll = Inr (Some x, ll') \<and> ll_rep ll' []"
  proof -
    assume "ll_rep ll [x]"
    then obtain as where "ll_at ll as [x]" by (auto simp: ll_rep_def)
    then show ?thesis
      by (elim ll_at_ConsE) (auto simp: ll_rep_def ll_at_def kv_ll_del_tail_def)
  qed
  assume "ll_rep ll (x # y # xs)"
  then obtain as where as: "ll_at ll as (x # y # xs)" by (auto simp: ll_rep_def)
  then obtain a bs where l: "as = a # bs" "ll_seg (ll_heap ll) Undef bs (y # xs)" "a \<notin> set bs"
    "ll_head ll = Addr a" "ll_tail ll = Addr (last (a # bs))" by (rule ll_at_ConsE)
  then have "bs \<noteq> []" by auto
  with l have "last (a # bs) \<noteq> a" "ll_heap ll (last bs) \<noteq> None" "ll_tail ll = Addr (last bs)"
    "elem_prev (the (ll_heap ll (last bs))) = Undef"
    using ll_seg_last [OF l(2)] last_in_set [of bs] by auto
  then show "kv_ll_del_tail ll = Inl Uninit" using l by (auto simp: kv_ll_del_tail_def set_next_def)
qed

subsection \<open>Visiting\<close>

fun fold_res :: "('p \<Rightarrow> 'a \<Rightarrow> 'p res) \<Rightarrow> 'a list \<Rightarrow> 'p \<Rightarrow> 'p res" where
  "fold_res f [] p = Inr p"
| "fold_res f (x # xs) p = bind_res (f p x) (fold_res f xs)"

lemma foreach_loop_eq:
  "ll_seg (ll_heap ll) pv as xs \<Longrightarrow> length xs < fuel \<Longrightarrow>
   kv_ll_foreach_loop fuel ll f p (first_ptr as) = fold_res f xs p"
proof (induction fuel arbitrary: pv as xs p)
  case (Suc fuel)
  show ?case
  proof (cases as)
    case Nil
    with Suc.prems show ?thesis by simp
  next
    case (Cons a bs)
    with Suc.prems obtain y ys where l: "xs = y # ys" "ll_seg (ll_heap ll) Undef bs ys" "length ys < fuel"
      "ll_heap ll a = Some \<lparr>elem_data = y, elem_next = first_ptr bs, elem_prev = pv\<rparr>" by (auto simp: ll_seg_Cons2)
    then show ?thesis using Suc.IH [OF l(2,3)] by (simp add: Cons fun_eq_iff)
  qed
qed simp

lemma kv_ll_foreach_eq: "ll_rep ll xs \<Longrightarrow> kv_ll_foreach ll f p = fold_res f xs p"
  by (auto simp: ll_rep_def ll_at_def kv_ll_foreach_def foreach_loop_eq simp del: kv_ll_foreach_loop.simps)

lemma kv_ll_add_rep: "ll_rep ll xs \<Longrightarrow> \<exists>ll'. kv_ll_add ll x = Inr ll' \<and> ll_rep ll' (xs @ [x])"
  using kv_ll_add_at by (fastforce simp: ll_rep_def)

lemma kv_ll_size_rep: "ll_rep ll xs \<Longrightarrow> kv_ll_size ll = length xs"
  by (auto simp: ll_rep_def ll_at_def kv_ll_size_def)

lemma kv_ll_destroy_rep: "ll_rep ll xs \<Longrightarrow> kv_ll_destroy ll = Inr (if xs = [] then 0 else 1)"
  by (auto simp: ll_rep_def ll_at_def kv_ll_destroy_def)


section \<open>The contract of the list\<close>

text \<open>
  What the transaction manager may rely on: adding at the end, removing the oldest, and a
  removal that finds nothing.  Removing any other member is not part of it.
\<close>

locale tx_registry =
  fixes rep :: "'s \<Rightarrow> 'a list \<Rightarrow> bool"
    and add :: "'s \<Rightarrow> 'a \<Rightarrow> 's res"
    and del :: "('a \<Rightarrow> 'a \<Rightarrow> bool res) \<Rightarrow> 's \<Rightarrow> 'a \<Rightarrow> ('a option \<times> 's) res"
  assumes add_rep: "rep s xs \<Longrightarrow> \<exists>s'. add s x = Inr s' \<and> rep s' (xs @ [x])"
    and del_oldest: "rep s (x # xs) \<Longrightarrow> eq_as eqf d P (x # xs) \<Longrightarrow> P x \<Longrightarrow>
      \<exists>s'. del eqf s d = Inr (Some x, s') \<and> rep s' xs"
    and del_absent: "rep s xs \<Longrightarrow> eq_as eqf d P xs \<Longrightarrow> \<forall>x \<in> set xs. \<not> P x \<Longrightarrow> del eqf s d = Inr (None, s)"
begin

fun add_all :: "'s \<Rightarrow> 'a list \<Rightarrow> 's res" where
  "add_all s [] = Inr s"
| "add_all s (x # xs) = bind_res (add s x) (\<lambda>s. add_all s xs)"

fun drain :: "('a \<Rightarrow> 'a \<Rightarrow> bool res) \<Rightarrow> 's \<Rightarrow> 'a list \<Rightarrow> 's res" where
  "drain eqf s [] = Inr s"
| "drain eqf s (d # ds) = bind_res (del eqf s d) (\<lambda>(_, s). drain eqf s ds)"

lemma add_all_rep: "rep s xs \<Longrightarrow> \<exists>s'. add_all s ys = Inr s' \<and> rep s' (xs @ ys)"
proof (induction ys arbitrary: s xs)
  case (Cons y ys)
  obtain s' where s': "add s y = Inr s'" "rep s' (xs @ [y])" using add_rep [OF Cons.prems] by blast
  show ?case using Cons.IH [OF s'(2)] s'(1) by simp
qed auto

text \<open>Members that leave in the order they came in leave the others behind.\<close>

lemma drain_fifo:
  "rep s (xs @ ys) \<Longrightarrow> \<exists>s'. drain (\<lambda>a b. Inr (a = b)) s xs = Inr s' \<and> rep s' ys"
proof (induction xs arbitrary: s)
  case (Cons x xs)
  have "\<exists>s'. del (\<lambda>a b. Inr (a = b)) s x = Inr (Some x, s') \<and> rep s' (xs @ ys)"
    using Cons.prems by (intro del_oldest [of s x "xs @ ys" _ x "\<lambda>b. x = b"]) (auto simp: eq_as_def)
  then obtain s' where s': "del (\<lambda>a b. Inr (a = b)) s x = Inr (Some x, s')" "rep s' (xs @ ys)" by blast
  show ?case using Cons.IH [OF s'(2)] s'(1) by simp
qed auto

end

interpretation ll: tx_registry ll_rep kv_ll_add kv_ll_del
  by unfold_locales (simp_all add: kv_ll_add_rep kv_ll_del_first kv_ll_del_none)

section \<open>Properties\<close>

text \<open>Many elements added, and removed one after the other.\<close>

definition ll_add_all :: "'a kv_ll \<Rightarrow> 'a list \<Rightarrow> 'a kv_ll res" where
  "ll_add_all ll xs = fold_res kv_ll_add xs ll"

definition ll_del_all :: "'a kv_ll \<Rightarrow> 'a list \<Rightarrow> 'a kv_ll res" where
  "ll_del_all ll xs = fold_res (\<lambda>ll x. map_res snd (kv_ll_del (\<lambda>a b. Inr (a = b)) ll x)) xs ll"

lemma ll_add_all_eq: "ll_add_all ll xs = ll.add_all ll xs"
  unfolding ll_add_all_def
proof (induction xs arbitrary: ll)
  case (Cons x xs)
  then show ?case by (cases "kv_ll_add ll x") auto
qed simp

lemma ll_del_all_eq: "ll_del_all ll xs = ll.drain (\<lambda>a b. Inr (a = b)) ll xs"
  unfolding ll_del_all_def
proof (induction xs arbitrary: ll)
  case (Cons x xs)
  then show ?case by (cases "kv_ll_del (\<lambda>a b. Inr (a = b)) ll x") auto
qed simp

lemma fold_res_collect: "fold_res (\<lambda>p x. Inr (p @ [x])) zs acc = Inr (acc @ zs)"
  by (induction zs arbitrary: acc) auto

text \<open>
  The list of running transactions as a queue: elements added are visited in the order of
  arrival by \<open>kv_ll_foreach\<close> and counted by \<open>kv_ll_size\<close>, and elements removed in that same
  order leave the others behind, all without touching an unwritten pointer.
\<close>

theorem ll_fifo:
  "\<exists>ll ll'. ll_add_all kv_ll_create (xs @ ys) = Inr ll \<and> kv_ll_size ll = length (xs @ ys) \<and>
     kv_ll_foreach ll (\<lambda>p x. Inr (p @ [x])) [] = Inr (xs @ ys) \<and>
     ll_del_all ll xs = Inr ll' \<and> kv_ll_size ll' = length ys \<and>
     kv_ll_foreach ll' (\<lambda>p x. Inr (p @ [x])) [] = Inr ys"
proof -
  obtain ll where ll: "ll_add_all kv_ll_create (xs @ ys) = Inr ll" "ll_rep ll (xs @ ys)"
    using ll.add_all_rep [OF kv_ll_create_rep, of "xs @ ys"] by (auto simp: ll_add_all_eq)
  obtain ll' where ll': "ll_del_all ll xs = Inr ll'" "ll_rep ll' ys"
    using ll.drain_fifo [OF ll(2)] by (auto simp: ll_del_all_eq)
  show ?thesis
    using ll ll' by (intro exI [of _ ll] exI [of _ ll'])
      (simp add: kv_ll_size_rep [OF ll(2)] kv_ll_size_rep [OF ll'(2)] kv_ll_foreach_eq [OF ll(2)]
        kv_ll_foreach_eq [OF ll'(2)] fold_res_collect)
qed

text \<open>
  Removing an element that is not the oldest: \<open>kv_ll_add\<close> never wrote its \<open>prev\<close> field, and
  \<open>kv_ll_del\<close> follows that unwritten pointer; so does \<open>kv_ll_del_tail\<close> on every list of two
  elements or more.
\<close>

theorem ll_del_not_oldest:
  assumes "ll_add_all kv_ll_create (x # xs) = Inr ll" "y \<in> set xs" "y \<noteq> x"
  shows "kv_ll_del (\<lambda>a b. Inr (a = b)) ll y = Inl Uninit \<and> kv_ll_del_tail ll = Inl Uninit"
proof -
  have rep: "ll_rep ll (x # xs)"
    using ll.add_all_rep [OF kv_ll_create_rep, of "x # xs"] assms(1) unfolding ll_add_all_eq by auto
  have "kv_ll_del (\<lambda>a b. Inr (a = b)) ll y = Inl Uninit"
    using assms(2,3) by (intro kv_ll_del_later [OF rep, where P = "\<lambda>b. y = b"]) (auto simp: eq_as_def)
  moreover have "kv_ll_del_tail ll = Inl Uninit"
    using kv_ll_del_tail_eq(3) [of ll x "hd xs" "tl xs"] rep assms(2) by (cases xs) auto
  ultimately show ?thesis by simp
qed

theorem ll_del_not_oldest_witness:
  "\<exists>ll. ll_add_all kv_ll_create [1, 2, 3 :: nat] = Inr ll \<and> kv_ll_del (\<lambda>a b. Inr (a = b)) ll 2 = Inl Uninit"
proof -
  obtain ll where "ll_add_all kv_ll_create [1, 2, 3 :: nat] = Inr ll"
    using ll.add_all_rep [OF kv_ll_create_rep, of "[1, 2, 3 :: nat]"] unfolding ll_add_all_eq by blast
  then show ?thesis using ll_del_not_oldest [of 1 "[2, 3 :: nat]" ll 2] by simp
qed

end
