(* ===== verification/Kv_Map.thy ===== *)
theory Kv_Map
  imports Prelude
begin

text \<open>
  The contract between the store and its clients.  Command handling, rollback and redo
  use the hash table through three operations only; what they may rely on is stated here
  once, on any table type, together with the consequences that rollback and redo need:
  overwriting a key and writing the old contents back is the identity on the contents,
  also for a whole sequence of writes undone from its end.
\<close>

text \<open>
  A write is a key and its new value, \<open>None\<close> for a deletion; its effect on an abstract
  map, and the sequence of writes that undoes a sequence.
\<close>

type_synonym ('k, 'v) kv_write = "'k \<times> 'v option"

definition map_write :: "('k, 'v) kv_write \<Rightarrow> ('k \<rightharpoonup> 'v) \<Rightarrow> ('k \<rightharpoonup> 'v)" where
  "map_write w m = m(fst w := snd w)"

definition map_writes :: "('k, 'v) kv_write list \<Rightarrow> ('k \<rightharpoonup> 'v) \<Rightarrow> ('k \<rightharpoonup> 'v)" where
  "map_writes ws m = fold map_write ws m"

fun undo_writes :: "('k, 'v) kv_write list \<Rightarrow> ('k \<rightharpoonup> 'v) \<Rightarrow> ('k, 'v) kv_write list" where
  "undo_writes [] m = []"
| "undo_writes (w # ws) m = undo_writes ws (map_write w m) @ [(fst w, m (fst w))]"

lemma map_write_simps [simp]: "map_write (k, nv) m = m(k := nv)"
  by (simp add: map_write_def)

lemma map_writes_simps [simp]:
  "map_writes [] m = m"
  "map_writes (w # ws) m = map_writes ws (map_write w m)"
  "map_writes (ws @ vs) m = map_writes vs (map_writes ws m)"
  by (simp_all add: map_writes_def)

lemma map_writes_undo: "map_writes (undo_writes ws m) (map_writes ws m) = m"
  by (induction ws arbitrary: m) (auto simp: map_write_def)

lemma map_writes_other: "k \<notin> fst ` set ws \<Longrightarrow> map_writes ws m k = m k"
  by (induction ws arbitrary: m) (auto simp: map_write_def)

locale kv_map =
  fixes get :: "'t \<Rightarrow> 'k \<Rightarrow> 'v option"
    and set_op :: "'t \<Rightarrow> 'k \<Rightarrow> 'v \<Rightarrow> 'v option \<times> 't"
    and del_op :: "'t \<Rightarrow> 'k \<Rightarrow> ('k \<times> 'v) option \<times> 't"
    and invar :: "'t \<Rightarrow> bool"
  assumes get_set: "invar t \<Longrightarrow> get (snd (set_op t k v)) = (get t)(k \<mapsto> v)"
    and set_old: "invar t \<Longrightarrow> fst (set_op t k v) = get t k"
    and get_del: "invar t \<Longrightarrow> get (snd (del_op t k)) = (get t)(k := None)"
    and del_old: "invar t \<Longrightarrow> fst (del_op t k) = map_option (\<lambda>v. (k, v)) (get t k)"
    and invar_set: "invar t \<Longrightarrow> invar (snd (set_op t k v))"
    and invar_del: "invar t \<Longrightarrow> invar (snd (del_op t k))"
begin

definition apply_write :: "('k, 'v) kv_write \<Rightarrow> 't \<Rightarrow> 't" where
  "apply_write w t = (case snd w of None \<Rightarrow> snd (del_op t (fst w)) | Some v \<Rightarrow> snd (set_op t (fst w) v))"

definition apply_writes :: "('k, 'v) kv_write list \<Rightarrow> 't \<Rightarrow> 't" where
  "apply_writes ws t = fold apply_write ws t"

lemma write_simps:
  "snd (set_op t k v) = apply_write (k, Some v) t"
  "snd (del_op t k) = apply_write (k, None) t"
  by (simp_all add: apply_write_def)

lemma writes_simps [simp]:
  "apply_writes [] t = t"
  "apply_writes (w # ws) t = apply_writes ws (apply_write w t)"
  "apply_writes (ws @ vs) t = apply_writes vs (apply_writes ws t)"
  by (simp_all add: apply_writes_def)

lemma invar_write: "invar t \<Longrightarrow> invar (apply_write w t)"
  by (simp add: apply_write_def invar_set invar_del split: option.split)

lemma get_write: "invar t \<Longrightarrow> get (apply_write w t) = map_write w (get t)"
  by (simp add: apply_write_def map_write_def get_set get_del split: option.split)

lemma invar_writes: "invar t \<Longrightarrow> invar (apply_writes ws t)"
  by (induction ws arbitrary: t) (auto simp: invar_write)

lemma get_writes: "invar t \<Longrightarrow> get (apply_writes ws t) = map_writes ws (get t)"
  by (induction ws arbitrary: t) (auto simp: invar_write get_write)

text \<open>Undoing from the end restores the contents.\<close>

lemma get_undo_writes:
  "invar t \<Longrightarrow> get (apply_writes (undo_writes ws (get t)) (apply_writes ws t)) = get t"
  by (simp add: get_writes invar_writes map_writes_undo)

lemma write_restore:
  assumes "invar t"
  shows "get (apply_write (k, get t k) (apply_write (k, nv) t)) = get t"
  using get_undo_writes [OF assms, of "[(k, nv)]"] by simp

text \<open>A key that is absent leaves the contents alone when it is deleted.\<close>

lemma del_absent: "invar t \<Longrightarrow> get t k = None \<Longrightarrow> get (snd (del_op t k)) = get t \<and> fst (del_op t k) = None"
  by (auto simp: get_del del_old)

end

end
