(* ===== verification/Kv_Hash.thy ===== *)
theory Kv_Hash
  imports Kv_Map
begin

text \<open>
  \<open>kv_hash.c\<close>: a chained hash table with caller-supplied hash and comparison functions.
  A bucket's singly linked chain, which only its bucket points to, is the list of its
  (key, value) pairs from the head; \<open>table\<close> is the array of buckets.  Every operation but
  \<open>kv_ht_del\<close> runs inside the table's mutex as a whole.  \<open>kv_ht_del\<close> computes the number of the
  bucket, from the size of the array, before it takes the mutex: \<open>kv_ht_del_at\<close> is the part inside
  the mutex, for a bucket number computed at any time before, and \<open>kv_ht_del\<close> the function when
  nothing happens in between.

  The invariant says that the array has \<open>ht_size > 0\<close> buckets, that a key sits in the bucket
  its hash selects, that no key occurs twice and that \<open>ht_count\<close> counts the entries; the
  lemmas show that every operation keeps it and acts on the contents as on a finite map,
  across the growth of the array, and that a delete with the bucket number of a smaller array
  finds nothing and changes nothing.
\<close>

section \<open>Definitions\<close>

type_synonym ('k, 'v) bucket = "('k \<times> 'v) list"
type_synonym ('k, 'v) buckets = "('k, 'v) bucket list"

record ('k, 'v) kv_ht =
  ht_size :: nat
  ht_count :: nat
  hash_func :: "'k \<Rightarrow> u64"
  cmp_func :: "'k \<Rightarrow> 'k \<Rightarrow> int"
  table :: "('k, 'v) buckets"

definition kv_ht_create :: "int \<Rightarrow> ('k \<Rightarrow> u64) \<Rightarrow> ('k \<Rightarrow> 'k \<Rightarrow> int) \<Rightarrow> ('k, 'v) kv_ht res" where
  "kv_ht_create sz hf cf =
     (if sz > 0
      then Inr \<lparr>ht_size = nat sz, ht_count = 0, hash_func = hf, cmp_func = cf,
                table = replicate (nat sz) []\<rparr>
      else Inl Assert_Failed)"

definition kv_ht_hash :: "('k \<Rightarrow> u64) \<Rightarrow> nat \<Rightarrow> 'k \<Rightarrow> nat" where
  "kv_ht_hash hf sz key = unat (hf key) mod sz"

text \<open>The loop of \<open>kv_ht_get_elem\<close> along one chain.\<close>

fun chain_find :: "('k \<Rightarrow> 'k \<Rightarrow> int) \<Rightarrow> 'k \<Rightarrow> ('k, 'v) bucket \<Rightarrow> ('k \<times> 'v) option" where
  "chain_find cmp key [] = None"
| "chain_find cmp key (elem # chain) =
     (if cmp (fst elem) key = 0 then Some elem else chain_find cmp key chain)"

definition kv_ht_get_elem :: "('k, 'v) kv_ht \<Rightarrow> 'k \<Rightarrow> ('k \<times> 'v) option" where
  "kv_ht_get_elem ht key =
     chain_find (cmp_func ht) key (table ht ! kv_ht_hash (hash_func ht) (ht_size ht) key)"

definition kv_ht_get :: "('k, 'v) kv_ht \<Rightarrow> 'k \<Rightarrow> 'v option" where
  "kv_ht_get ht key =
     (case kv_ht_get_elem ht key of None \<Rightarrow> None | Some elem \<Rightarrow> Some (snd elem))"

text \<open>
  \<open>kv_ht_resize\<close>: each chain is emptied from its head, each element appended to the chain
  its hash selects in the new array.
\<close>

fun resize_chain ::
  "('k \<Rightarrow> u64) \<Rightarrow> nat \<Rightarrow> ('k, 'v) bucket \<Rightarrow> ('k, 'v) buckets \<Rightarrow> ('k, 'v) buckets" where
  "resize_chain hf sz [] new_table = new_table"
| "resize_chain hf sz (target # chain) new_table =
     (let hash = kv_ht_hash hf sz (fst target) in
      resize_chain hf sz chain (new_table[hash := new_table ! hash @ [target]]))"

fun resize_table ::
  "('k \<Rightarrow> u64) \<Rightarrow> nat \<Rightarrow> ('k, 'v) buckets \<Rightarrow> ('k, 'v) buckets \<Rightarrow> ('k, 'v) buckets" where
  "resize_table hf sz [] new_table = new_table"
| "resize_table hf sz (chain # rest) new_table =
     resize_table hf sz rest (resize_chain hf sz chain new_table)"

definition kv_ht_resize :: "('k, 'v) kv_ht \<Rightarrow> nat \<Rightarrow> ('k, 'v) kv_ht" where
  "kv_ht_resize ht sz =
     ht\<lparr>table := resize_table (hash_func ht) sz (table ht) (replicate sz []), ht_size := sz\<rparr>"

text \<open>\<open>elem->value = value\<close> for the element \<open>kv_ht_get_elem\<close> found.\<close>

fun chain_set_value :: "('k \<Rightarrow> 'k \<Rightarrow> int) \<Rightarrow> 'k \<Rightarrow> 'v \<Rightarrow> ('k, 'v) bucket \<Rightarrow> ('k, 'v) bucket" where
  "chain_set_value cmp key value [] = []"
| "chain_set_value cmp key value (elem # chain) =
     (if cmp (fst elem) key = 0 then (fst elem, value) # chain
      else elem # chain_set_value cmp key value chain)"

text \<open>\<open>kv_ht_set\<close> returns the old value, \<open>None\<close> when the key is new.\<close>

definition kv_ht_set :: "('k, 'v) kv_ht \<Rightarrow> 'k \<Rightarrow> 'v \<Rightarrow> 'v option \<times> ('k, 'v) kv_ht" where
  "kv_ht_set ht key value =
     (case kv_ht_get_elem ht key of
        Some elem \<Rightarrow>
          (let hash = kv_ht_hash (hash_func ht) (ht_size ht) key in
           (Some (snd elem),
            ht\<lparr>table := (table ht)[hash := chain_set_value (cmp_func ht) key value (table ht ! hash)]\<rparr>))
      | None \<Rightarrow>
          (let ht1 = (if ht_count ht > ht_size ht then kv_ht_resize ht (2 * ht_size ht) else ht);
               hash = kv_ht_hash (hash_func ht1) (ht_size ht1) key in
           (None,
            ht1\<lparr>table := (table ht1)[hash := table ht1 ! hash @ [(key, value)]],
                ht_count := ht_count ht1 + 1\<rparr>)))"

text \<open>
  \<open>kv_ht_del\<close> unlinks the first matching element, at the head or behind another element,
  and returns it; nothing happens when there is none.  \<open>kv_ht_del_at\<close> is what it does inside the
  mutex.
\<close>

fun chain_unlink ::
  "('k \<Rightarrow> 'k \<Rightarrow> int) \<Rightarrow> 'k \<Rightarrow> ('k, 'v) bucket \<Rightarrow> ('k \<times> 'v) option \<times> ('k, 'v) bucket" where
  "chain_unlink cmp key [] = (None, [])"
| "chain_unlink cmp key (elem # chain) =
     (if cmp (fst elem) key = 0 then (Some elem, chain)
      else (let (old, chain') = chain_unlink cmp key chain in (old, elem # chain')))"

definition kv_ht_del_at :: "('k, 'v) kv_ht \<Rightarrow> nat \<Rightarrow> 'k \<Rightarrow> ('k \<times> 'v) option \<times> ('k, 'v) kv_ht" where
  "kv_ht_del_at ht hash key =
     (case chain_unlink (cmp_func ht) key (table ht ! hash) of
        (None, _) \<Rightarrow> (None, ht)
      | (Some elem, chain) \<Rightarrow>
          (Some elem, ht\<lparr>table := (table ht)[hash := chain], ht_count := ht_count ht - 1\<rparr>))"

definition kv_ht_del :: "('k, 'v) kv_ht \<Rightarrow> 'k \<Rightarrow> ('k \<times> 'v) option \<times> ('k, 'v) kv_ht" where
  "kv_ht_del ht key = kv_ht_del_at ht (kv_ht_hash (hash_func ht) (ht_size ht) key) key"

definition kv_ht_foreach :: "('k, 'v) kv_ht \<Rightarrow> ('k \<times> 'v \<Rightarrow> 'p \<Rightarrow> 'p) \<Rightarrow> 'p \<Rightarrow> 'p" where
  "kv_ht_foreach ht foreach_func param = fold (\<lambda>chain p. fold foreach_func chain p) (table ht) param"

section \<open>Invariant\<close>

definition cmp_ok :: "('k \<Rightarrow> 'k \<Rightarrow> int) \<Rightarrow> bool" where
  "cmp_ok cmp \<longleftrightarrow> (\<forall>a b. cmp a b = 0 \<longleftrightarrow> a = b)"

definition ht_entries :: "('k, 'v) kv_ht \<Rightarrow> ('k, 'v) bucket" where
  "ht_entries ht = concat (table ht)"

definition placed :: "('k \<Rightarrow> u64) \<Rightarrow> nat \<Rightarrow> ('k, 'v) buckets \<Rightarrow> bool" where
  "placed hf sz tab \<longleftrightarrow> length tab = sz \<and>
     (\<forall>i < length tab. \<forall>e \<in> set (tab ! i). kv_ht_hash hf sz (fst e) = i)"

definition ht_inv :: "('k, 'v) kv_ht \<Rightarrow> bool" where
  "ht_inv ht \<longleftrightarrow> ht_size ht > 0 \<and> cmp_ok (cmp_func ht)
     \<and> placed (hash_func ht) (ht_size ht) (table ht)
     \<and> distinct (map fst (ht_entries ht))
     \<and> ht_count ht = length (ht_entries ht)"

section \<open>Lemmas\<close>

lemma kv_ht_hash_less [simp]: "sz > 0 \<Longrightarrow> kv_ht_hash hf sz k < sz"
  by (simp add: kv_ht_hash_def)

lemma chain_find_map_of:
  "cmp_ok cmp \<Longrightarrow> chain_find cmp key chain = map_option (\<lambda>v. (key, v)) (map_of chain key)"
  by (induction chain) (auto simp: cmp_ok_def)

lemma chain_set_value_keys [simp]: "map fst (chain_set_value cmp key value chain) = map fst chain"
  by (induction chain) auto

lemma chain_set_value_length [simp]: "length (chain_set_value cmp key value chain) = length chain"
  by (induction chain) auto

lemma chain_set_value_map_of:
  "cmp_ok cmp \<Longrightarrow> map_of chain key \<noteq> None \<Longrightarrow>
   map_of (chain_set_value cmp key value chain) = (map_of chain)(key \<mapsto> value)"
  by (induction chain) (auto simp: cmp_ok_def fun_eq_iff)

lemma chain_unlink_eq:
  "cmp_ok cmp \<Longrightarrow> distinct (map fst chain) \<Longrightarrow>
   chain_unlink cmp key chain =
     (map_option (\<lambda>v. (key, v)) (map_of chain key), filter (\<lambda>e. fst e \<noteq> key) chain)"
proof (induction chain)
  case (Cons e chain)
  obtain k v where e: "e = (k, v)" by fastforce
  have "filter (\<lambda>e. fst e \<noteq> k) chain = chain"
    using Cons.prems(2) e by (intro filter_True) force
  with Cons e show ?case by (auto simp: cmp_ok_def)
qed simp

text \<open>one bucket holds all there is on a key\<close>

lemma placedD: "placed hf sz tab \<Longrightarrow> i < sz \<Longrightarrow> e \<in> set (tab ! i) \<Longrightarrow> kv_ht_hash hf sz (fst e) = i"
  by (simp add: placed_def)

lemma placed_length: "placed hf sz tab \<Longrightarrow> length tab = sz"
  by (simp add: placed_def)

lemma placed_map_of:
  assumes "placed hf sz tab" "sz > 0"
  shows "map_of (concat tab) k = map_of (tab ! kv_ht_hash hf sz k) k"
proof -
  let ?h = "kv_ht_hash hf sz k"
  have h: "?h < length tab" using assms by (simp add: placed_def)
  have no: "k \<notin> fst ` set (tab ! i)" if "i < length tab" "i \<noteq> ?h" for i
    using placedD [OF assms(1)] that placed_length [OF assms(1)] by auto
  have "(k, v) \<notin> set (concat (take ?h tab))" for v
    using no unfolding in_concat_nth by force
  moreover have "(k, v) \<notin> set (concat (drop (Suc ?h) tab))" for v
  proof
    assume "(k, v) \<in> set (concat (drop (Suc ?h) tab))"
    then obtain i where "i < length tab - Suc ?h" "(k, v) \<in> set (tab ! (Suc ?h + i))"
      unfolding in_concat_nth by auto
    with no [of "Suc ?h + i"] show False by force
  qed
  ultimately have "map_of (concat (take ?h tab)) k = None" "map_of (concat (drop (Suc ?h) tab)) k = None"
    unfolding map_of_eq_None_iff by (force simp del: set_concat)+
  then show ?thesis
    by (simp add: concat_split [OF h] map_add_def split: option.split)
qed

lemma placed_update:
  assumes "placed hf sz tab" "i < sz" "\<And>e. e \<in> set chain \<Longrightarrow> kv_ht_hash hf sz (fst e) = i"
  shows "placed hf sz (tab[i := chain])"
  using assms by (auto simp: placed_def nth_list_update)

lemma map_of_concat_update:
  assumes "placed hf sz tab" "i < sz" "\<And>e. e \<in> set chain \<Longrightarrow> kv_ht_hash hf sz (fst e) = i"
  shows "map_of (concat (tab[i := chain])) k =
    (if kv_ht_hash hf sz k = i then map_of chain k else map_of (concat tab) k)"
proof -
  have "placed hf sz (tab[i := chain])" using assms by (rule placed_update)
  with assms show ?thesis using placed_map_of[of hf sz "tab[i := chain]" k] placed_map_of[of hf sz tab k]
    by (auto simp: placed_def)
qed

lemma resize_chain_correct:
  assumes "placed hf sz tab" "sz > 0"
  shows "placed hf sz (resize_chain hf sz chain tab) \<and>
    mset (concat (resize_chain hf sz chain tab)) = mset (concat tab) + mset chain"
  using assms(1)
proof (induction chain arbitrary: tab)
  case (Cons e chain)
  let ?h = "kv_ht_hash hf sz (fst e)"
  let ?tab = "tab[?h := tab ! ?h @ [e]]"
  have h: "?h < length tab" using Cons.prems assms(2) by (simp add: placed_def)
  have "placed hf sz ?tab"
    using Cons.prems assms(2) placedD [OF Cons.prems] by (intro placed_update) auto
  moreover have "mset (concat ?tab) = mset (concat tab) + {#e#}"
    using mset_concat_update [OF h, of "tab ! ?h @ [e]"] by (simp add: ac_simps)
  ultimately show ?case using Cons.IH [of ?tab] by (simp add: Let_def)
qed simp

lemma resize_table_correct:
  assumes "placed hf sz tab" "sz > 0"
  shows "placed hf sz (resize_table hf sz old tab) \<and>
    mset (concat (resize_table hf sz old tab)) = mset (concat tab) + mset (concat old)"
  using assms(1)
proof (induction old arbitrary: tab)
  case (Cons chain old)
  then show ?case using resize_chain_correct [OF Cons.prems assms(2), of chain]
    by (simp add: ac_simps)
qed simp

lemma placed_replicate: "placed hf sz (replicate sz [])"
  by (simp add: placed_def)

lemma kv_ht_get_eq: "ht_inv ht \<Longrightarrow> kv_ht_get ht k = map_of (ht_entries ht) k"
  using placed_map_of [of "hash_func ht" "ht_size ht" "table ht" k]
  by (simp add: kv_ht_get_def kv_ht_get_elem_def ht_inv_def ht_entries_def chain_find_map_of
      split: option.split)

lemma kv_ht_get_elem_eq:
  "ht_inv ht \<Longrightarrow> kv_ht_get_elem ht k = map_option (\<lambda>v. (k, v)) (kv_ht_get ht k)"
  by (simp add: kv_ht_get_def kv_ht_get_elem_def ht_inv_def chain_find_map_of split: option.split)

lemma kv_ht_resize_correct:
  assumes "ht_inv ht" "sz > 0"
  shows "ht_inv (kv_ht_resize ht sz)" "kv_ht_get (kv_ht_resize ht sz) = kv_ht_get ht"
    "mset (ht_entries (kv_ht_resize ht sz)) = mset (ht_entries ht)"
proof -
  let ?t = "kv_ht_resize ht sz"
  have pl: "placed (hash_func ht) sz (table ?t)"
    and ms: "mset (concat (table ?t)) = mset (concat (table ht))"
    using resize_table_correct [OF placed_replicate assms(2), of "hash_func ht" "table ht"]
    by (simp_all add: kv_ht_resize_def)
  then show m: "mset (ht_entries ?t) = mset (ht_entries ht)" by (simp add: ht_entries_def)
  have "mset (map fst (ht_entries ?t)) = mset (map fst (ht_entries ht))"
    unfolding mset_map m ..
  moreover have "length (ht_entries ?t) = length (ht_entries ht)"
    by (rule mset_eq_length [OF m])
  ultimately show inv: "ht_inv ?t"
    using pl assms mset_eq_imp_distinct_iff [of "map fst (ht_entries ?t)" "map fst (ht_entries ht)"]
    by (simp add: ht_inv_def kv_ht_resize_def)
  show "kv_ht_get ?t = kv_ht_get ht"
    using assms(1) map_of_mset_eq [OF m]
    by (simp add: fun_eq_iff kv_ht_get_eq [OF inv] kv_ht_get_eq [OF assms(1)] ht_inv_def)
qed



lemma placed_distinct:
  assumes "placed hf sz tab"
  shows "distinct (map fst (concat tab)) \<longleftrightarrow> (\<forall>i < sz. distinct (map fst (tab ! i)))"
proof -
  have "set (map fst (tab ! i)) \<inter> set (map fst (tab ! j)) = {}" if "i < sz" "j < i" for i j
  proof -
    have "x \<noteq> y" if "x \<in> set (map fst (tab ! i))" "y \<in> set (map fst (tab ! j))" for x y
      using placedD [OF assms, of i] placedD [OF assms, of j] that \<open>i < sz\<close> \<open>j < i\<close> by fastforce
    then show ?thesis by blast
  qed
  then show ?thesis using placed_length [OF assms]
    by (simp add: map_concat distinct_concat_nth)
qed

text \<open>Exchanging one bucket.\<close>

lemma bucket_update:
  assumes inv: "ht_inv ht" and i: "i < ht_size ht"
    and pl: "\<And>e. e \<in> set chain \<Longrightarrow> kv_ht_hash (hash_func ht) (ht_size ht) (fst e) = i"
    and di: "distinct (map fst chain)"
    and ct: "cnt + length (table ht ! i) = ht_count ht + length chain"
  shows "ht_inv (ht\<lparr>table := (table ht)[i := chain], ht_count := cnt\<rparr>)" (is "ht_inv ?t")
    and "kv_ht_get (ht\<lparr>table := (table ht)[i := chain], ht_count := cnt\<rparr>) k =
      (if kv_ht_hash (hash_func ht) (ht_size ht) k = i then map_of chain k else kv_ht_get ht k)"
proof -
  have old: "placed (hash_func ht) (ht_size ht) (table ht)" using inv by (simp add: ht_inv_def)
  have new: "placed (hash_func ht) (ht_size ht) ((table ht)[i := chain])"
    by (rule placed_update [OF old i]) (rule pl)
  have len: "i < length (table ht)" using i placed_length [OF old] by simp
  have "size (mset (concat ((table ht)[i := chain]))) + size (mset (table ht ! i)) =
     size (mset (concat (table ht))) + size (mset chain)"
    using mset_concat_update [OF len, of chain] by (metis size_union)
  then have "cnt = length (concat ((table ht)[i := chain]))"
    using ct inv by (simp add: ht_inv_def ht_entries_def)
  moreover have "distinct (map fst (concat ((table ht)[i := chain])))"
    using inv placed_distinct [OF old] placed_distinct [OF new] di len
    by (auto simp: ht_inv_def ht_entries_def nth_list_update)
  ultimately show inv': "ht_inv ?t" using inv new by (simp add: ht_inv_def ht_entries_def)
  show "kv_ht_get ?t k = (if kv_ht_hash (hash_func ht) (ht_size ht) k = i then map_of chain k else kv_ht_get ht k)"
    unfolding kv_ht_get_eq [OF inv'] kv_ht_get_eq [OF inv]
    using map_of_concat_update [OF old i pl] by (simp add: ht_entries_def)
qed

lemma ht_inv_bucket:
  assumes "ht_inv ht" "i < ht_size ht"
  shows "distinct (map fst (table ht ! i))"
    "e \<in> set (table ht ! i) \<Longrightarrow> kv_ht_hash (hash_func ht) (ht_size ht) (fst e) = i"
proof -
  have pl: "placed (hash_func ht) (ht_size ht) (table ht)" using assms by (simp add: ht_inv_def)
  show "distinct (map fst (table ht ! i))"
    using assms placed_distinct [OF pl] by (simp add: ht_inv_def ht_entries_def)
  show "e \<in> set (table ht ! i) \<Longrightarrow> kv_ht_hash (hash_func ht) (ht_size ht) (fst e) = i"
    by (rule placedD [OF pl assms(2)])
qed

lemma kv_ht_get_bucket:
  "ht_inv ht \<Longrightarrow> map_of (table ht ! kv_ht_hash (hash_func ht) (ht_size ht) k) k = kv_ht_get ht k"
  using placed_map_of [of "hash_func ht" "ht_size ht" "table ht" k]
  by (simp add: kv_ht_get_eq ht_entries_def ht_inv_def)

lemma kv_ht_set_found:
  assumes inv: "ht_inv ht" and old: "kv_ht_get ht k = Some old"
  shows "ht_inv (snd (kv_ht_set ht k v))" "kv_ht_get (snd (kv_ht_set ht k v)) = (kv_ht_get ht)(k \<mapsto> v)"
    "fst (kv_ht_set ht k v) = Some old"
proof -
  let ?h = "kv_ht_hash (hash_func ht) (ht_size ht) k"
  let ?c = "chain_set_value (cmp_func ht) k v (table ht ! ?h)"
  have cmp: "cmp_ok (cmp_func ht)" and h: "?h < ht_size ht" using inv by (simp_all add: ht_inv_def)
  have eq: "kv_ht_set ht k v = (Some old, ht\<lparr>table := (table ht)[?h := ?c], ht_count := ht_count ht\<rparr>)"
    by (simp add: kv_ht_set_def kv_ht_get_elem_eq [OF inv] old Let_def)
  have mo: "map_of ?c = (map_of (table ht ! ?h))(k \<mapsto> v)"
    using kv_ht_get_bucket [OF inv, of k] old by (simp add: chain_set_value_map_of [OF cmp])
  have mem: "kv_ht_hash (hash_func ht) (ht_size ht) (fst e) = ?h" if "e \<in> set ?c" for e
  proof -
    have "fst e \<in> set (map fst ?c)" using that unfolding set_map by (rule imageI)
    then have "fst e \<in> fst ` set (table ht ! ?h)" by simp
    then show ?thesis using ht_inv_bucket(2) [OF inv h] by auto
  qed
  note upd = bucket_update [OF inv h mem, of ?c "ht_count ht"]
  show "ht_inv (snd (kv_ht_set ht k v))"
    unfolding eq snd_conv using upd(1) ht_inv_bucket(1) [OF inv h] by simp
  show "kv_ht_get (snd (kv_ht_set ht k v)) = (kv_ht_get ht)(k \<mapsto> v)"
  proof
    fix x
    show "kv_ht_get (snd (kv_ht_set ht k v)) x = ((kv_ht_get ht)(k \<mapsto> v)) x"
      unfolding eq snd_conv
      using upd(2) [of x] ht_inv_bucket(1) [OF inv h] kv_ht_get_bucket [OF inv, of x]
      by (auto simp: mo)
  qed
  show "fst (kv_ht_set ht k v) = Some old" unfolding eq by simp
qed

lemma kv_ht_insert_correct:
  assumes inv: "ht_inv ht" and new: "kv_ht_get ht k = None"
  defines "h \<equiv> kv_ht_hash (hash_func ht) (ht_size ht) k"
  shows "ht_inv (ht\<lparr>table := (table ht)[h := table ht ! h @ [(k, v)]], ht_count := ht_count ht + 1\<rparr>)" (is "ht_inv ?t")
    "kv_ht_get (ht\<lparr>table := (table ht)[h := table ht ! h @ [(k, v)]], ht_count := ht_count ht + 1\<rparr>) = (kv_ht_get ht)(k \<mapsto> v)"
proof -
  let ?c = "table ht ! h @ [(k, v)]"
  have h: "h < ht_size ht" using inv by (simp add: h_def ht_inv_def)
  have b: "map_of (table ht ! h) k = None" unfolding h_def kv_ht_get_bucket [OF inv] by (rule new)
  have mo: "map_of ?c k' = (if k' = k then Some v else map_of (table ht ! h) k')" for k'
    using b by (auto simp: map_add_def split: option.split)
  have di: "distinct (map fst ?c)" using ht_inv_bucket(1) [OF inv h] b by (auto simp: map_of_eq_None_iff)
  have mem: "kv_ht_hash (hash_func ht) (ht_size ht) (fst e) = h" if "e \<in> set ?c" for e
    using that ht_inv_bucket(2) [OF inv h, of e] by (auto simp: h_def)
  note upd = bucket_update [OF inv h mem di, of "ht_count ht + 1"]
  show "ht_inv ?t" using upd(1) by simp
  show "kv_ht_get ?t = (kv_ht_get ht)(k \<mapsto> v)"
  proof
    fix k'
    have "map_of (table ht ! h) k' = kv_ht_get ht k'" if "kv_ht_hash (hash_func ht) (ht_size ht) k' = h"
      using kv_ht_get_bucket [OF inv, of k'] that by simp
    then show "kv_ht_get ?t k' = ((kv_ht_get ht)(k \<mapsto> v)) k'"
      using upd(2) [of k'] mo [of k'] by (auto simp: h_def)
  qed
qed

lemma kv_ht_set_absent:
  assumes inv: "ht_inv ht" and new: "kv_ht_get ht k = None"
  shows "ht_inv (snd (kv_ht_set ht k v))" "kv_ht_get (snd (kv_ht_set ht k v)) = (kv_ht_get ht)(k \<mapsto> v)"
    "fst (kv_ht_set ht k v) = None"
proof -
  define ht1 where "ht1 = (if ht_count ht > ht_size ht then kv_ht_resize ht (2 * ht_size ht) else ht)"
  have pos: "2 * ht_size ht > 0" using inv by (simp add: ht_inv_def)
  have ht1: "ht_inv ht1" "kv_ht_get ht1 = kv_ht_get ht"
    using kv_ht_resize_correct [OF inv pos] inv by (simp_all add: ht1_def)
  have eq: "kv_ht_set ht k v = (None, ht1\<lparr>table := (table ht1)[kv_ht_hash (hash_func ht1) (ht_size ht1) k :=
     table ht1 ! kv_ht_hash (hash_func ht1) (ht_size ht1) k @ [(k, v)]], ht_count := ht_count ht1 + 1\<rparr>)"
    by (simp add: kv_ht_set_def kv_ht_get_elem_eq [OF inv] new Let_def flip: ht1_def)
  show "ht_inv (snd (kv_ht_set ht k v))" "kv_ht_get (snd (kv_ht_set ht k v)) = (kv_ht_get ht)(k \<mapsto> v)"
    unfolding eq snd_conv using kv_ht_insert_correct [OF ht1(1), of k v] new by (simp_all add: ht1(2))
  show "fst (kv_ht_set ht k v) = None" unfolding eq by simp
qed

lemma kv_ht_set_correct:
  assumes "ht_inv ht"
  shows "ht_inv (snd (kv_ht_set ht k v))" "kv_ht_get (snd (kv_ht_set ht k v)) = (kv_ht_get ht)(k \<mapsto> v)"
    "fst (kv_ht_set ht k v) = kv_ht_get ht k"
  using kv_ht_set_found [OF assms] kv_ht_set_absent [OF assms] by (cases "kv_ht_get ht k"; simp)+

lemma kv_ht_del_correct:
  assumes inv: "ht_inv ht"
  shows "ht_inv (snd (kv_ht_del ht k))" "kv_ht_get (snd (kv_ht_del ht k)) = (kv_ht_get ht)(k := None)"
    "fst (kv_ht_del ht k) = map_option (\<lambda>v. (k, v)) (kv_ht_get ht k)"
proof -
  let ?h = "kv_ht_hash (hash_func ht) (ht_size ht) k"
  let ?c = "filter (\<lambda>e. fst e \<noteq> k) (table ht ! ?h)"
  have cmp: "cmp_ok (cmp_func ht)" and h: "?h < ht_size ht" using inv by (simp_all add: ht_inv_def)
  note un = chain_unlink_eq [OF cmp ht_inv_bucket(1) [OF inv h], of k]
  show "fst (kv_ht_del ht k) = map_option (\<lambda>v. (k, v)) (kv_ht_get ht k)"
    by (simp add: kv_ht_del_def kv_ht_del_at_def un kv_ht_get_bucket [OF inv] Let_def split: option.split)
  have main: "ht_inv (snd (kv_ht_del ht k)) \<and> kv_ht_get (snd (kv_ht_del ht k)) = (kv_ht_get ht)(k := None)"
  proof (cases "kv_ht_get ht k")
    case None
    then show ?thesis using inv by (auto simp: kv_ht_del_def kv_ht_del_at_def un kv_ht_get_bucket [OF inv] Let_def)
  next
    case (Some v)
    then have eq: "snd (kv_ht_del ht k) = ht\<lparr>table := (table ht)[?h := ?c], ht_count := ht_count ht - 1\<rparr>"
      by (simp add: kv_ht_del_def kv_ht_del_at_def un kv_ht_get_bucket [OF inv] Let_def)
    have kin: "k \<in> fst ` set (table ht ! ?h)"
      using Some kv_ht_get_bucket [OF inv, of k] by (metis map_of_eq_None_iff option.distinct(1))
    have len: "length (table ht ! ?h) = Suc (length ?c)"
      using ht_inv_bucket(1) [OF inv h] kin by (rule length_filter_key)
    have "ht_count ht \<ge> length (table ht ! ?h)"
      using inv h concat_split [of ?h "table ht"] placed_length [of "hash_func ht" "ht_size ht" "table ht"]
      by (simp add: ht_inv_def ht_entries_def)
    then have ct: "ht_count ht - 1 + length (table ht ! ?h) = ht_count ht + length ?c"
      using len by simp
    have di: "distinct (map fst ?c)" using ht_inv_bucket(1) [OF inv h] by (rule distinct_map_filter)
    have mem: "kv_ht_hash (hash_func ht) (ht_size ht) (fst e) = ?h" if "e \<in> set ?c" for e
      using that ht_inv_bucket(2) [OF inv h, of e] by auto
    note upd = bucket_update [OF inv h mem di ct]
    have "kv_ht_get (snd (kv_ht_del ht k)) k' = ((kv_ht_get ht)(k := None)) k'" for k'
      using upd(2) [of k'] kv_ht_get_bucket [OF inv, of k']
      by (auto simp: eq map_of_filter_neq)
    then show ?thesis using upd(1) by (auto simp: eq)
  qed
  then show "ht_inv (snd (kv_ht_del ht k))" "kv_ht_get (snd (kv_ht_del ht k)) = (kv_ht_get ht)(k := None)" by auto
qed

text \<open>With the bucket number of another size of the array, \<open>kv_ht_del\<close> passes the key by.\<close>

lemma kv_ht_del_at_stale:
  assumes inv: "ht_inv ht" and h: "hash < ht_size ht" "hash \<noteq> kv_ht_hash (hash_func ht) (ht_size ht) k"
  shows "kv_ht_del_at ht hash k = (None, ht)"
proof -
  have "cmp_ok (cmp_func ht)" using inv by (simp add: ht_inv_def)
  note un = chain_unlink_eq [OF this ht_inv_bucket(1) [OF inv h(1)], of k]
  have "map_of (table ht ! hash) k = None"
    using ht_inv_bucket(2) [OF inv h(1)] h(2) by (fastforce simp: map_of_eq_None_iff)
  then show ?thesis by (simp add: kv_ht_del_at_def un)
qed

lemma kv_ht_create_correct:
  assumes "sz > 0" "cmp_ok cf"
  shows "\<exists>ht. kv_ht_create sz hf cf = Inr ht \<and> ht_inv ht \<and> kv_ht_get ht = Map.empty"
proof -
  let ?t = "\<lparr>ht_size = nat sz, ht_count = 0, hash_func = hf, cmp_func = cf, table = replicate (nat sz) []\<rparr>"
  have "ht_inv ?t" using assms by (simp add: ht_inv_def ht_entries_def placed_replicate)
  then show ?thesis using assms by (auto simp: kv_ht_create_def kv_ht_get_eq ht_entries_def)
qed

lemma kv_ht_foreach_eq: "kv_ht_foreach ht f p = fold f (ht_entries ht) p"
  by (simp add: kv_ht_foreach_def ht_entries_def fold_concat)

lemma funcs_unchanged [simp]:
  "hash_func (snd (kv_ht_set ht k v)) = hash_func ht" "cmp_func (snd (kv_ht_set ht k v)) = cmp_func ht"
  "hash_func (snd (kv_ht_del ht k)) = hash_func ht" "cmp_func (snd (kv_ht_del ht k)) = cmp_func ht"
  by (auto simp: kv_ht_set_def kv_ht_del_def kv_ht_del_at_def kv_ht_resize_def Let_def split: option.split prod.split)

interpretation ht: kv_map kv_ht_get kv_ht_set kv_ht_del ht_inv
  by unfold_locales (simp_all add: kv_ht_set_correct kv_ht_del_correct)

section \<open>Properties\<close>

text \<open>
  A sequence of operations on the table and on a finite map, with the value each returns: the
  value found, replaced or removed.
\<close>

datatype ('k, 'v) ht_op = Op_Get 'k | Op_Set 'k 'v | Op_Del 'k

fun ht_step :: "('k, 'v) ht_op \<Rightarrow> ('k, 'v) kv_ht \<Rightarrow> 'v option \<times> ('k, 'v) kv_ht" where
  "ht_step (Op_Get k) ht = (kv_ht_get ht k, ht)"
| "ht_step (Op_Set k v) ht = kv_ht_set ht k v"
| "ht_step (Op_Del k) ht = (let (old, ht) = kv_ht_del ht k in (map_option snd old, ht))"

fun ht_run :: "('k, 'v) ht_op list \<Rightarrow> ('k, 'v) kv_ht \<Rightarrow> 'v option list \<times> ('k, 'v) kv_ht" where
  "ht_run [] ht = ([], ht)"
| "ht_run (f # fs) ht =
     (let (r, ht) = ht_step f ht; (rs, ht) = ht_run fs ht in (r # rs, ht))"

fun map_step :: "('k, 'v) ht_op \<Rightarrow> ('k \<rightharpoonup> 'v) \<Rightarrow> ('k \<rightharpoonup> 'v)" where
  "map_step (Op_Get k) m = m"
| "map_step (Op_Set k v) m = m(k \<mapsto> v)"
| "map_step (Op_Del k) m = m(k := None)"

fun op_key :: "('k, 'v) ht_op \<Rightarrow> 'k" where
  "op_key (Op_Get k) = k"
| "op_key (Op_Set k v) = k"
| "op_key (Op_Del k) = k"

fun map_run :: "('k, 'v) ht_op list \<Rightarrow> ('k \<rightharpoonup> 'v) \<Rightarrow> 'v option list \<times> ('k \<rightharpoonup> 'v)" where
  "map_run [] m = ([], m)"
| "map_run (f # fs) m = (let (rs, m') = map_run fs (map_step f m) in (m (op_key f) # rs, m'))"

text \<open>The table grows in time: it never holds more than one entry beyond its size.\<close>

definition ht_load_ok :: "('k, 'v) kv_ht \<Rightarrow> bool" where
  "ht_load_ok ht \<longleftrightarrow> ht_count ht \<le> ht_size ht + 1"

lemma ht_load_set: "ht_inv ht \<Longrightarrow> ht_load_ok ht \<Longrightarrow> ht_load_ok (snd (kv_ht_set ht k v))"
  by (auto simp: ht_load_ok_def kv_ht_set_def kv_ht_resize_def ht_inv_def Let_def split: option.split)

lemma ht_load_del: "ht_load_ok ht \<Longrightarrow> ht_load_ok (snd (kv_ht_del ht k))"
  by (auto simp: ht_load_ok_def kv_ht_del_def kv_ht_del_at_def Let_def split: option.split prod.split)

lemma ht_step_correct:
  assumes "ht_inv ht"
  shows "ht_inv (snd (ht_step f ht)) \<and> fst (ht_step f ht) = kv_ht_get ht (op_key f)
    \<and> kv_ht_get (snd (ht_step f ht)) = map_step f (kv_ht_get ht)
    \<and> (ht_load_ok ht \<longrightarrow> ht_load_ok (snd (ht_step f ht)))"
proof (cases f)
  case (Op_Del k)
  then show ?thesis using kv_ht_del_correct [OF assms, of k] ht_load_del [of ht k]
    by (simp add: option.map_comp o_def case_prod_unfold option.map_ident)
qed (use assms kv_ht_set_correct [OF assms] ht_load_set in auto)

lemma ht_run_correct:
  "ht_inv ht \<Longrightarrow> ht_load_ok ht \<Longrightarrow> ht_inv (snd (ht_run fs ht)) \<and> ht_load_ok (snd (ht_run fs ht))
     \<and> fst (ht_run fs ht) = fst (map_run fs (kv_ht_get ht))
     \<and> kv_ht_get (snd (ht_run fs ht)) = snd (map_run fs (kv_ht_get ht))"
proof (induction fs arbitrary: ht)
  case (Cons f fs)
  note st = ht_step_correct [OF Cons.prems(1), of f]
  from Cons.IH [of "snd (ht_step f ht)"] st Cons.prems
  show ?case by (simp add: Let_def case_prod_unfold)
qed simp

lemma ht_count_card: "ht_inv ht \<Longrightarrow> ht_count ht = card (dom (kv_ht_get ht))"
proof -
  assume inv: "ht_inv ht"
  have "kv_ht_get ht = map_of (ht_entries ht)" using kv_ht_get_eq [OF inv] by (rule ext)
  then have "dom (kv_ht_get ht) = fst ` set (ht_entries ht)" by (simp add: dom_map_of_conv_image_fst)
  also have "card \<dots> = length (ht_entries ht)"
    using inv distinct_card [of "map fst (ht_entries ht)"] by (simp add: ht_inv_def)
  finally show ?thesis using inv by (simp add: ht_inv_def)
qed

text \<open>
  C20. The hash table is a finite map: after \<open>kv_ht_create\<close>, any sequence of \<open>kv_ht_get\<close>,
  \<open>kv_ht_set\<close> and \<open>kv_ht_del\<close>, with any hash function and through every growth of the array,
  returns what the map returns and leaves its contents; \<open>ht_count\<close> is the number of keys and
  at most one more than the number of buckets.
\<close>

theorem kv_ht_refines_map:
  fixes fs :: "('k, 'v) ht_op list"
  assumes "sz > 0" "cmp_ok cf"
  shows "\<exists>ht. kv_ht_create sz hf cf = Inr ht \<and>
     fst (ht_run fs ht) = fst (map_run fs Map.empty) \<and>
     kv_ht_get (snd (ht_run fs ht)) = snd (map_run fs Map.empty) \<and>
     ht_count (snd (ht_run fs ht)) = card (dom (snd (map_run fs Map.empty))) \<and>
     ht_count (snd (ht_run fs ht)) \<le> ht_size (snd (ht_run fs ht)) + 1"
proof -
  obtain ht :: "('k, 'v) kv_ht" where ht: "kv_ht_create sz hf cf = Inr ht" "ht_inv ht" "kv_ht_get ht = Map.empty"
    using kv_ht_create_correct [OF assms] by blast
  have "ht_load_ok ht" using ht(1) assms(1) by (auto simp: kv_ht_create_def ht_load_ok_def)
  from ht_run_correct [OF ht(2) this, of fs] ht show ?thesis
    by (auto simp: ht_load_ok_def ht_count_card)
qed

theorem kv_ht_refines_map_witness:
  "\<exists>ht. kv_ht_create 2 (\<lambda>n. of_nat (n mod 3)) (\<lambda>a b. int a - int b) = Inr ht \<and>
     fst (ht_run [Op_Set 1 ''a'', Op_Set 4 ''b'', Op_Set 1 ''c'', Op_Set 7 ''d'', Op_Set 2 ''e'', Op_Get 1,
       Op_Del 4, Op_Get 4] ht) = [None, None, Some ''a'', None, None, Some ''c'', Some ''b'', None]"
  using kv_ht_refines_map [of 2 "\<lambda>a b. int a - int b" "\<lambda>n. of_nat (n mod 3)"
      "[Op_Set 1 ''a'', Op_Set 4 ''b'', Op_Set 1 ''c'', Op_Set 7 ''d'', Op_Set 2 ''e'', Op_Get 1,
       Op_Del 4, Op_Get 4]"]
  by (simp only: cmp_ok_def map_run.simps map_step.simps op_key.simps) auto

text \<open>
  C40. \<open>kv_ht_resize\<close> moves every entry to the bucket its hash selects in the new array: no
  entry is lost or duplicated, every lookup gives what it gave, and the invariant holds.
\<close>

theorem kv_ht_resize_preserves:
  assumes "ht_inv ht" "sz > 0"
  shows "ht_inv (kv_ht_resize ht sz) \<and> ht_size (kv_ht_resize ht sz) = sz \<and>
     mset (ht_entries (kv_ht_resize ht sz)) = mset (ht_entries ht) \<and>
     kv_ht_get (kv_ht_resize ht sz) = kv_ht_get ht"
  using kv_ht_resize_correct [OF assms] by (simp add: kv_ht_resize_def)

definition sample_ht :: "(nat, nat) kv_ht" where
  "sample_ht = \<lparr>ht_size = 2, ht_count = 3, hash_func = (\<lambda>k. if k = 7 then 1 else 0), cmp_func = (\<lambda>a b. int a - int b),
     table = [[(0, 5), (2, 6)], [(7, 8)]]\<rparr>"

lemma sample_ht_inv: "ht_inv sample_ht"
  by (simp add: sample_ht_def ht_inv_def cmp_ok_def placed_def ht_entries_def kv_ht_hash_def
      less_Suc_eq nth_Cons')

theorem kv_ht_resize_preserves_witness:
  "ht_inv sample_ht \<and> kv_ht_get (kv_ht_resize sample_ht 4) = kv_ht_get sample_ht"
  using kv_ht_resize_preserves [OF sample_ht_inv, of 4] sample_ht_inv by simp

text \<open>
  \<open>kv_ht_foreach\<close>, which writes the snapshot, calls its function on every binding of the
  table exactly once, on nothing else, in one order that does not depend on the function.
\<close>

theorem kv_ht_foreach_visits:
  assumes "ht_inv ht"
  shows "\<exists>es. distinct (map fst es) \<and> map_of es = kv_ht_get ht \<and> length es = ht_count ht \<and>
     (\<forall>f p. kv_ht_foreach ht f p = fold f es p)"
proof (intro exI conjI allI)
  show "distinct (map fst (ht_entries ht))" "length (ht_entries ht) = ht_count ht"
    using assms by (simp_all add: ht_inv_def)
  show "map_of (ht_entries ht) = kv_ht_get ht" using kv_ht_get_eq [OF assms] by (simp add: fun_eq_iff)
  show "kv_ht_foreach ht f p = fold f (ht_entries ht) p" for f p by (rule kv_ht_foreach_eq)
qed

theorem kv_ht_foreach_visits_witness:
  "\<exists>es. map_of es = kv_ht_get sample_ht \<and> kv_ht_foreach sample_ht (#) [] = rev es \<and> length es = 3"
  using kv_ht_foreach_visits [OF sample_ht_inv]
  by (metis (no_types, lifting) append_Nil2 fold_Cons_rev kv_ht.select_convs(2) sample_ht_def)

end
