(* ===== verification/Utils.thy ===== *)
theory Utils
  imports Prelude
begin

text \<open>
  \<open>utils.c\<close>: decimal digits, the djb2 hash, single hexadecimal digits.  The eight
  digit conversions that \<open>kv_recovery.c\<close> and \<open>tx_manager.c\<close> each define for
  themselves (with the same body) are here too, and the two digit ones of
  \<open>kv_recovery.c\<close>.
\<close>

section \<open>Definitions\<close>

subsection \<open>Decimal digits\<close>

text \<open>
  \<open>digit_to_int\<close>: the loop runs \<open>i = 0 .. digit_len - 1\<close> from the last digit
  to the first; a character that is no digit ends the process.  \<open>rs\<close> is the digit
  string from its end.
\<close>

fun digit_to_int_loop :: "string \<Rightarrow> int \<Rightarrow> int \<Rightarrow> int res" where
  "digit_to_int_loop [] integer weight = Inr integer"
| "digit_to_int_loop (c # rs) integer weight =
     (let num = schar c - 48 in
      if num < 0 \<or> num > 9 then Inl Exit1
      else bind_res (cint (num * weight)) (\<lambda>p.
           bind_res (cint (integer + p)) (\<lambda>integer'.
           bind_res (cint (weight * 10)) (\<lambda>weight'.
           digit_to_int_loop rs integer' weight'))))"

definition digit_to_int :: "string \<Rightarrow> int res" where
  "digit_to_int digit = digit_to_int_loop (rev digit) 0 1"

text \<open>\<open>int_to_digit\<close>: C division truncates towards zero.\<close>

fun int_to_digit_loop :: "nat list \<Rightarrow> nat \<Rightarrow> int \<Rightarrow> string \<Rightarrow> string res" where
  "int_to_digit_loop [] digit_len quot buf = Inr buf"
| "int_to_digit_loop (i # ks) digit_len quot buf =
     (let remainder = quot smod 10; quot' = quot sdiv 10 in
      bind_res (buf_set buf (digit_len - 1 - i) (char_of (remainder + 48)))
        (int_to_digit_loop ks digit_len quot'))"

definition int_to_digit :: "nat \<Rightarrow> int \<Rightarrow> string \<Rightarrow> string res" where
  "int_to_digit digit_len integer buf = int_to_digit_loop [0..<digit_len] digit_len integer buf"

subsection \<open>System calls that must not fail\<close>

text \<open>
  \<open>lseek_with_error\<close> and \<open>read_with_error\<close> as functions of what the system
  call returned.
\<close>

definition lseek_with_error :: "int \<Rightarrow> int res" where
  "lseek_with_error ret = (if ret = -1 then Inl Exit1 else Inr ret)"

definition read_with_error :: "int \<Rightarrow> int \<Rightarrow> int res" where
  "read_with_error nr cnt =
     (if nr = 0 then Inr nr else if nr \<noteq> cnt then Inl Exit1 else Inr nr)"

subsection \<open>djb2\<close>

fun djb2_loop :: "string \<Rightarrow> u64 \<Rightarrow> u64" where
  "djb2_loop [] hash = hash"
| "djb2_loop (c # str) hash = djb2_loop str ((push_bit 5 hash + hash) + word_of_int (schar c))"

definition djb2 :: "string \<Rightarrow> u64" where
  "djb2 str = djb2_loop str 5381"

subsection \<open>Hexadecimal digits\<close>

definition hex_array :: string where
  "hex_array = ''0123456789ABCDEF''"

definition get_hex :: "u32 \<Rightarrow> char res" where
  "get_hex i = (if unat i < 16 then Inr (hex_array ! unat i) else Inl Out_Of_Bounds)"

definition from_hex_array :: "u32 list" where
  "from_hex_array = [0, 1, 2, 3, 4, 5, 6, 7, 8, 9, 0, 0, 0, 0, 0, 0, 0, 10, 11, 12, 13, 14, 15]"

definition from_hex :: "char \<Rightarrow> u32 res" where
  "from_hex hex =
     (let i = schar hex - 48 in
      if 0 \<le> i \<and> i < 23 then Inr (from_hex_array ! nat i) else Inl Out_Of_Bounds)"

fun uint32_to_hex_loop :: "nat list \<Rightarrow> u32 \<Rightarrow> u32 \<Rightarrow> string \<Rightarrow> string res" where
  "uint32_to_hex_loop [] x filt hex = Inr hex"
| "uint32_to_hex_loop (i # ks) x filt hex =
     bind_res (get_hex (drop_bit (i * 4) (x AND filt))) (\<lambda>d.
     bind_res (buf_set hex (7 - i) d) (\<lambda>hex'.
     uint32_to_hex_loop ks x (push_bit 4 filt) hex'))"

definition uint32_to_hex :: "u32 \<Rightarrow> string \<Rightarrow> string res" where
  "uint32_to_hex x hex = uint32_to_hex_loop [0..<8] x 0xf hex"

fun hex_to_uint32_loop :: "nat list \<Rightarrow> string \<Rightarrow> u32 \<Rightarrow> u32 res" where
  "hex_to_uint32_loop [] hex hex_val = Inr hex_val"
| "hex_to_uint32_loop (i # ks) hex hex_val =
     bind_res (buf_read hex i 1) (\<lambda>b.
     bind_res (from_hex (hd b)) (\<lambda>d.
     hex_to_uint32_loop ks hex (hex_val + push_bit ((7 - i) * 4) d)))"

definition hex_to_uint32 :: "string \<Rightarrow> u32 res" where
  "hex_to_uint32 hex = hex_to_uint32_loop [0..<8] hex 0"

fun size_t_to_2_digit_hex_loop :: "nat list \<Rightarrow> u64 \<Rightarrow> u32 \<Rightarrow> string \<Rightarrow> string res" where
  "size_t_to_2_digit_hex_loop [] s filt hex = Inr hex"
| "size_t_to_2_digit_hex_loop (i # ks) s filt hex =
     bind_res (get_hex (ucast (drop_bit (i * 4) (s AND ucast filt)))) (\<lambda>d.
     bind_res (buf_set hex (1 - i) d) (\<lambda>hex'.
     size_t_to_2_digit_hex_loop ks s (push_bit 4 filt) hex'))"

definition size_t_to_2_digit_hex :: "u64 \<Rightarrow> string \<Rightarrow> string res" where
  "size_t_to_2_digit_hex s hex = size_t_to_2_digit_hex_loop [0..<2] s 0xf hex"

text \<open>The shift of the code is by \<open>1 - i\<close> bits, not by \<open>1 - i\<close> digits.\<close>

fun from_2_digit_hex_loop :: "nat list \<Rightarrow> string \<Rightarrow> u64 \<Rightarrow> u64 res" where
  "from_2_digit_hex_loop [] hex hex_val = Inr hex_val"
| "from_2_digit_hex_loop (i # ks) hex hex_val =
     bind_res (buf_read hex i 1) (\<lambda>b.
     bind_res (from_hex (hd b)) (\<lambda>d.
     from_2_digit_hex_loop ks hex (hex_val + ucast (push_bit (1 - i) d))))"

definition from_2_digit_hex :: "string \<Rightarrow> u64 res" where
  "from_2_digit_hex hex = from_2_digit_hex_loop [0..<2] hex 0"

text \<open>\<open>printf\<close>'s \<open>%08X\<close> on a \<open>uint32_t\<close>: its eight base-16 digits.\<close>

definition fmt_08X :: "u32 \<Rightarrow> string" where
  "fmt_08X x = map (\<lambda>i. hex_array ! (unat x div 16 ^ i mod 16)) [7, 6, 5, 4, 3, 2, 1, 0]"

section \<open>Lemmas\<close>

subsection \<open>Hexadecimal digits\<close>

text \<open>
  The masks of the printing loops select one nibble; printing is the usual base-16
  expansion, and reading eight printed digits gives the number back.
\<close>

lemma upt_8: "[0..<8] = [0, 1, 2, 3, 4, 5, 6, 7::nat]" by (simp add: upt_rec)
lemma upt_2: "[0..<2] = [0, 1::nat]" by (simp add: upt_rec)

lemma and_15_mod: "(x :: 'a::len word) AND 15 = take_bit 4 x"
  by (simp add: take_bit_eq_mask mask_eq_exp_minus_1)

lemma unat_nibble:
  fixes x :: "'a::len word"
  shows "unat (drop_bit n (x AND push_bit n 15)) = unat x div 2 ^ n mod 16"
proof -
  have "drop_bit n (x AND push_bit n 15) = take_bit 4 (drop_bit n x)"
    unfolding and_15_mod [symmetric]
    by (rule bit_word_eqI) (auto simp: bit_simps dest: bit_imp_le_length)
  then show ?thesis
    by (simp add: unsigned_take_bit_eq unat_drop_bit_eq take_bit_eq_mod [of _ "unat x div 2 ^ n"]
        drop_bit_eq_div [of _ "unat x"])
qed

lemma get_hex_nibble:
  "get_hex (drop_bit n (x AND push_bit n 15)) = Inr (hex_array ! (unat x div 2 ^ n mod 16))"
  unfolding get_hex_def unat_nibble by simp

lemma get_hex_ucast_nibble:
  fixes s :: u64
  assumes "n \<le> 4"
  shows "get_hex (ucast (drop_bit n (s AND push_bit n 15))) = Inr (hex_array ! (unat s div 2 ^ n mod 16))"
proof -
  have "unat (ucast (drop_bit n (s AND push_bit n 15)) :: u32) = unat s div 2 ^ n mod 16"
    by (simp only: unsigned_ucast_eq unat_nibble) (simp add: take_bit_nat_eq_self)
  then show ?thesis unfolding get_hex_def by simp
qed

lemma uint32_to_hex_eq:
  assumes "8 \<le> length hex"
  shows "uint32_to_hex x hex = Inr (fmt_08X x @ drop 8 hex)"
proof -
  obtain a0 a1 a2 a3 a4 a5 a6 a7 t where hex: "hex = [a0, a1, a2, a3, a4, a5, a6, a7] @ t"
    using assms by (auto simp: numeral_eq_Suc Suc_le_length_iff)
  show ?thesis
    using get_hex_nibble [of 0 x] get_hex_nibble [of 4 x] get_hex_nibble [of 8 x] get_hex_nibble [of 12 x]
     get_hex_nibble [of 16 x] get_hex_nibble [of 20 x] get_hex_nibble [of 24 x] get_hex_nibble [of 28 x]
    by (simp add: hex uint32_to_hex_def fmt_08X_def upt_8 buf_set_def)
qed

lemma size_t_to_2_digit_hex_eq:
  assumes "2 \<le> length hex"
  shows "size_t_to_2_digit_hex s hex =
     Inr ([hex_array ! (unat s div 16 mod 16), hex_array ! (unat s mod 16)] @ drop 2 hex)"
proof -
  obtain a0 a1 t where hex: "hex = [a0, a1] @ t"
    using assms by (auto simp: numeral_eq_Suc Suc_le_length_iff)
  show ?thesis
    using get_hex_ucast_nibble [of 0 s] get_hex_ucast_nibble [of 4 s]
    by (simp add: hex size_t_to_2_digit_hex_def upt_2 buf_set_def)
qed

lemma from_hex_hex_array:
  assumes "n < 16"
  shows "from_hex (hex_array ! n) = Inr (of_nat n)"
proof -
  have "\<forall>n \<in> {..<16}. from_hex (hex_array ! n) = Inr (of_nat n)"
    by (simp add: lessThan_nat_numeral lessThan_Suc from_hex_def hex_array_def from_hex_array_def schar_def)
  with assms show ?thesis by simp
qed

lemma hex8_value:
  assumes "x < 2 ^ 32"
  shows "x = (x div 16 ^ 7 mod 16) * 16 ^ 7 + (x div 16 ^ 6 mod 16) * 16 ^ 6
     + (x div 16 ^ 5 mod 16) * 16 ^ 5 + (x div 16 ^ 4 mod 16) * 16 ^ 4
     + (x div 16 ^ 3 mod 16) * 16 ^ 3 + (x div 16 ^ 2 mod 16) * 16 ^ 2
     + (x div 16 mod 16) * 16 + x mod (16::nat)"
proof -
  have step: "x div 16 ^ k = x div 16 ^ Suc k * 16 + x div 16 ^ k mod 16" for k
    by (metis div_mult2_eq div_mult_mod_eq mult.commute power_Suc2)
  have s0: "x = x div 16 * 16 + x mod 16" by simp
  have s7: "x div 4294967296 = 0" using assms by simp
  have pows: "(16::nat) ^ 2 = 256" "(16::nat) ^ 3 = 4096" "(16::nat) ^ 4 = 65536"
    "(16::nat) ^ 5 = 1048576" "(16::nat) ^ 6 = 16777216" "(16::nat) ^ 7 = 268435456"
    by simp_all
  show ?thesis
    unfolding pows
    using s0 step [of 1, simplified] step [of 2, simplified] step [of 3, simplified]
      step [of 4, simplified] step [of 5, simplified] step [of 6, simplified]
      step [of 7, simplified] s7
    by linarith
qed

lemma hex_to_uint32_fmt:
  "hex_to_uint32 (fmt_08X x @ t) = Inr x"
proof -
  have v: "unat x < 2 ^ 32" using unsigned_less [of x] by simp
  have "hex_to_uint32 (fmt_08X x @ t) = Inr (of_nat
     ((unat x div 16 ^ 7 mod 16) * 16 ^ 7 + (unat x div 16 ^ 6 mod 16) * 16 ^ 6
     + (unat x div 16 ^ 5 mod 16) * 16 ^ 5 + (unat x div 16 ^ 4 mod 16) * 16 ^ 4
     + (unat x div 16 ^ 3 mod 16) * 16 ^ 3 + (unat x div 16 ^ 2 mod 16) * 16 ^ 2
     + (unat x div 16 mod 16) * 16 + unat x mod 16))"
    by (simp add: hex_to_uint32_def fmt_08X_def upt_8 buf_read_def from_hex_hex_array push_bit_eq_mult
        del: of_nat_mod of_nat_div)
  then show ?thesis unfolding hex8_value [OF v, symmetric] by simp
qed

lemma ucast_of_nat_small: "n < 2 ^ 32 \<Longrightarrow> (ucast (of_nat n :: u32) :: u64) = of_nat n"
  by (simp add: unsigned_of_nat take_bit_nat_eq_self)

lemma from_2_digit_hex_eq:
  assumes "a < 16" "b < 16"
  shows "from_2_digit_hex ([hex_array ! a, hex_array ! b] @ t) = Inr (of_nat (2 * a + b))"
proof -
  have "push_bit 1 (of_nat a :: u32) = of_nat (2 * a)" by (simp add: push_bit_eq_mult)
  with assms show ?thesis
    by (simp add: from_2_digit_hex_def upt_2 buf_read_def from_hex_hex_array ucast_of_nat_small del: of_nat_mult)
qed

lemma two_digit_hex_decode:
  assumes "2 \<le> length hex" "n < 256"
  shows "bind_res (size_t_to_2_digit_hex (of_nat n) hex) from_2_digit_hex
     = Inr (of_nat (2 * (n div 16) + n mod 16))"
proof -
  have n: "unat (of_nat n :: u64) = n" using assms(2) by (simp add: unat_of_nat)
  have d: "n div 16 < 16" "n mod 16 < 16" using assms(2) by auto
  have m: "n div 16 mod 16 = n div 16" using d by simp
  show ?thesis unfolding size_t_to_2_digit_hex_eq [OF assms(1)] n m bind_res.simps
    using from_2_digit_hex_eq [OF d] by simp
qed

lemma length_fmt_08X [simp]: "length (fmt_08X x) = 8" by (simp add: fmt_08X_def)

lemma hex_array_chars: "n < 16 \<Longrightarrow> hex_array ! n \<in> set hex_array"
  by (rule nth_mem) (simp add: hex_array_def)

lemma hex_array_clean: "NUL \<notin> set hex_array" "LF \<notin> set hex_array" "SP \<notin> set hex_array"
  by (simp_all add: hex_array_def)

lemma fmt_08X_chars: "c \<in> set (fmt_08X x) \<Longrightarrow> c \<in> set hex_array"
  unfolding fmt_08X_def set_map by (elim imageE) (simp only: hex_array_chars mod_less_divisor zero_less_numeral)

lemma fmt_08X_clean [simp]: "NUL \<notin> set (fmt_08X x)" "LF \<notin> set (fmt_08X x)" "SP \<notin> set (fmt_08X x)"
  using fmt_08X_chars hex_array_clean by blast+

lemma fmt_08X_inj: "fmt_08X x = fmt_08X y \<longleftrightarrow> x = y"
  using hex_to_uint32_fmt [of x "[]"] hex_to_uint32_fmt [of y "[]"] by (metis sum.inject(2))

subsection \<open>Decimal digits\<close>

definition is_digit :: "char \<Rightarrow> bool" where
  "is_digit c \<longleftrightarrow> 48 \<le> schar c \<and> schar c \<le> 57"

text \<open>The number a digit string denotes, read from its last digit.\<close>

fun dec_value :: "string \<Rightarrow> int" where
  "dec_value [] = 0"
| "dec_value (c # rs) = (schar c - 48) + 10 * dec_value rs"

lemma dec_value_bounds: "list_all is_digit rs \<Longrightarrow> 0 \<le> dec_value rs \<and> dec_value rs < 10 ^ length rs"
  by (induction rs) (auto simp: is_digit_def)

lemma digit_to_int_loop_eq:
  "list_all is_digit rs \<Longrightarrow> 0 \<le> acc \<Longrightarrow> acc < 10 ^ k \<Longrightarrow> k + length rs \<le> 9 \<Longrightarrow>
   digit_to_int_loop rs acc (10 ^ k) = Inr (acc + 10 ^ k * dec_value rs)"
proof (induction rs arbitrary: acc k)
  case (Cons c rs)
  define d where "d = schar c - 48"
  define P where "P = (10::int) ^ k"
  define D where "D = d * P"
  have d: "0 \<le> d" "d \<le> 9" using Cons.prems(1) by (auto simp: is_digit_def d_def)
  have P: "0 < P" "P * 10 \<le> 10 ^ 9"
    using power_increasing [of "Suc k" 9 "10::int"] Cons.prems(4) by (simp_all add: P_def)
  have acc: "0 \<le> acc" "acc < P" using Cons.prems by (simp_all add: P_def)
  have D: "0 \<le> D" "D \<le> 9 * P" using d P(1) by (simp_all add: D_def mult_right_mono)
  have ok: "cint D = Inr D" "cint (acc + D) = Inr (acc + D)" "cint (P * 10) = Inr (P * 10)"
    using D P acc by (auto simp: cint_def)
  have "digit_to_int_loop rs (acc + D) (10 ^ Suc k) = Inr (acc + D + 10 ^ Suc k * dec_value rs)"
    using Cons.prems D acc by (intro Cons.IH) (auto simp: P_def)
  moreover have "digit_to_int_loop (c # rs) acc P = digit_to_int_loop rs (acc + D) (P * 10)"
    using d ok by (simp add: Let_def D_def d_def)
  ultimately show ?case by (simp add: P_def D_def d_def algebra_simps)
qed simp

lemma digit_to_int_eq:
  assumes "list_all is_digit ds" "length ds \<le> 9"
  shows "digit_to_int ds = Inr (dec_value (rev ds))"
  using digit_to_int_loop_eq [of "rev ds" 0 0] assms by (simp add: digit_to_int_def)

text \<open>
  With ten digits the weight passes 2^31 before the loop ends, whatever the digits are.
\<close>

lemma digit_to_int_loop_ge10:
  "digit_to_int_loop rs acc (10 ^ k) = Inr n \<Longrightarrow> k + length rs \<le> 9 \<or> rs = []"
proof (induction rs arbitrary: acc k)
  case (Cons c rs)
  from Cons.prems obtain acc' where *: "cint (10 ^ k * 10) = Inr (10 ^ Suc k)"
    "digit_to_int_loop rs acc' (10 ^ Suc k) = Inr n"
    by (auto simp: Let_def res_iff cint_def mult.commute split: if_splits)
  have "k < 9"
  proof (rule ccontr)
    assume "\<not> k < 9"
    then have "(10::int) ^ 10 \<le> 10 ^ Suc k" by (intro power_increasing) auto
    then show False using *(1) by (auto simp: cint_def split: if_splits)
  qed
  with Cons.IH [OF *(2)] show ?case by auto
qed simp

lemma digit_to_int_too_long: "length ds \<ge> 10 \<Longrightarrow> digit_to_int ds \<noteq> Inr n"
  using digit_to_int_loop_ge10 [of "rev ds" 0 0] by (auto simp: digit_to_int_def)

lemma int_to_digit_loop_eq:
  assumes "0 \<le> q" "length buf = len" "i \<le> len"
  shows "\<exists>buf'. int_to_digit_loop [i..<len] len q buf = Inr buf' \<and> length buf' = len \<and>
     drop (len - i) buf' = drop (len - i) buf \<and> 
     list_all is_digit (take (len - i) buf') \<and>
     dec_value (rev (take (len - i) buf')) = q mod 10 ^ (len - i)"
  using assms
proof (induction "len - i" arbitrary: i q buf)
  case 0
  then show ?case by (auto intro!: exI[of _ buf])
next
  case (Suc m)
  let ?c = "char_of (q mod 10 + 48) :: char"
  let ?b = "buf[len - 1 - i := ?c]"
  have i: "i < len" "m = len - Suc i" using Suc.hyps(2) by auto
  have upt: "[i..<len] = i # [Suc i..<len]" using i by (simp add: upt_conv_Cons)
  have q: "q smod 10 = q mod 10" "q sdiv 10 = q div 10" using Suc.prems(1)
    by (simp_all add: signed_modulo_int_def signed_divide_int_def sgn_if)
  have "\<exists>buf'. int_to_digit_loop [Suc i..<len] len (q div 10) ?b = Inr buf' \<and> length buf' = len
     \<and> drop m buf' = drop m ?b \<and> list_all is_digit (take m buf')
     \<and> dec_value (rev (take m buf')) = q div 10 mod 10 ^ m"
    using Suc.hyps(1)[of "Suc i" "q div 10" ?b] Suc.prems i
    by (simp add: pos_imp_zdiv_nonneg_iff)
  then obtain buf' where b: "int_to_digit_loop [Suc i..<len] len (q div 10) ?b = Inr buf'" "length buf' = len"
     "drop m buf' = drop m ?b" "list_all is_digit (take m buf')"
     "dec_value (rev (take m buf')) = q div 10 mod 10 ^ m" by blast
  have c: "schar ?c = q mod 10 + 48" "is_digit ?c"
  proof -
    have "(of_char ?c :: int) = (q mod 10 + 48) mod 256" by simp
    also have "\<dots> = q mod 10 + 48" by (rule mod_pos_pos_trivial) auto
    finally show "schar ?c = q mod 10 + 48"
      using pos_mod_bound [of 10 q] by (simp add: schar_def Let_def del: pos_mod_bound)
    then show "is_digit ?c" by (auto simp: is_digit_def)
  qed
  have mc: "buf' ! m = ?c" 
  proof -
    have "buf' ! m = hd (drop m buf')" using b(2) i by (simp add: hd_drop_conv_nth)
    also have "\<dots> = ?b ! m" unfolding b(3) using Suc.prems i by (simp add: hd_drop_conv_nth)
    finally show ?thesis using Suc.prems i by simp
  qed
  have tk: "take (Suc m) buf' = take m buf' @ [?c]" using mc b(2) i by (simp add: take_Suc_conv_app_nth)
  have dr: "drop (Suc m) buf' = drop (Suc m) buf"
    using arg_cong [OF b(3), of "drop 1"] i by (simp add: drop_update_cancel)
  have "q mod 10 ^ Suc m = q mod 10 + 10 * (q div 10 mod 10 ^ m)"
    by (simp add: zmod_zmult2_eq)
  then have v: "dec_value (rev (take (Suc m) buf')) = q mod 10 ^ Suc m"
    unfolding tk by (simp add: c(1) b(5))
  have li: "len - i = Suc m" using Suc.hyps(2) by simp
  have "int_to_digit_loop [i..<len] len q buf = Inr buf'"
    using b(1) i Suc.prems by (simp add: upt q buf_set_def Let_def)
  then show ?case
    unfolding li using b(2,4) dr tk c(2) v by (intro exI [of _ buf']) simp
qed

lemma int_to_digit_eq:
  assumes "0 \<le> n" "n < 10 ^ length buf"
  shows "\<exists>ds. int_to_digit (length buf) n buf = Inr ds \<and> length ds = length buf \<and> list_all is_digit ds
    \<and> dec_value (rev ds) = n"
  using int_to_digit_loop_eq [of n buf "length buf" 0] assms by (auto simp: int_to_digit_def)

subsection \<open>The hash\<close>

lemma djb2_loop_append: "djb2_loop (s @ t) h = djb2_loop t (djb2_loop s h)"
  by (induction s arbitrary: h) auto

lemma djb2_step: "djb2 (s @ [c]) = 33 * djb2 s + word_of_int (schar c)"
  by (simp add: djb2_def djb2_loop_append push_bit_eq_mult algebra_simps)

section \<open>Properties\<close>

text \<open>
  Numbers in the log and in \<open>tx_id.kvdb\<close>: for every 32-bit value the printing loop of
  \<open>uint32_to_hex\<close> writes the eight upper-case digits \<open>printf\<close>'s \<open>%08X\<close> gives, touches nothing
  behind them, and the reading loop of \<open>hex_to_uint32\<close> gives the value back.
\<close>

theorem uint32_hex_roundtrip:
  "8 \<le> length hex \<Longrightarrow>
     uint32_to_hex x hex = Inr (fmt_08X x @ drop 8 hex) \<and>
     bind_res (uint32_to_hex x hex) hex_to_uint32 = Inr x"
  by (simp add: uint32_to_hex_eq hex_to_uint32_fmt)

theorem uint32_hex_roundtrip_witness:
  "bind_res (uint32_to_hex 0xDEADBEEF (replicate 8 NUL)) hex_to_uint32 = Inr 0xDEADBEEF"
  using uint32_hex_roundtrip [of "replicate 8 NUL" "0xDEADBEEF", THEN conjunct2] length_replicate [of 8 NUL]
  by (metis order.refl)

text \<open>
  C39. Lengths in the log: \<open>from_2_digit_hex\<close> shifts by bits where it means digits, so a length
  written by \<open>size_t_to_2_digit_hex\<close> is read back exactly when it is below 16, and a longer one
  is read as a smaller number.
\<close>

theorem two_digit_hex_roundtrip_iff:
  "n < 256 \<Longrightarrow>
     (bind_res (size_t_to_2_digit_hex (of_nat n) [NUL, NUL]) from_2_digit_hex = Inr (of_nat n) \<longleftrightarrow> n < 16) \<and>
     (16 \<le> n \<longrightarrow> (\<exists>m < n. bind_res (size_t_to_2_digit_hex (of_nat n) [NUL, NUL]) from_2_digit_hex
        = Inr (of_nat m)))"
proof -
  assume n: "n < 256"
  let ?m = "2 * (n div 16) + n mod 16"
  have eq: "n = 16 * (n div 16) + n mod 16" by simp
  have m: "?m < 2 ^ 64" using n by auto
  have "(of_nat ?m :: u64) = of_nat n \<longleftrightarrow> ?m = n"
    using m n by (simp add: word_of_nat_eq_iff take_bit_nat_eq_self del: of_nat_add of_nat_mult)
  also have "\<dots> \<longleftrightarrow> n div 16 = 0" using eq by linarith
  also have "\<dots> \<longleftrightarrow> n < 16" by (simp add: div_eq_0_iff)
  finally have iff: "(of_nat ?m :: u64) = of_nat n \<longleftrightarrow> n < 16" .
  have less: "?m < n" if "16 \<le> n"
  proof -
    have "n div 16 \<noteq> 0" using that by (simp add: div_eq_0_iff)
    then show ?thesis using eq by linarith
  qed
  show ?thesis
    using iff less two_digit_hex_decode [of "[NUL, NUL]" n, OF _ n] by (auto simp del: of_nat_add of_nat_mult)
qed

theorem two_digit_hex_roundtrip_iff_witness:
  "bind_res (size_t_to_2_digit_hex (of_nat 15) [NUL, NUL]) from_2_digit_hex = Inr (of_nat 15) \<and>
   bind_res (size_t_to_2_digit_hex (of_nat 16) [NUL, NUL]) from_2_digit_hex \<noteq> Inr (of_nat 16)"
  using two_digit_hex_roundtrip_iff [of 15] two_digit_hex_roundtrip_iff [of 16] by simp

text \<open>
  The decimal conversions of \<open>utils.c\<close>: writing a number that fits the field and reading the
  field gives the number back, for fields of up to nine digits; with ten digits or more the
  weight of \<open>digit_to_int\<close> overflows and no result is defined, whatever the digits are.
\<close>

theorem decimal_roundtrip:
  "0 \<le> n \<and> n < 10 ^ length buf \<longrightarrow>
     (\<exists>ds. int_to_digit (length buf) n buf = Inr ds \<and> length ds = length buf \<and>
        (if length buf \<le> 9 then digit_to_int ds = Inr n else \<forall>m. digit_to_int ds \<noteq> Inr m))"
proof
  assume "0 \<le> n \<and> n < 10 ^ length buf"
  then obtain ds where "int_to_digit (length buf) n buf = Inr ds" "length ds = length buf"
    "list_all is_digit ds" "dec_value (rev ds) = n" using int_to_digit_eq [of n buf] by auto
  then show "\<exists>ds. int_to_digit (length buf) n buf = Inr ds \<and> length ds = length buf \<and>
        (if length buf \<le> 9 then digit_to_int ds = Inr n else \<forall>m. digit_to_int ds \<noteq> Inr m)"
    using digit_to_int_eq [of ds] digit_to_int_too_long [of ds] by (intro exI [of _ ds]) simp
qed

theorem decimal_roundtrip_witness:
  "\<exists>ds. int_to_digit 4 1234 ''....'' = Inr ds \<and> digit_to_int ds = Inr 1234"
  using decimal_roundtrip [of 1234 "''....''"] by (auto simp: numeral_eq_Suc)

end
