(* ===== verification/Kv_Key.thy ===== *)
theory Kv_Key
  imports Kv_Hash Utils
begin

text \<open>
  The two functions of \<open>kv_command.c\<close> that the hash table is created with.  A
  \<open>struct key_data\<close> or \<open>struct val_data\<close>, a pointer with a length, is the string of the
  bytes it points to.
\<close>

type_synonym key_data = string
type_synonym val_data = string

definition str_hash_func :: "key_data \<Rightarrow> u64" where
  "str_hash_func key = djb2 key"

text \<open>
  The loop compares the common prefix as signed characters; after it only the lengths
  decide, the shorter key counting as the greater one.
\<close>

fun str_cmp_func :: "key_data \<Rightarrow> key_data \<Rightarrow> int" where
  "str_cmp_func (a # key1) (b # key2) =
     (if schar a < schar b then -1
      else if schar a > schar b then 1
      else str_cmp_func key1 key2)"
| "str_cmp_func key1 key2 =
     (if length key1 = length key2 then 0
      else if length key1 < length key2 then 1
      else -1)"

type_synonym kv_table = "(key_data, val_data) kv_ht"

lemma str_cmp_func_0_iff: "str_cmp_func key1 key2 = 0 \<longleftrightarrow> key1 = key2"
proof (induction key1 key2 rule: str_cmp_func.induct)
  case (1 a key1 b key2)
  then show ?case using schar_inj [of a b] by auto
qed auto

lemma str_cmp_func_range: "str_cmp_func key1 key2 \<in> {-1, 0, 1}"
  by (induction key1 key2 rule: str_cmp_func.induct) auto

lemma str_cmp_func_swap: "str_cmp_func key2 key1 = - str_cmp_func key1 key2"
  by (induction key1 key2 rule: str_cmp_func.induct) auto

lemma cmp_ok_str_cmp_func [simp]: "cmp_ok str_cmp_func"
  by (simp add: cmp_ok_def str_cmp_func_0_iff)

end
