(* ===== verification/Kv_Log.thy ===== *)
theory Kv_Log
  imports Utils
begin

text \<open>
  The write-ahead log of \<open>kv_recovery.c\<close>: the functions that append one line to
  \<open>recovery.kvdb\<close>, and \<open>kv_recovery_get_log\<close>, which opens the file and searches it from the
  start for a log sequence number.  The state is the text of the file and the last number
  given out; an append runs under \<open>lsn_lock\<close> and is one atomic step.

  Second half: an abstract log, a list of records, with the text each record has
  (\<open>line_text\<close>).  Every writing function appends the text of one record with the next
  number, and reading back a log of well-formed records is a search in that list.
\<close>

section \<open>Definitions\<close>

subsection \<open>Data\<close>

datatype kv_recovery_log_type =
    KV_REC_BEGIN
  | KV_REC_COMMIT
  | KV_REC_UPDATE
  | KV_REC_ABORT
  | KV_REC_CLR
  | KV_REC_CHECK
  | KV_REC_END

text \<open>
  \<open>struct kv_recovery_tx\<close>; \<open>struct kv_ongoing_tx\<close> of \<open>tx_manager.h\<close> has the same two
  fields.
\<close>

record kv_recovery_tx =
  rtx_id :: u32
  rtx_last_lsn :: u32

text \<open>
  A pointer with its length is the string of the bytes; \<open>log_tx_list\<close> is \<open>None\<close> for the
  null pointer.
\<close>

record kv_recovery_log_line =
  log_lsn :: u32
  log_prev_lsn :: u32
  log_tx_id :: u32
  log_type :: kv_recovery_log_type
  log_undo_next_lsn :: u32
  log_key :: string
  log_old_val :: string
  log_new_val :: string
  log_tx_list :: "kv_recovery_tx list option"

record kv_rec =
  recovery_file :: string
  rec_lsn :: u32

abbreviation "BEGIN_TYPE \<equiv> ''BEGIN__''"
abbreviation "COMMIT_TYPE \<equiv> ''COMMIT_''"
abbreviation "UPDATE_TYPE \<equiv> ''UPDATE_''"
abbreviation "ABORT_TYPE \<equiv> ''ABORT__''"
abbreviation "CLR_TYPE \<equiv> ''CLR____''"
abbreviation "CHECK_TYPE \<equiv> ''CHECK__''"
abbreviation "END_TYPE \<equiv> ''END____''"

abbreviation KV_RECOVERY_MAX_LINE_LEN :: nat where "KV_RECOVERY_MAX_LINE_LEN \<equiv> 128"

subsection \<open>Standard input and output\<close>

text \<open>
  \<open>snprintf (buf, n, ...)\<close> keeps at most \<open>n - 1\<close> characters; \<open>fputs\<close> writes up to the
  terminating zero; \<open>fgets (buf, n, f)\<close> takes at most \<open>n - 1\<close> characters and stops behind a
  newline.
\<close>

definition snprintf :: "nat \<Rightarrow> string \<Rightarrow> string" where
  "snprintf n s = take (n - 1) s"

definition fputs :: "string \<Rightarrow> kv_rec \<Rightarrow> kv_rec" where
  "fputs line st = st\<lparr>recovery_file := recovery_file st @ cstr line\<rparr>"

fun fgets_take :: "nat \<Rightarrow> string \<Rightarrow> string \<times> string" where
  "fgets_take 0 s = ([], s)"
| "fgets_take (Suc n) [] = ([], [])"
| "fgets_take (Suc n) (c # s) =
     (if c = LF then ([c], s) else (let (t, s') = fgets_take n s in (c # t, s')))"

definition fgets :: "nat \<Rightarrow> string \<Rightarrow> (string \<times> string) option" where
  "fgets n s = (if s = [] then None else Some (fgets_take (n - 1) s))"

subsection \<open>Writing\<close>

text \<open>The text of the four record types without payload.\<close>

definition short_line :: "u32 \<Rightarrow> u32 \<Rightarrow> u32 \<Rightarrow> string \<Rightarrow> string" where
  "short_line new_lsn prev_id tx_id typ =
     fmt_08X new_lsn @ '' '' @ fmt_08X prev_id @ '' T'' @ fmt_08X tx_id @ '' '' @ typ @ [LF]"

definition kv_recovery_begin_log :: "u32 \<Rightarrow> u32 \<Rightarrow> kv_rec \<Rightarrow> u32 \<times> kv_rec" where
  "kv_recovery_begin_log prev_id tx_id st =
     (let new_lsn = rec_lsn st + 1;
          line = snprintf KV_RECOVERY_MAX_LINE_LEN (short_line new_lsn prev_id tx_id BEGIN_TYPE)
      in (new_lsn, fputs line (st\<lparr>rec_lsn := new_lsn\<rparr>)))"

definition kv_recovery_commit_log :: "u32 \<Rightarrow> u32 \<Rightarrow> kv_rec \<Rightarrow> u32 \<times> kv_rec" where
  "kv_recovery_commit_log prev_id tx_id st =
     (let new_lsn = rec_lsn st + 1;
          line = snprintf KV_RECOVERY_MAX_LINE_LEN (short_line new_lsn prev_id tx_id COMMIT_TYPE)
      in (new_lsn, fputs line (st\<lparr>rec_lsn := new_lsn\<rparr>)))"

definition kv_recovery_abort_log :: "u32 \<Rightarrow> u32 \<Rightarrow> kv_rec \<Rightarrow> u32 \<times> kv_rec" where
  "kv_recovery_abort_log prev_id tx_id st =
     (let new_lsn = rec_lsn st + 1;
          line = snprintf KV_RECOVERY_MAX_LINE_LEN (short_line new_lsn prev_id tx_id ABORT_TYPE)
      in (new_lsn, fputs line (st\<lparr>rec_lsn := new_lsn\<rparr>)))"

definition kv_recovery_end_log :: "u32 \<Rightarrow> u32 \<Rightarrow> kv_rec \<Rightarrow> u32 \<times> kv_rec" where
  "kv_recovery_end_log prev_id tx_id st =
     (let new_lsn = rec_lsn st + 1;
          line = snprintf KV_RECOVERY_MAX_LINE_LEN (short_line new_lsn prev_id tx_id END_TYPE)
      in (new_lsn, fputs line (st\<lparr>rec_lsn := new_lsn\<rparr>)))"

text \<open>
  \<open>data_change_log\<close> fills a 128 byte array with \<open>memcpy\<close> and no check; a line that does not
  fit, with its terminating zero, runs over it.
\<close>

definition data_change_log ::
  "u32 \<Rightarrow> u32 \<Rightarrow> string \<Rightarrow> string \<Rightarrow> string \<Rightarrow> bool \<Rightarrow> u32 \<Rightarrow> kv_rec \<Rightarrow> (u32 \<times> kv_rec) res" where
  "data_change_log prev_id tx_id key old_val new_val is_clr undo_next_lsn st =
     bind_res (uint32_to_hex prev_id (replicate 8 NUL)) (\<lambda>prev_hex.
     bind_res (uint32_to_hex tx_id (replicate 8 NUL)) (\<lambda>tx_hex.
     bind_res (uint32_to_hex undo_next_lsn (replicate 8 NUL)) (\<lambda>undo_hex.
     bind_res (size_t_to_2_digit_hex (of_nat (length key)) (replicate 2 NUL)) (\<lambda>key_hex.
     bind_res (size_t_to_2_digit_hex (of_nat (length old_val)) (replicate 2 NUL)) (\<lambda>old_hex.
     bind_res (size_t_to_2_digit_hex (of_nat (length new_val)) (replicate 2 NUL)) (\<lambda>new_hex.
     let new_lsn = rec_lsn st + 1 in
     bind_res (uint32_to_hex new_lsn (replicate 8 NUL)) (\<lambda>lsn_hex.
     let line = lsn_hex @ '' '' @ prev_hex @ '' '' @ ''T'' @ tx_hex @ '' ''
           @ (if is_clr then CLR_TYPE else UPDATE_TYPE) @ '' ''
           @ (if is_clr then undo_hex @ '' '' else [])
           @ key_hex @ '' '' @ old_hex @ '' '' @ new_hex @ '' ''
           @ key @ '' '' @ old_val @ '' '' @ new_val @ [LF] @ [NUL]
     in if length line \<le> KV_RECOVERY_MAX_LINE_LEN
        then Inr (new_lsn, fputs line (st\<lparr>rec_lsn := new_lsn\<rparr>))
        else Inl Out_Of_Bounds)))))))"

definition kv_recovery_update_log ::
  "u32 \<Rightarrow> u32 \<Rightarrow> string \<Rightarrow> string \<Rightarrow> string \<Rightarrow> kv_rec \<Rightarrow> (u32 \<times> kv_rec) res" where
  "kv_recovery_update_log prev_id tx_id key old_val new_val st =
     data_change_log prev_id tx_id key old_val new_val False 0 st"

definition kv_recovery_clr_log ::
  "u32 \<Rightarrow> u32 \<Rightarrow> u32 \<Rightarrow> string \<Rightarrow> string \<Rightarrow> string \<Rightarrow> kv_rec \<Rightarrow> (u32 \<times> kv_rec) res" where
  "kv_recovery_clr_log prev_id tx_id undo_next_lsn key cur_val prev_val st =
     data_change_log prev_id tx_id key cur_val prev_val True undo_next_lsn st"

text \<open>
  \<open>kv_recovery_check_log\<close>: the transaction list is written to a heap block of
  \<open>3 + 19 n - 1\<close> bytes at computed offsets, then copied behind the fixed part of the line.
\<close>

fun check_tx_loop ::
  "nat list \<Rightarrow> nat \<Rightarrow> kv_recovery_tx list \<Rightarrow> string \<Rightarrow> string res" where
  "check_tx_loop [] list_size tx_list tx_id_line = Inr tx_id_line"
| "check_tx_loop (i # ks) list_size tx_list tx_id_line =
     bind_res (uint32_to_hex (rtx_id (tx_list ! i)) (replicate 8 NUL)) (\<lambda>tx_id_hex.
     bind_res (uint32_to_hex (rtx_last_lsn (tx_list ! i)) (replicate 8 NUL)) (\<lambda>lsn_hex.
     bind_res (buf_write tx_id_line (3 + i * 19) ''T'') (\<lambda>tx_id_line.
     bind_res (buf_write tx_id_line (3 + i * 19 + 1) tx_id_hex) (\<lambda>tx_id_line.
     bind_res (buf_write tx_id_line (3 + i * 19 + 9) '' '') (\<lambda>tx_id_line.
     bind_res (buf_write tx_id_line (3 + i * 19 + 10) lsn_hex) (\<lambda>tx_id_line.
     bind_res (if i < list_size - 1 then buf_write tx_id_line (i * 19 + 21) '' ''
               else Inr tx_id_line) (\<lambda>tx_id_line.
     check_tx_loop ks list_size tx_list tx_id_line)))))))"

definition kv_recovery_check_log :: "kv_recovery_tx list \<Rightarrow> kv_rec \<Rightarrow> (u32 \<times> kv_rec) res" where
  "kv_recovery_check_log tx_list st =
     (let list_size = length tx_list; new_lsn = rec_lsn st + 1 in
      if list_size = 0 then
        (let line = snprintf KV_RECOVERY_MAX_LINE_LEN
               (fmt_08X new_lsn @ '' 00000000 T00000000 '' @ CHECK_TYPE @ '' 00'' @ [LF])
         in Inr (new_lsn, fputs line (st\<lparr>rec_lsn := new_lsn\<rparr>)))
      else
        bind_res (size_t_to_2_digit_hex (of_nat list_size) (replicate 2 NUL)) (\<lambda>size_t_hex.
        bind_res (buf_write (replicate (3 + 19 * list_size - 1) NUL) 0 size_t_hex) (\<lambda>tx_id_line.
        bind_res (buf_write tx_id_line 2 '' '') (\<lambda>tx_id_line.
        bind_res (check_tx_loop [0..<list_size] list_size tx_list tx_id_line) (\<lambda>tx_id_line.
        let line = snprintf KV_RECOVERY_MAX_LINE_LEN
               (fmt_08X new_lsn @ '' 00000000 T00000000 '' @ CHECK_TYPE)
             @ '' '' @ tx_id_line @ [LF] @ [NUL]
        in if length line \<le> KV_RECOVERY_MAX_LINE_LEN
           then Inr (new_lsn, fputs line (st\<lparr>rec_lsn := new_lsn\<rparr>))
           else Inl Out_Of_Bounds)))))"

subsection \<open>Reading\<close>

text \<open>
  The array \<open>line\<close> is the list of its bytes written so far; a chunk of \<open>fgets\<close> overwrites
  its beginning, and what older, longer chunks left behind stays.
\<close>

definition fgets_into :: "string \<Rightarrow> string \<Rightarrow> string" where
  "fgets_into chunk line = chunk @ [NUL] @ drop (length chunk + 1) line"

lemma fgets_take_length: "length (fst (fgets_take n s)) + length (snd (fgets_take n s)) = length s"
  by (induction n s rule: fgets_take.induct) (auto split: prod.split)

lemma fgets_shorter [termination_simp]:
  "fgets n s = Some (chunk, rest) \<Longrightarrow> 1 < n \<Longrightarrow> length rest < length s"
proof -
  assume a: "fgets n s = Some (chunk, rest)" "1 < n"
  then obtain c s' m where s: "s = c # s'" "n - 1 = Suc m" "(chunk, rest) = fgets_take (Suc m) s"
    by (cases s; cases "n - 1") (auto simp: fgets_def)
  have "length (snd (fgets_take m s')) \<le> length s'"
    using fgets_take_length [of m s'] by simp
  with s show "length rest < length s"
    by (auto split: if_splits prod.splits)
qed

function get_log_scan :: "u32 \<Rightarrow> u32 \<Rightarrow> string \<Rightarrow> string \<Rightarrow> (u32 \<times> string) res" where
  "get_log_scan lsn line_lsn line stream =
     (case fgets KV_RECOVERY_MAX_LINE_LEN stream of
        None \<Rightarrow> Inr (line_lsn, line)
      | Some (chunk, rest) \<Rightarrow>
          bind_res (buf_read (fgets_into chunk line) 0 8) (\<lambda>lsn_hex.
          bind_res (hex_to_uint32 lsn_hex) (\<lambda>line_lsn'.
          if line_lsn' = lsn then Inr (line_lsn', fgets_into chunk line)
          else get_log_scan lsn line_lsn' (fgets_into chunk line) rest)))"
  by pat_completeness auto
termination
  by (relation "measure (\<lambda>(_, _, _, stream). length stream)") (auto simp: fgets_shorter)

declare get_log_scan.simps [simp del]

text \<open>The type is decided by its first letter, \<open>C\<close> by its second.\<close>

definition decode_log_type :: "string \<Rightarrow> kv_recovery_log_type" where
  "decode_log_type log_type_char =
     (if log_type_char ! 0 = CHR ''B'' then KV_REC_BEGIN
      else if log_type_char ! 0 = CHR ''C'' then
        (if log_type_char ! 1 = CHR ''O'' then KV_REC_COMMIT
         else if log_type_char ! 1 = CHR ''L'' then KV_REC_CLR
         else KV_REC_CHECK)
      else if log_type_char ! 0 = CHR ''U'' then KV_REC_UPDATE
      else if log_type_char ! 0 = CHR ''A'' then KV_REC_ABORT
      else KV_REC_END)"

text \<open>
  The list of a checkpoint: the block has room for \<open>sizeof (tx_count) = 8\<close> entries of
  8 bytes.
\<close>

fun read_tx_list :: "nat list \<Rightarrow> string \<Rightarrow> nat \<Rightarrow> kv_recovery_tx list res" where
  "read_tx_list [] line pos = Inr []"
| "read_tx_list (i # ks) line pos =
     (if i \<ge> 8 then Inl Out_Of_Bounds else
      bind_res (buf_read line (pos + 1) 8) (\<lambda>tx_hex.
      bind_res (hex_to_uint32 tx_hex) (\<lambda>tx_id.
      bind_res (buf_read line (pos + 10) 8) (\<lambda>lsn_hex.
      bind_res (hex_to_uint32 lsn_hex) (\<lambda>last_lsn.
      map_res (\<lambda>txs. \<lparr>rtx_id = tx_id, rtx_last_lsn = last_lsn\<rparr> # txs)
        (read_tx_list ks line (pos + 19)))))))"

text \<open>The rest of \<open>kv_recovery_get_log\<close>, from the line found.\<close>

definition parse_log_line :: "u32 \<Rightarrow> string \<Rightarrow> kv_recovery_log_line res" where
  "parse_log_line lsn line =
     bind_res (buf_read line 9 8) (\<lambda>lsn_hex.
     bind_res (hex_to_uint32 lsn_hex) (\<lambda>prev_lsn.
     bind_res (buf_read line 19 8) (\<lambda>lsn_hex.
     bind_res (hex_to_uint32 lsn_hex) (\<lambda>tx_id.
     bind_res (buf_read line 28 7) (\<lambda>log_type_char.
     let typ = decode_log_type log_type_char in
     bind_res (if typ = KV_REC_CLR
               then bind_res (buf_read line 36 8) (\<lambda>lsn_hex.
                    bind_res (hex_to_uint32 lsn_hex) (\<lambda>undo. Inr (45, undo)))
               else Inr (36, 0)) (\<lambda>(pos, undo_next_lsn).
     if typ = KV_REC_UPDATE \<or> typ = KV_REC_CLR then
       bind_res (buf_read line pos 2) (\<lambda>len_hex.
       bind_res (from_2_digit_hex len_hex) (\<lambda>key_len.
       bind_res (buf_read line (pos + 3) 2) (\<lambda>len_hex.
       bind_res (from_2_digit_hex len_hex) (\<lambda>old_len.
       bind_res (buf_read line (pos + 6) 2) (\<lambda>len_hex.
       bind_res (from_2_digit_hex len_hex) (\<lambda>new_len.
       bind_res (buf_read line (pos + 9) (unat key_len)) (\<lambda>key.
       bind_res (buf_read line (pos + 9 + (unat key_len + 1)) (unat old_len)) (\<lambda>old_val.
       bind_res (buf_read line (pos + 9 + (unat key_len + 1) + (unat old_len + 1)) (unat new_len))
         (\<lambda>new_val.
       Inr \<lparr>log_lsn = lsn, log_prev_lsn = prev_lsn, log_tx_id = tx_id, log_type = typ,
            log_undo_next_lsn = undo_next_lsn, log_key = key, log_old_val = old_val,
            log_new_val = new_val, log_tx_list = None\<rparr>)))))))))
     else if typ = KV_REC_CHECK then
       bind_res (buf_read line pos 2) (\<lambda>len_hex.
       bind_res (from_2_digit_hex len_hex) (\<lambda>tx_count.
       bind_res (read_tx_list [0..<unat tx_count] line (pos + 3)) (\<lambda>tx_list.
       Inr \<lparr>log_lsn = lsn, log_prev_lsn = prev_lsn, log_tx_id = tx_id, log_type = typ,
            log_undo_next_lsn = undo_next_lsn, log_key = [], log_old_val = [],
            log_new_val = [], log_tx_list = Some tx_list\<rparr>)))
     else
       Inr \<lparr>log_lsn = lsn, log_prev_lsn = prev_lsn, log_tx_id = tx_id, log_type = typ,
            log_undo_next_lsn = undo_next_lsn, log_key = [], log_old_val = [],
            log_new_val = [], log_tx_list = None\<rparr>))))))"

text \<open>\<open>None\<close> is the null pointer: no line has the number.\<close>

definition kv_recovery_get_log :: "u32 \<Rightarrow> string \<Rightarrow> kv_recovery_log_line option res" where
  "kv_recovery_get_log lsn file =
     bind_res (get_log_scan lsn 0 [] file) (\<lambda>(line_lsn, line).
     if line_lsn \<noteq> lsn then Inr None
     else map_res Some (parse_log_line lsn line))"

section \<open>The log as a list of records\<close>

definition type_text :: "kv_recovery_log_type \<Rightarrow> string" where
  "type_text t = (case t of
     KV_REC_BEGIN \<Rightarrow> BEGIN_TYPE | KV_REC_COMMIT \<Rightarrow> COMMIT_TYPE | KV_REC_UPDATE \<Rightarrow> UPDATE_TYPE
   | KV_REC_ABORT \<Rightarrow> ABORT_TYPE | KV_REC_CLR \<Rightarrow> CLR_TYPE | KV_REC_CHECK \<Rightarrow> CHECK_TYPE
   | KV_REC_END \<Rightarrow> END_TYPE)"

definition hex2 :: "nat \<Rightarrow> string" where
  "hex2 n = [hex_array ! (n div 16 mod 16), hex_array ! (n mod 16)]"

definition data_text :: "kv_recovery_log_line \<Rightarrow> string" where
  "data_text r = hex2 (length (log_key r)) @ '' '' @ hex2 (length (log_old_val r)) @ '' ''
     @ hex2 (length (log_new_val r)) @ '' '' @ log_key r @ '' '' @ log_old_val r @ '' ''
     @ log_new_val r"

definition tx_text :: "kv_recovery_tx \<Rightarrow> string" where
  "tx_text t = '' T'' @ fmt_08X (rtx_id t) @ '' '' @ fmt_08X (rtx_last_lsn t)"

definition payload_text :: "kv_recovery_log_line \<Rightarrow> string" where
  "payload_text r = (case log_type r of
     KV_REC_UPDATE \<Rightarrow> '' '' @ data_text r
   | KV_REC_CLR \<Rightarrow> '' '' @ fmt_08X (log_undo_next_lsn r) @ '' '' @ data_text r
   | KV_REC_CHECK \<Rightarrow> '' '' @ hex2 (length (the (log_tx_list r)))
                    @ concat (map tx_text (the (log_tx_list r)))
   | _ \<Rightarrow> [])"

definition body_text :: "kv_recovery_log_line \<Rightarrow> string" where
  "body_text r = fmt_08X (log_lsn r) @ '' '' @ fmt_08X (log_prev_lsn r) @ '' T''
     @ fmt_08X (log_tx_id r) @ '' '' @ type_text (log_type r) @ payload_text r"

definition line_text :: "kv_recovery_log_line \<Rightarrow> string" where
  "line_text r = body_text r @ [LF]"

definition log_text :: "kv_recovery_log_line list \<Rightarrow> string" where
  "log_text rs = concat (map line_text rs)"

text \<open>
  What can be written and read back: keys and values of at most 15 bytes (the length
  fields are misread from 16 on) without zero and newline, at most four transactions in a
  checkpoint, and no field the type does not have.
\<close>

definition small_str :: "string \<Rightarrow> bool" where
  "small_str s \<longleftrightarrow> length s < 16 \<and> NUL \<notin> set s \<and> LF \<notin> set s"

definition line_ok :: "kv_recovery_log_line \<Rightarrow> bool" where
  "line_ok r \<longleftrightarrow>
     (if log_type r = KV_REC_UPDATE \<or> log_type r = KV_REC_CLR then
        small_str (log_key r) \<and> small_str (log_old_val r) \<and> small_str (log_new_val r)
        \<and> log_tx_list r = None
        \<and> (log_type r = KV_REC_UPDATE \<longrightarrow> log_undo_next_lsn r = 0)
      else
        log_key r = [] \<and> log_old_val r = [] \<and> log_new_val r = [] \<and> log_undo_next_lsn r = 0
        \<and> (if log_type r = KV_REC_CHECK
           then (\<exists>txs. log_tx_list r = Some txs \<and> length txs \<le> 4)
           else log_tx_list r = None))"

text \<open>The abstraction: file and counter against the record list, numbered from 1.\<close>

definition log_rep :: "kv_rec \<Rightarrow> kv_recovery_log_line list \<Rightarrow> bool" where
  "log_rep st rs \<longleftrightarrow> recovery_file st = log_text rs \<and> rec_lsn st = of_nat (length rs)
     \<and> (\<forall>r \<in> set rs. line_ok r) \<and> length rs < 2 ^ 32
     \<and> (\<forall>i < length rs. log_lsn (rs ! i) = of_nat (i + 1))"

section \<open>Lemmas\<close>

subsection \<open>Reading a line back\<close>

text \<open>
Reading at an offset that is written as a sum of lengths walks over the pieces of the line.
\<close>

lemma length_hex2 [simp]: "length (hex2 n) = 2"
  by (simp add: hex2_def)

lemma hex2_clean [simp]: "NUL \<notin> set (hex2 n)" "LF \<notin> set (hex2 n)"
  using hex_array_clean hex_array_chars [of "n div 16 mod 16"] hex_array_chars [of "n mod 16"]
  by (auto simp: hex2_def)

lemma from_2_digit_hex_hex2: "n < 16 \<Longrightarrow> from_2_digit_hex (hex2 n) = Inr (of_nat n)"
  using from_2_digit_hex_eq [of 0 n "[]"] by (simp add: hex2_def)

lemma type_text_simps [simp]:
  "length (type_text t) = 7" "NUL \<notin> set (type_text t)" "LF \<notin> set (type_text t)"
  "decode_log_type (type_text t) = t"
  by (auto simp: type_text_def decode_log_type_def split: kv_recovery_log_type.split)

lemma buf_read_at [simp]:
  "pos = length a \<Longrightarrow> n = length b \<Longrightarrow> buf_read (a @ b @ c) pos n = Inr b"
  by (simp add: buf_read_def)

lemma hex_to_uint32_fmt' [simp]: "hex_to_uint32 (fmt_08X x) = Inr x"
  using hex_to_uint32_fmt [of x "[]"] by simp

lemma buf_read_skip:
  "length a \<le> pos \<Longrightarrow> buf_read (a @ b) pos n = buf_read b (pos - length a) n"
  by (auto simp: buf_read_def)

lemma buf_read_here: "n = length a \<Longrightarrow> buf_read (a @ b) 0 n = Inr a"
  by (simp add: buf_read_def)

lemma buf_read_Cons: "0 < pos \<Longrightarrow> buf_read (c # b) pos n = buf_read b (pos - 1) n"
  by (cases pos) (simp_all add: buf_read_def)

lemmas buf_read_eval = buf_read_skip buf_read_here buf_read_Cons

lemma parse_data:
  assumes r: "log_type r = KV_REC_UPDATE \<or> log_type r = KV_REC_CLR" and "line_ok r"
  shows "parse_log_line (log_lsn r) (line_text r @ junk) = Inr r"
proof -
  have ok: "length (log_key r) < 16" "length (log_old_val r) < 16" "length (log_new_val r) < 16"
    "log_tx_list r = None" "log_type r = KV_REC_UPDATE \<longrightarrow> log_undo_next_lsn r = 0"
    using assms by (auto simp: line_ok_def small_str_def)
  note len = from_2_digit_hex_hex2 [OF ok(1)] from_2_digit_hex_hex2 [OF ok(2)] from_2_digit_hex_hex2 [OF ok(3)]
  have un: "unat (word_of_nat n :: u64) = n" if "n < 16" for n using that by (simp add: unat_of_nat)
  show ?thesis using r
    by (elim disjE) (simp_all add: parse_log_line_def line_text_def body_text_def payload_text_def data_text_def buf_read_eval len un ok)
qed

lemma length_tx_text [simp]: "length (tx_text t) = 19"
  by (simp add: tx_text_def)

lemma read_tx_list_text:
  "pos = Suc (length pre) \<Longrightarrow> i + length txs \<le> 8 \<Longrightarrow>
   read_tx_list [i..<i + length txs] (pre @ concat (map tx_text txs) @ post) pos = Inr txs"
proof (induction txs arbitrary: i pre pos)
  case (Cons t txs)
  have upt: "[i..<i + length (t # txs)] = i # [Suc i..<Suc i + length txs]"
    by (simp add: upt_conv_Cons del: upt_Suc)
  have "read_tx_list [Suc i..<Suc i + length txs] ((pre @ tx_text t) @ concat (map tx_text txs) @ post) (pos + 19)
     = Inr txs"
    using Cons.prems by (intro Cons.IH) auto
  then show ?case
    unfolding upt using Cons.prems by (simp add: tx_text_def [of t] buf_read_eval del: upt_Suc)
qed simp

lemma parse_check:
  assumes r: "log_type r = KV_REC_CHECK" and "line_ok r"
  shows "parse_log_line (log_lsn r) (line_text r @ junk) = Inr r"
proof -
  obtain txs where ok: "log_tx_list r = Some txs" "length txs \<le> 4"
    "log_key r = []" "log_old_val r = []" "log_new_val r = []" "log_undo_next_lsn r = 0"
    using assms by (auto simp: line_ok_def)
  define pre where "pre = fmt_08X (log_lsn r) @ '' '' @ fmt_08X (log_prev_lsn r) @ '' T''
     @ fmt_08X (log_tx_id r) @ '' '' @ type_text (log_type r) @ '' '' @ hex2 (length txs)"
  have line: "line_text r = pre @ concat (map tx_text txs) @ [LF]"
    by (simp add: line_text_def body_text_def payload_text_def pre_def r ok(1))
  have txs: "read_tx_list [0..<length txs] (line_text r @ junk) 39 = Inr txs"
    using read_tx_list_text [of 39 pre 0 txs "LF # junk"] ok(2) by (simp add: line pre_def)
  have "unat (word_of_nat (length txs) :: u64) = length txs"
    "from_2_digit_hex (hex2 (length txs)) = Inr (of_nat (length txs))"
    using ok(2) by (simp_all add: unat_of_nat from_2_digit_hex_hex2)
  then show ?thesis
    using txs r ok unfolding line
    by (simp add: parse_log_line_def pre_def buf_read_eval)
qed

lemma parse_short:
  assumes "log_type r \<in> {KV_REC_BEGIN, KV_REC_COMMIT, KV_REC_ABORT, KV_REC_END}" and "line_ok r"
  shows "parse_log_line (log_lsn r) (line_text r @ junk) = Inr r"
  using assms
  by (auto simp: parse_log_line_def line_text_def body_text_def payload_text_def line_ok_def buf_read_eval)

lemma parse_line_text:
  assumes "line_ok r"
  shows "parse_log_line (log_lsn r) (line_text r @ junk) = Inr r"
  using assms parse_data parse_check parse_short by (cases "log_type r") auto

lemma tx_text_clean [simp]: "NUL \<notin> set (tx_text t)" "LF \<notin> set (tx_text t)"
  by (simp_all add: tx_text_def)

lemma body_text_clean:
  assumes "line_ok r"
  shows "NUL \<notin> set (body_text r)" "LF \<notin> set (body_text r)"
  using assms
  by (auto simp: body_text_def payload_text_def data_text_def line_ok_def small_str_def
      split: kv_recovery_log_type.splits if_splits)


subsection \<open>Lines in a file\<close>

text \<open>
  A well-formed line has at most 116 characters and its only newline at its end, so one call of
  \<open>fgets\<close> reads one line, and the search loop is \<open>find\<close>.
\<close>

lemma sum_list_map_const: "(\<And>x. f x = c) \<Longrightarrow> sum_list (map f xs) = length xs * (c::nat)"
  by (induction xs) auto

lemma length_line_text: "line_ok r \<Longrightarrow> length (line_text r) \<le> 116"
  by (auto simp: line_text_def body_text_def payload_text_def data_text_def line_ok_def small_str_def
      length_concat o_def sum_list_map_const [of _ 19] split: kv_recovery_log_type.splits if_splits)

lemma fgets_take_line: "LF \<notin> set s \<Longrightarrow> length s < n \<Longrightarrow> fgets_take n (s @ LF # rest) = (s @ [LF], rest)"
proof (induction s arbitrary: n)
  case Nil
  then show ?case by (cases n) auto
next
  case (Cons c s)
  then show ?case by (cases n) auto
qed

lemma fgets_line_text:
  "line_ok r \<Longrightarrow> fgets KV_RECOVERY_MAX_LINE_LEN (line_text r @ rest) = Some (line_text r, rest)"
  using length_line_text [of r] body_text_clean [of r] fgets_take_line [of "body_text r" 127 rest]
  by (simp add: fgets_def line_text_def)

lemma line_text_lsn: "buf_read (line_text r @ junk) 0 8 = Inr (fmt_08X (log_lsn r))"
  by (simp add: line_text_def body_text_def buf_read_def)

lemma log_text_simps [simp]: "log_text [] = []" "log_text (r # rs) = line_text r @ log_text rs"
  "log_text (rs @ qs) = log_text rs @ log_text qs"
  by (simp_all add: log_text_def)

lemma get_log_scan_text:
  assumes "\<forall>r \<in> set rs. line_ok r"
  shows "\<exists>junk. get_log_scan lsn l line (log_text rs) =
    Inr (case find (\<lambda>r. log_lsn r = lsn) rs of
           Some r \<Rightarrow> (lsn, line_text r @ junk)
         | None \<Rightarrow> (if rs = [] then l else log_lsn (last rs), junk))"
  using assms
proof (induction rs arbitrary: l line)
  case Nil
  then show ?case by (simp add: get_log_scan.simps fgets_def)
next
  case (Cons r rs)
  then have ok: "line_ok r" by simp
  note step = get_log_scan.simps [of lsn l line "log_text (r # rs)"]
  show ?case
  proof (cases "log_lsn r = lsn")
    case True
    then show ?thesis
      unfolding step by (simp add: fgets_line_text [OF ok] fgets_into_def line_text_lsn)
  next
    case False
    obtain junk where IH: "get_log_scan lsn (log_lsn r) (fgets_into (line_text r) line) (log_text rs) =
      Inr (case find (\<lambda>r. log_lsn r = lsn) rs of
           Some r \<Rightarrow> (lsn, line_text r @ junk)
         | None \<Rightarrow> (if rs = [] then log_lsn r else log_lsn (last rs), junk))"
      using Cons.IH [of "log_lsn r" "fgets_into (line_text r) line"] Cons.prems by auto
    have "get_log_scan lsn l line (log_text (r # rs)) = get_log_scan lsn (log_lsn r) (fgets_into (line_text r) line) (log_text rs)"
      using False unfolding step by (simp add: fgets_line_text [OF ok] fgets_into_def line_text_lsn)
    with IH False show ?thesis by (auto split: option.splits)
  qed
qed

lemma get_log_text:
  assumes "\<forall>r \<in> set rs. line_ok r" "rs = [] \<Longrightarrow> lsn \<noteq> 0"
  shows "kv_recovery_get_log lsn (log_text rs) = Inr (find (\<lambda>r. log_lsn r = lsn) rs)"
proof -
  obtain junk where scan: "get_log_scan lsn 0 [] (log_text rs) =
    Inr (case find (\<lambda>r. log_lsn r = lsn) rs of
           Some r \<Rightarrow> (lsn, line_text r @ junk)
         | None \<Rightarrow> (if rs = [] then 0 else log_lsn (last rs), junk))"
    using get_log_scan_text [OF assms(1)] by blast
  show ?thesis
  proof (cases "find (\<lambda>r. log_lsn r = lsn) rs")
    case None
    then have "rs \<noteq> [] \<Longrightarrow> log_lsn (last rs) \<noteq> lsn" by (simp add: find_None_iff_all)
    with None assms(2) show ?thesis by (simp add: kv_recovery_get_log_def scan)
  next
    case (Some r)
    then have "line_ok r" "log_lsn r = lsn" using assms(1) find_SomeD [OF Some] by auto
    then show ?thesis using Some parse_line_text [of r junk]
      by (simp add: kv_recovery_get_log_def scan)
  qed
qed



subsection \<open>What the writers append\<close>

text \<open>
  Each writing function appends the text of one record with the next number.
\<close>

definition short_rec :: "kv_recovery_log_type \<Rightarrow> u32 \<Rightarrow> u32 \<Rightarrow> u32 \<Rightarrow> kv_recovery_log_line" where
  "short_rec typ new_lsn prev_id tx_id =
     \<lparr>log_lsn = new_lsn, log_prev_lsn = prev_id, log_tx_id = tx_id, log_type = typ,
      log_undo_next_lsn = 0, log_key = [], log_old_val = [], log_new_val = [], log_tx_list = None\<rparr>"

definition update_rec :: "u32 \<Rightarrow> u32 \<Rightarrow> u32 \<Rightarrow> string \<Rightarrow> string \<Rightarrow> string \<Rightarrow> kv_recovery_log_line" where
  "update_rec new_lsn prev_id tx_id key old_val new_val =
     \<lparr>log_lsn = new_lsn, log_prev_lsn = prev_id, log_tx_id = tx_id, log_type = KV_REC_UPDATE,
      log_undo_next_lsn = 0, log_key = key, log_old_val = old_val, log_new_val = new_val,
      log_tx_list = None\<rparr>"

definition clr_rec :: "u32 \<Rightarrow> u32 \<Rightarrow> u32 \<Rightarrow> u32 \<Rightarrow> string \<Rightarrow> string \<Rightarrow> string \<Rightarrow> kv_recovery_log_line" where
  "clr_rec new_lsn prev_id tx_id undo_next_lsn key cur_val prev_val =
     \<lparr>log_lsn = new_lsn, log_prev_lsn = prev_id, log_tx_id = tx_id, log_type = KV_REC_CLR,
      log_undo_next_lsn = undo_next_lsn, log_key = key, log_old_val = cur_val, log_new_val = prev_val,
      log_tx_list = None\<rparr>"

definition check_rec :: "u32 \<Rightarrow> kv_recovery_tx list \<Rightarrow> kv_recovery_log_line" where
  "check_rec new_lsn txs =
     \<lparr>log_lsn = new_lsn, log_prev_lsn = 0, log_tx_id = 0, log_type = KV_REC_CHECK,
      log_undo_next_lsn = 0, log_key = [], log_old_val = [], log_new_val = [],
      log_tx_list = Some txs\<rparr>"

lemmas rec_defs = short_rec_def update_rec_def clr_rec_def check_rec_def

definition append_rec :: "kv_recovery_log_line \<Rightarrow> kv_rec \<Rightarrow> kv_rec" where
  "append_rec r st = \<lparr>recovery_file = recovery_file st @ line_text r, rec_lsn = log_lsn r\<rparr>"

lemma log_rep_append:
  assumes "log_rep st rs" "line_ok r" "log_lsn r = rec_lsn st + 1" "length rs + 1 < 2 ^ 32"
  shows "log_rep (append_rec r st) (rs @ [r])"
  using assms by (auto simp: log_rep_def append_rec_def nth_append less_Suc_eq)

lemma line_text_no_NUL: "line_ok r \<Longrightarrow> NUL \<notin> set (line_text r)"
  using body_text_clean [of r] by (simp add: line_text_def)

lemma fputs_line: "line_ok r \<Longrightarrow>
  fputs (line_text r @ NUL # junk) (st\<lparr>rec_lsn := log_lsn r\<rparr>) = append_rec r st"
  "line_ok r \<Longrightarrow> fputs (line_text r) (st\<lparr>rec_lsn := log_lsn r\<rparr>) = append_rec r st"
  using line_text_no_NUL [of r] by (simp_all add: fputs_def append_rec_def)

lemma short_line_eq:
  assumes "typ \<in> {KV_REC_BEGIN, KV_REC_COMMIT, KV_REC_ABORT, KV_REC_END}"
  shows "short_line new_lsn prev_id tx_id (type_text typ) = line_text (short_rec typ new_lsn prev_id tx_id)"
    "line_ok (short_rec typ new_lsn prev_id tx_id)"
  using assms
  by (auto simp: short_line_def short_rec_def line_text_def body_text_def payload_text_def line_ok_def)

lemma short_log_eq:
  assumes "typ \<in> {KV_REC_BEGIN, KV_REC_COMMIT, KV_REC_ABORT, KV_REC_END}"
  shows "fputs (snprintf 128 (short_line new_lsn prev_id tx_id (type_text typ))) (st\<lparr>rec_lsn := new_lsn\<rparr>)
    = append_rec (short_rec typ new_lsn prev_id tx_id) st"
proof -
  let ?r = "short_rec typ new_lsn prev_id tx_id"
  have ok: "line_ok ?r" by (rule short_line_eq(2) [OF assms])
  have "snprintf 128 (short_line new_lsn prev_id tx_id (type_text typ)) = line_text ?r"
    using length_line_text [OF ok] by (simp add: short_line_eq(1) [OF assms] snprintf_def)
  moreover have "log_lsn ?r = new_lsn" by (simp add: short_rec_def)
  ultimately show ?thesis using fputs_line(2) [OF ok, of st] by simp
qed

lemma simple_logs:
  "kv_recovery_begin_log p t st = (rec_lsn st + 1, append_rec (short_rec KV_REC_BEGIN (rec_lsn st + 1) p t) st)"
  "kv_recovery_commit_log p t st = (rec_lsn st + 1, append_rec (short_rec KV_REC_COMMIT (rec_lsn st + 1) p t) st)"
  "kv_recovery_abort_log p t st = (rec_lsn st + 1, append_rec (short_rec KV_REC_ABORT (rec_lsn st + 1) p t) st)"
  "kv_recovery_end_log p t st = (rec_lsn st + 1, append_rec (short_rec KV_REC_END (rec_lsn st + 1) p t) st)"
  using short_log_eq [of KV_REC_BEGIN] short_log_eq [of KV_REC_COMMIT]
    short_log_eq [of KV_REC_ABORT] short_log_eq [of KV_REC_END]
  by (simp_all add: kv_recovery_begin_log_def kv_recovery_commit_log_def kv_recovery_abort_log_def
      kv_recovery_end_log_def type_text_def Let_def)

lemma uint32_to_hex_8 [simp]: "uint32_to_hex x (replicate 8 NUL) = Inr (fmt_08X x)"
  by (simp add: uint32_to_hex_eq)

lemma size_t_to_2_digit_hex_2: "n < 2 ^ 64 \<Longrightarrow> size_t_to_2_digit_hex (of_nat n) (replicate 2 NUL) = Inr (hex2 n)"
  by (simp add: size_t_to_2_digit_hex_eq hex2_def unat_of_nat)

lemma data_change_log_clr:
  assumes "small_str key" "small_str old_val" "small_str new_val"
  shows "kv_recovery_clr_log prev_id tx_id undo key old_val new_val st =
     Inr (rec_lsn st + 1, append_rec (clr_rec (rec_lsn st + 1) prev_id tx_id undo key old_val new_val) st)"
proof -
  let ?r = "clr_rec (rec_lsn st + 1) prev_id tx_id undo key old_val new_val"
  have ok: "line_ok ?r" using assms by (simp add: line_ok_def clr_rec_def)
  have len: "length key < 16" "length old_val < 16" "length new_val < 16" using assms by (auto simp: small_str_def)
  show ?thesis
    using fputs_line(1) [OF ok, of "[]" st] len
    by (simp add: kv_recovery_clr_log_def data_change_log_def size_t_to_2_digit_hex_2 Let_def
        line_text_def body_text_def payload_text_def data_text_def clr_rec_def type_text_def)
qed

lemma data_change_log_update:
  assumes "small_str key" "small_str old_val" "small_str new_val"
  shows "kv_recovery_update_log prev_id tx_id key old_val new_val st =
     Inr (rec_lsn st + 1, append_rec (update_rec (rec_lsn st + 1) prev_id tx_id key old_val new_val) st)"
proof -
  let ?r = "update_rec (rec_lsn st + 1) prev_id tx_id key old_val new_val"
  have ok: "line_ok ?r" using assms by (simp add: line_ok_def update_rec_def)
  have len: "length key < 16" "length old_val < 16" "length new_val < 16" using assms by (auto simp: small_str_def)
  show ?thesis
    using fputs_line(1) [OF ok, of "[]" st] len
    by (simp add: kv_recovery_update_log_def data_change_log_def size_t_to_2_digit_hex_2 Let_def
        line_text_def body_text_def payload_text_def data_text_def update_rec_def type_text_def)
qed

lemma data_change_log_overflow:
  assumes "length key < 2 ^ 64" "length old_val < 2 ^ 64" "length new_val < 2 ^ 64"
  shows "data_change_log prev_id tx_id key old_val new_val is_clr undo st = Inl Out_Of_Bounds \<longleftrightarrow>
     length key + length old_val + length new_val > (if is_clr then 70 else 79)"
  using assms by (auto simp: data_change_log_def size_t_to_2_digit_hex_2 Let_def)


subsection \<open>The checkpoint line\<close>

text \<open>
  The offsets of the code tile the block: entry \<open>i\<close> starts at \<open>3 + 19 i\<close>.
\<close>

lemma buf_write_skip:
  "length a \<le> pos \<Longrightarrow> buf_write (a @ b) pos xs = map_res ((@) a) (buf_write b (pos - length a) xs)"
  by (auto simp: buf_write_def)

lemma buf_write_Cons: "0 < pos \<Longrightarrow> buf_write (c # b) pos xs = map_res ((#) c) (buf_write b (pos - 1) xs)"
  by (cases pos) (simp_all add: buf_write_def)

lemma buf_write_here: "length xs \<le> length b \<Longrightarrow> buf_write b 0 xs = Inr (xs @ drop (length xs) b)"
  by (simp add: buf_write_def)

lemmas buf_write_eval = buf_write_skip buf_write_Cons buf_write_here

lemma check_tx_loop_text:
  assumes "i < n" "length txs = n" "length pre = 3 + 19 * i" "length b = 19 * (n - i) - 1"
  shows "check_tx_loop [i..<n] n txs (pre @ b) = Inr (pre @ tl (concat (map tx_text (drop i txs))))"
  using assms
proof (induction "n - i" arbitrary: i pre b)
  case (Suc m)
  let ?t = "txs ! i"
  let ?e = "''T'' @ fmt_08X (rtx_id ?t) @ '' '' @ fmt_08X (rtx_last_lsn ?t)"
  have upt: "[i..<n] = i # [Suc i..<n]" using Suc.prems by (simp add: upt_conv_Cons)
  have dr: "drop i txs = ?t # drop (Suc i) txs" using Suc.prems by (simp add: Cons_nth_drop_Suc)
  have lb: "18 \<le> length b" using Suc.prems by simp
  have tt: "tl (concat (map tx_text (drop i txs))) = ?e @ concat (map tx_text (drop (Suc i) txs))"
    by (simp add: dr tx_text_def [of ?t])
  show ?case
  proof (cases "i < n - 1")
    case False
    then have n: "n = Suc i" using Suc.prems(1) by simp
    then have "drop 18 b = []" "length b = 18" using Suc.prems by simp_all
    then show ?thesis
      unfolding tt using Suc.prems n by (simp add: buf_write_eval)
  next
    case True
    have lb': "19 \<le> length b" using Suc.prems True by simp
    have "check_tx_loop [Suc i..<n] n txs ((pre @ ?e @ '' '') @ drop 19 b) =
      Inr ((pre @ ?e @ '' '') @ tl (concat (map tx_text (drop (Suc i) txs))))"
      using Suc.prems Suc.hyps(2) True by (intro Suc.hyps(1)) auto
    moreover have "concat (map tx_text (drop (Suc i) txs)) = SP # tl (concat (map tx_text (drop (Suc i) txs)))"
      using True Suc.prems by (cases "drop (Suc i) txs") (simp_all add: tx_text_def)
    ultimately show ?thesis
      unfolding tt upt using Suc.prems True lb lb' by (simp add: buf_write_eval del: upt_Suc)
  qed
qed simp

lemma check_tx_line:
  fixes txs :: "kv_recovery_tx list"
  defines "n \<equiv> length txs"
  assumes "txs \<noteq> []"
  shows "buf_write (replicate (3 + 19 * n - 1) NUL) 0 (hex2 n) = Inr (hex2 n @ replicate (19 * n) NUL)"
    "buf_write (hex2 n @ replicate (19 * n) NUL) 2 '' '' = Inr ((hex2 n @ '' '') @ replicate (19 * n - 1) NUL)"
    "check_tx_loop [0..<n] n txs ((hex2 n @ '' '') @ replicate (19 * n - 1) NUL) =
       Inr ((hex2 n @ '' '') @ tl (concat (map tx_text txs)))"
    "length (tl (concat (map tx_text txs))) = 19 * n - 1"
proof -
  have n: "0 < n" using assms by simp
  then have n1: "1 \<le> 19 * n" by linarith
  show "buf_write (replicate (3 + 19 * n - 1) NUL) 0 (hex2 n) = Inr (hex2 n @ replicate (19 * n) NUL)"
    by (simp add: buf_write_here)
  show "buf_write (hex2 n @ replicate (19 * n) NUL) 2 '' '' = Inr ((hex2 n @ '' '') @ replicate (19 * n - 1) NUL)"
    using n1 by (simp add: buf_write_def)
  show "check_tx_loop [0..<n] n txs ((hex2 n @ '' '') @ replicate (19 * n - 1) NUL) =
       Inr ((hex2 n @ '' '') @ tl (concat (map tx_text txs)))"
    using n by (subst check_tx_loop_text) (auto simp: n_def)
  show "length (tl (concat (map tx_text txs))) = 19 * n - 1"
    by (simp add: length_concat o_def sum_list_map_const [of _ 19] n_def)
qed

lemma check_log_eq:
  assumes "length txs \<le> 4"
  shows "kv_recovery_check_log txs st = Inr (rec_lsn st + 1, append_rec (check_rec (rec_lsn st + 1) txs) st)"
proof -
  let ?r = "check_rec (rec_lsn st + 1) txs"
  let ?n = "length txs"
  have ok: "line_ok ?r" using assms by (simp add: line_ok_def check_rec_def)
  have zero: "fmt_08X 0 = ''00000000''" by (simp add: fmt_08X_def hex_array_def)
  note txt_defs = line_text_def body_text_def payload_text_def check_rec_def type_text_def zero
  note out = fputs_line(1) [OF ok, of "[]" st] fputs_line(2) [OF ok, of st]
  show ?thesis
  proof (cases "txs = []")
    case True
    have "snprintf 128 (fmt_08X (rec_lsn st + 1) @ '' 00000000 T00000000 '' @ CHECK_TYPE @ '' 00'' @ [LF]) = line_text ?r"
      by (simp add: snprintf_def txt_defs True hex2_def hex_array_def)
    then show ?thesis using out True by (simp add: kv_recovery_check_log_def check_rec_def Let_def)
  next
    case False
    have sp: "concat (map tx_text txs) = SP # tl (concat (map tx_text txs))"
      using False by (cases txs) (simp_all add: tx_text_def)
    have line: "snprintf 128 (fmt_08X (rec_lsn st + 1) @ '' 00000000 T00000000 '' @ CHECK_TYPE)
       @ '' '' @ ((hex2 ?n @ '' '') @ tl (concat (map tx_text txs))) @ [LF] @ [NUL] = line_text ?r @ [NUL]"
      by (simp add: snprintf_def txt_defs sp [symmetric] del: tl_append2)
    have short: "length (line_text ?r @ [NUL]) \<le> 128" using length_line_text [OF ok] by simp
    have sz: "size_t_to_2_digit_hex (of_nat ?n) (replicate 2 NUL) = Inr (hex2 ?n)"
      using assms by (intro size_t_to_2_digit_hex_2) simp
    have "kv_recovery_check_log txs st =
      Inr (rec_lsn st + 1, fputs (line_text ?r @ [NUL]) (st\<lparr>rec_lsn := rec_lsn st + 1\<rparr>))"
      unfolding kv_recovery_check_log_def Let_def sz bind_res.simps check_tx_line [OF False] line
      using short False by simp
    then show ?thesis using out(1) by (simp add: check_rec_def)
  qed
qed

lemma check_log_overflow:
  assumes "5 \<le> length txs" "length txs < 2 ^ 64"
  shows "kv_recovery_check_log txs st = Inl Out_Of_Bounds"
proof -
  have ne: "txs \<noteq> []" using assms(1) by auto
  have sz: "size_t_to_2_digit_hex (of_nat (length txs)) (replicate 2 NUL) = Inr (hex2 (length txs))"
    using assms(2) by (rule size_t_to_2_digit_hex_2)
  show ?thesis
    unfolding kv_recovery_check_log_def Let_def sz bind_res.simps check_tx_line [OF ne]
    using ne check_tx_line(4) [OF ne] assms(1) by (simp add: snprintf_def)
qed

subsection \<open>Looking up by number\<close>

lemma of_nat_u32_inj: "m < 2 ^ 32 \<Longrightarrow> n < 2 ^ 32 \<Longrightarrow> (of_nat m :: u32) = of_nat n \<longleftrightarrow> m = n"
  by (simp add: word_of_nat_eq_iff take_bit_nat_eq_self)

lemma log_rep_find:
  assumes "log_rep st rs" "i < length rs"
  shows "find (\<lambda>r. log_lsn r = of_nat (i + 1)) rs = Some (rs ! i)"
proof -
  have lsn: "log_lsn (rs ! j) = (of_nat (i + 1) :: u32) \<longleftrightarrow> j = i" if "j < length rs" for j
  proof -
    have "log_lsn (rs ! j) = of_nat (j + 1)" "length rs < 2 ^ 32" using assms(1) that by (auto simp: log_rep_def)
    then show ?thesis using that assms(2) of_nat_u32_inj [of "j + 1" "i + 1"] by auto
  qed
  show ?thesis
    unfolding find_Some_iff using assms(2) lsn by (intro exI [of _ i]) auto
qed

lemma log_rep_get_in:
  assumes "log_rep st rs" "i < length rs"
  shows "kv_recovery_get_log (of_nat (i + 1)) (recovery_file st) = Inr (Some (rs ! i))"
proof -
  have "recovery_file st = log_text rs" "\<forall>r \<in> set rs. line_ok r" using assms(1) by (auto simp: log_rep_def)
  moreover have "rs \<noteq> []" using assms(2) by auto
  ultimately show ?thesis using get_log_text [of rs "of_nat (i + 1)"] log_rep_find [OF assms] by simp
qed

lemma log_rep_get_out:
  assumes "log_rep st rs" "length rs < n" "n < 2 ^ 32"
  shows "kv_recovery_get_log (of_nat n) (recovery_file st) = Inr None"
proof -
  have f: "recovery_file st = log_text rs" "\<forall>r \<in> set rs. line_ok r"
    "\<forall>i < length rs. log_lsn (rs ! i) = of_nat (i + 1)" "length rs < 2 ^ 32"
    using assms(1) by (auto simp: log_rep_def)
  have "find (\<lambda>r. log_lsn r = of_nat n) rs = None"
    unfolding find_None_iff_all
  proof
    fix r assume "r \<in> set rs"
    then obtain i where i: "i < length rs" "r = rs ! i" by (auto simp: in_set_conv_nth)
    then have "log_lsn r = of_nat (i + 1)" using f(3) by simp
    then show "log_lsn r \<noteq> of_nat n" using of_nat_u32_inj [of "i + 1" n] i assms(2,3) by auto
  qed
  moreover have "(of_nat n :: u32) \<noteq> 0" using of_nat_u32_inj [of n 0] assms(2,3) by auto
  ultimately show ?thesis using get_log_text [OF f(2), of "of_nat n"] f(1) by simp
qed

lemma log_rep_get_zero:
  assumes "log_rep st rs" "rs \<noteq> []"
  shows "kv_recovery_get_log 0 (recovery_file st) = Inr None"
proof -
  have "log_lsn r \<noteq> 0" if r: "r \<in> set rs" for r
  proof -
    obtain i where i: "i < length rs" "r = rs ! i" using r by (auto simp: in_set_conv_nth)
    then have "log_lsn r = of_nat (i + 1)" "i + 1 < 2 ^ 32" using assms(1) by (auto simp: log_rep_def)
    then show ?thesis using of_nat_u32_inj [of "i + 1" 0] by auto
  qed
  then have "find (\<lambda>r. log_lsn r = 0) rs = None" by (auto simp: find_None_iff)
  then show ?thesis using get_log_text [of rs 0] assms by (simp add: log_rep_def)
qed


subsection \<open>The contract of the log\<close>

text \<open>
  What rollback and recovery rely on: the record with a given number is found, a number
  not given out yet is not, and an appended record becomes part of the log.
\<close>

locale log_store =
  fixes get :: "u32 \<Rightarrow> 's \<Rightarrow> kv_recovery_log_line option res"
    and append :: "kv_recovery_log_line \<Rightarrow> 's \<Rightarrow> 's"
    and rep :: "'s \<Rightarrow> kv_recovery_log_line list \<Rightarrow> bool"
  assumes get_in: "rep s rs \<Longrightarrow> i < length rs \<Longrightarrow> get (of_nat (i + 1)) s = Inr (Some (rs ! i))"
    and get_out: "rep s rs \<Longrightarrow> length rs < n \<Longrightarrow> n < 2 ^ 32 \<Longrightarrow> get (of_nat n) s = Inr None"
    and rep_append: "rep s rs \<Longrightarrow> line_ok r \<Longrightarrow> log_lsn r = of_nat (length rs + 1) \<Longrightarrow>
      length rs + 1 < 2 ^ 32 \<Longrightarrow> rep (append r s) (rs @ [r])"
begin

fun numbered :: "nat \<Rightarrow> kv_recovery_log_line list \<Rightarrow> bool" where
  "numbered n [] = True"
| "numbered n (r # rs) = (line_ok r \<and> log_lsn r = of_nat (n + 1) \<and> numbered (n + 1) rs)"

definition append_list :: "kv_recovery_log_line list \<Rightarrow> 's \<Rightarrow> 's" where
  "append_list qs s = fold append qs s"

lemma rep_append_list:
  "rep s rs \<Longrightarrow> numbered (length rs) qs \<Longrightarrow> length rs + length qs < 2 ^ 32 \<Longrightarrow>
   rep (append_list qs s) (rs @ qs)"
proof (induction qs arbitrary: s rs)
  case (Cons q qs)
  then have "rep (append q s) (rs @ [q])" by (intro rep_append) auto
  from Cons.IH [OF this] Cons.prems show ?case by (simp add: append_list_def)
qed (simp add: append_list_def)

text \<open>What was written stays readable whatever is written after it.\<close>

lemma get_stable:
  assumes "rep s rs" "numbered (length rs) qs" "length rs + length qs < 2 ^ 32" "i < length rs"
  shows "get (of_nat (i + 1)) (append_list qs s) = get (of_nat (i + 1)) s"
  using get_in [OF rep_append_list [OF assms(1-3)], of i] get_in [OF assms(1,4)] assms(4)
  by (simp add: nth_append)

lemma get_last:
  assumes "rep s rs" "line_ok r" "log_lsn r = of_nat (length rs + 1)" "length rs + 1 < 2 ^ 32"
  shows "get (log_lsn r) (append r s) = Inr (Some r)"
  using get_in [OF rep_append [OF assms], of "length rs"] assms(3) by simp

end

lemma log_rep_lsn: "log_rep st rs \<Longrightarrow> rec_lsn st = of_nat (length rs)"
  by (simp add: log_rep_def)

interpretation log: log_store "\<lambda>n st. kv_recovery_get_log n (recovery_file st)" append_rec log_rep
proof
  fix st rs r
  assume "log_rep st rs" "line_ok r" "log_lsn r = of_nat (length rs + 1)" "length rs + 1 < 2 ^ 32"
  then show "log_rep (append_rec r st) (rs @ [r])"
    by (intro log_rep_append) (simp_all add: log_rep_lsn)
qed (rule log_rep_get_in log_rep_get_out; assumption)+

lemma log_rep_empty: "log_rep \<lparr>recovery_file = [], rec_lsn = 0\<rparr> []"
  by (simp add: log_rep_def)

section \<open>Properties\<close>

text \<open>
  C22. Write-ahead log, data records: \<open>kv_recovery_update_log\<close> on a well-formed log, with key and
  values of at most 15 bytes and no newline or zero byte in them, gives the next number out;
  \<open>kv_recovery_get_log\<close> then finds under it a record with exactly the fields logged, finds under
  every earlier number what it found before, and finds nothing under any later number.
\<close>

theorem update_log_roundtrip:
  assumes "log_rep st rs" "length rs + 1 < 2 ^ 32"
    "small_str key" "small_str old_val" "small_str new_val"
  shows "\<exists>st'. kv_recovery_update_log prev_id tid key old_val new_val st = Inr (of_nat (length rs + 1), st') \<and>
     kv_recovery_get_log (of_nat (length rs + 1)) (recovery_file st') = Inr (Some
       \<lparr>log_lsn = of_nat (length rs + 1), log_prev_lsn = prev_id, log_tx_id = tid, log_type = KV_REC_UPDATE,
        log_undo_next_lsn = 0, log_key = key, log_old_val = old_val, log_new_val = new_val, log_tx_list = None\<rparr>) \<and>
     (\<forall>n. 0 < n \<and> n \<le> length rs \<longrightarrow>
        kv_recovery_get_log (of_nat n) (recovery_file st') = kv_recovery_get_log (of_nat n) (recovery_file st)) \<and>
     (\<forall>n. length rs + 1 < n \<and> n < 2 ^ 32 \<longrightarrow> kv_recovery_get_log (of_nat n) (recovery_file st') = Inr None)"
proof -
  let ?r = "update_rec (rec_lsn st + 1) prev_id tid key old_val new_val"
  have lsn: "rec_lsn st + 1 = of_nat (length rs + 1)" using log_rep_lsn [OF assms(1)] by simp
  have ok: "line_ok ?r" using assms by (simp add: line_ok_def update_rec_def)
  have rep: "log_rep (append_rec ?r st) (rs @ [?r])"
    using assms ok by (intro log_rep_append) (simp_all add: update_rec_def)
  have old: "kv_recovery_get_log (of_nat n) (recovery_file (append_rec ?r st)) = kv_recovery_get_log (of_nat n) (recovery_file st)"
    if "0 < n" "n \<le> length rs" for n
    using log_rep_get_in [OF rep, of "n - 1"] log_rep_get_in [OF assms(1), of "n - 1"] that by (simp add: nth_append)
  have new: "kv_recovery_get_log (of_nat (length rs + 1)) (recovery_file (append_rec ?r st)) = Inr (Some ?r)"
    using log_rep_get_in [OF rep, of "length rs"] by simp
  have later: "kv_recovery_get_log (of_nat n) (recovery_file (append_rec ?r st)) = Inr None"
    if "length rs + 1 < n" "n < 2 ^ 32" for n
    using log_rep_get_out [OF rep, of n] that by simp
  show ?thesis
    using data_change_log_update [OF assms(3-5), of prev_id tid st] old new later
    unfolding lsn [symmetric] update_rec_def by blast
qed

theorem update_log_roundtrip_witness:
  "\<exists>st'. kv_recovery_update_log 0 1 ''key'' [] ''value'' \<lparr>recovery_file = [], rec_lsn = 0\<rparr> = Inr (1, st') \<and>
     map_res (map_option log_new_val) (kv_recovery_get_log 1 (recovery_file st')) = Inr (Some ''value'')"
  using update_log_roundtrip [OF log_rep_empty, of "''key''" "[]" "''value''" 0 1]
  by (auto simp: small_str_def)

text \<open>
  A value of 16 bytes or more does not survive: the log holds it, and the reader, which takes
  the length digits for bits, returns the beginning of it only; rollback and redo would put
  that in the place of the value.
\<close>

theorem long_value_truncated:
  "bind_res (kv_recovery_update_log 0 1 ''k'' [] ''abcdefghijklmnopqrst'' \<lparr>recovery_file = [], rec_lsn = 0\<rparr>)
     (\<lambda>(new_lsn, st). map_res (map_option (\<lambda>r. (log_key r, log_new_val r)))
        (kv_recovery_get_log new_lsn (recovery_file st)))
   = Inr (Some (''k'', ''abcdef''))"
  by code_simp

text \<open>
  C38. The 128 byte line of a data record is filled without a check; a line that does not fit, with
  its newline and zero byte, writes past it: exactly when key, old and new value together have
  more than 79 bytes in an update, more than 70 in a compensation.
\<close>

theorem data_log_overflow_iff:
  assumes "length key < 2 ^ 64" "length old_val < 2 ^ 64" "length new_val < 2 ^ 64"
  shows "(kv_recovery_update_log prev_id tid key old_val new_val st = Inl Out_Of_Bounds \<longleftrightarrow>
            length key + length old_val + length new_val > 79) \<and>
         (kv_recovery_clr_log prev_id tid undo_next key old_val new_val st = Inl Out_Of_Bounds \<longleftrightarrow>
            length key + length old_val + length new_val > 70)"
  using data_change_log_overflow [OF assms]
  by (simp add: kv_recovery_update_log_def kv_recovery_clr_log_def)

theorem data_log_overflow_iff_witness:
  "kv_recovery_update_log 0 1 (replicate 20 (CHR ''k'')) (replicate 30 (CHR ''a'')) (replicate 30 (CHR ''b''))
     \<lparr>recovery_file = [], rec_lsn = 0\<rparr>
     = Inl Out_Of_Bounds"
  using data_log_overflow_iff [of "replicate 20 (CHR ''k'')" "replicate 30 (CHR ''a'')" "replicate 30 (CHR ''b'')" 0 1 "\<lparr>recovery_file = [], rec_lsn = 0\<rparr>"]
  by simp

text \<open>
  C37. Checkpoint records: with up to four running transactions the record written is found again
  with the same list of numbers and last records; with five or more the line runs past its
  128 bytes.
\<close>

theorem check_log_roundtrip:
  assumes "log_rep st rs" "length rs + 1 < 2 ^ 32" "length txs < 2 ^ 64"
  shows "if length txs \<le> 4
     then \<exists>st'. kv_recovery_check_log txs st = Inr (of_nat (length rs + 1), st') \<and>
        map_res (map_option (\<lambda>r. (log_type r, log_tx_list r)))
          (kv_recovery_get_log (of_nat (length rs + 1)) (recovery_file st')) = Inr (Some (KV_REC_CHECK, Some txs))
     else kv_recovery_check_log txs st = Inl Out_Of_Bounds"
proof (cases "length txs \<le> 4")
  case True
  let ?r = "check_rec (rec_lsn st + 1) txs"
  have "log_rep (append_rec ?r st) (rs @ [?r])"
    using assms True by (intro log_rep_append) (simp_all add: check_rec_def line_ok_def)
  then have "kv_recovery_get_log (of_nat (length rs + 1)) (recovery_file (append_rec ?r st)) = Inr (Some ?r)"
    using log_rep_get_in [of "append_rec ?r st" "rs @ [?r]" "length rs"] by simp
  then show ?thesis using True check_log_eq [OF True, of st] log_rep_lsn [OF assms(1)]
    by (simp add: check_rec_def)
qed (use assms(3) check_log_overflow in simp)

theorem check_log_roundtrip_witness:
  "\<exists>st'. kv_recovery_check_log [\<lparr>rtx_id = 3, rtx_last_lsn = 9\<rparr>] \<lparr>recovery_file = [], rec_lsn = 0\<rparr> = Inr (1, st') \<and>
     map_res (map_option (\<lambda>r. (log_type r, log_tx_list r))) (kv_recovery_get_log 1 (recovery_file st'))
       = Inr (Some (KV_REC_CHECK, Some [\<lparr>rtx_id = 3, rtx_last_lsn = 9\<rparr>]))"
  using check_log_roundtrip [OF log_rep_empty, of "[\<lparr>rtx_id = 3, rtx_last_lsn = 9\<rparr>]"] by simp

end
