(* ===== verification/Lock.thy ===== *)
theory Lock
  imports Utils
begin

text \<open>
  \<open>lock_rwlock.c\<close> and \<open>lock_manager.c\<close>: a table of 64 owned locks, a key being guarded by
  the lock its hash selects.  A thread is a positive number, 0 the owner of a free lock.
  \<open>pthread_mutex_lock\<close> on a mutex that is held does not return: \<open>Blocked\<close>.

  Read and write locks of the code are the same exclusive lock; a thread that owns a lock
  only counts.  The lemmas show that a lock has one owner at a time, that a thread gets a
  lock free again by releasing it as often as it took it, and that this holds slot by slot
  for the table whatever keys share a slot.
\<close>

section \<open>Definitions\<close>

type_synonym thread = nat

record kv_rwl =
  rwl_lock :: bool
  rwl_owner :: thread
  rwl_lock_count :: int

definition kv_rwl_create :: kv_rwl where
  "kv_rwl_create = \<lparr>rwl_lock = False, rwl_owner = 0, rwl_lock_count = 0\<rparr>"

definition kv_rwl_rlock :: "thread \<Rightarrow> kv_rwl \<Rightarrow> kv_rwl res" where
  "kv_rwl_rlock self rwl =
     (if rwl_owner rwl = self then Inr (rwl\<lparr>rwl_lock_count := rwl_lock_count rwl + 1\<rparr>)
      else if rwl_lock rwl then Inl Blocked
      else Inr (rwl\<lparr>rwl_lock := True, rwl_lock_count := 1, rwl_owner := self\<rparr>))"

definition kv_rwl_wlock :: "thread \<Rightarrow> kv_rwl \<Rightarrow> kv_rwl res" where
  "kv_rwl_wlock self rwl =
     (if rwl_owner rwl = self then Inr (rwl\<lparr>rwl_lock_count := rwl_lock_count rwl + 1\<rparr>)
      else if rwl_lock rwl then Inl Blocked
      else Inr (rwl\<lparr>rwl_lock := True, rwl_lock_count := 1, rwl_owner := self\<rparr>))"

definition kv_rwl_unlock :: "thread \<Rightarrow> kv_rwl \<Rightarrow> kv_rwl" where
  "kv_rwl_unlock self rwl =
     (if rwl_owner rwl = self then
        (let rwl = rwl\<lparr>rwl_lock_count := rwl_lock_count rwl - 1\<rparr> in
         if rwl_lock_count rwl = 0 then rwl\<lparr>rwl_owner := 0, rwl_lock := False\<rparr> else rwl)
      else rwl)"

text \<open>
  The lock manager.  Its own \<open>pthread_rwlock_t\<close> is only ever read-locked, so it never
  excludes a caller and is left out.
\<close>

record kv_lm =
  lm_lock_list :: "kv_rwl list"
  lm_size :: nat
  lm_counter :: int

definition default_list_size :: nat where
  "default_list_size = 64"

definition kv_lm_create :: kv_lm where
  "kv_lm_create = \<lparr>lm_lock_list = replicate default_list_size kv_rwl_create,
     lm_size = default_list_size, lm_counter = 0\<rparr>"

definition kv_lm_idx :: "kv_lm \<Rightarrow> string \<Rightarrow> nat" where
  "kv_lm_idx lm key = unat (djb2 key) mod lm_size lm"

definition kv_lm_rlock :: "thread \<Rightarrow> kv_lm \<Rightarrow> string \<Rightarrow> kv_lm res" where
  "kv_lm_rlock self lm key =
     (let idx = kv_lm_idx lm key in
      bind_res (kv_rwl_rlock self (lm_lock_list lm ! idx)) (\<lambda>rwl.
      Inr (lm\<lparr>lm_lock_list := (lm_lock_list lm)[idx := rwl], lm_counter := lm_counter lm + 1\<rparr>)))"

definition kv_lm_wlock :: "thread \<Rightarrow> kv_lm \<Rightarrow> string \<Rightarrow> kv_lm res" where
  "kv_lm_wlock self lm key =
     (let idx = kv_lm_idx lm key in
      bind_res (kv_rwl_wlock self (lm_lock_list lm ! idx)) (\<lambda>rwl.
      Inr (lm\<lparr>lm_lock_list := (lm_lock_list lm)[idx := rwl], lm_counter := lm_counter lm + 1\<rparr>)))"

definition kv_lm_unlock :: "thread \<Rightarrow> kv_lm \<Rightarrow> string \<Rightarrow> kv_lm" where
  "kv_lm_unlock self lm key =
     (let idx = kv_lm_idx lm key in
      lm\<lparr>lm_lock_list := (lm_lock_list lm)[idx := kv_rwl_unlock self (lm_lock_list lm ! idx)],
         lm_counter := lm_counter lm - 1\<rparr>)"

section \<open>Lemmas\<close>

subsection \<open>One lock\<close>

definition rwl_inv :: "kv_rwl \<Rightarrow> bool" where
  "rwl_inv rwl \<longleftrightarrow> (rwl_lock rwl \<longleftrightarrow> rwl_owner rwl \<noteq> 0) \<and> (rwl_owner rwl = 0 \<longleftrightarrow> rwl_lock_count rwl = 0)
     \<and> 0 \<le> rwl_lock_count rwl"

text \<open>How often a thread holds the lock.\<close>

definition rwl_held :: "kv_rwl \<Rightarrow> thread \<Rightarrow> nat" where
  "rwl_held rwl t = (if rwl_owner rwl = t then nat (rwl_lock_count rwl) else 0)"

lemma rlock_is_wlock: "kv_rwl_rlock = kv_rwl_wlock" "kv_lm_rlock = kv_lm_wlock"
  by (simp_all add: fun_eq_iff kv_rwl_rlock_def kv_rwl_wlock_def kv_lm_rlock_def kv_lm_wlock_def)

lemma rwl_inv_create [simp]: "rwl_inv kv_rwl_create" "rwl_held kv_rwl_create t = 0"
  by (simp_all add: rwl_inv_def kv_rwl_create_def rwl_held_def)

lemma rwl_exclusive:
  "rwl_inv rwl \<Longrightarrow> 0 < rwl_held rwl t \<Longrightarrow> 0 < rwl_held rwl u \<Longrightarrow> t = u"
  by (simp add: rwl_held_def split: if_split_asm)

lemma rwl_wlock_ok:
  assumes "rwl_inv rwl" "0 < t" "kv_rwl_wlock t rwl = Inr rwl'"
  shows "rwl_inv rwl'" "rwl_held rwl' u = (if u = t then rwl_held rwl t + 1 else rwl_held rwl u)"
proof -
  have "rwl_inv rwl' \<and> rwl_held rwl' u = (if u = t then rwl_held rwl t + 1 else rwl_held rwl u)"
  proof (cases "rwl_owner rwl = t")
    case True
    then have "rwl' = rwl\<lparr>rwl_lock_count := rwl_lock_count rwl + 1\<rparr>"
      using assms(3) by (simp add: kv_rwl_wlock_def)
    then show ?thesis using True assms(1,2) by (simp add: rwl_inv_def rwl_held_def nat_add_distrib)
  next
    case False
    then have "rwl' = rwl\<lparr>rwl_lock := True, rwl_lock_count := 1, rwl_owner := t\<rparr>" "\<not> rwl_lock rwl"
      using assms(3) by (auto simp: kv_rwl_wlock_def split: if_split_asm)
    then show ?thesis using False assms(1,2) by (auto simp: rwl_inv_def rwl_held_def)
  qed
  then show "rwl_inv rwl'" "rwl_held rwl' u = (if u = t then rwl_held rwl t + 1 else rwl_held rwl u)"
    by blast+
qed

lemma rwl_wlock_blocked_iff:
  assumes "rwl_inv rwl" "0 < t"
  shows "kv_rwl_wlock t rwl = Inl Blocked \<longleftrightarrow> (\<exists>u. u \<noteq> t \<and> 0 < rwl_held rwl u)"
    "kv_rwl_wlock t rwl = Inl e \<Longrightarrow> e = Blocked"
  using assms by (auto simp: kv_rwl_wlock_def rwl_inv_def rwl_held_def split: if_splits)

lemma rwl_unlock_ok:
  assumes "rwl_inv rwl" "0 < t"
  shows "rwl_inv (kv_rwl_unlock t rwl)"
    "rwl_held (kv_rwl_unlock t rwl) u = (if u = t then rwl_held rwl t - 1 else rwl_held rwl u)"
  using assms by (auto simp: kv_rwl_unlock_def rwl_inv_def rwl_held_def Let_def split: if_splits)

subsection \<open>The table\<close>

definition slot :: "string \<Rightarrow> nat" where
  "slot key = unat (djb2 key) mod default_list_size"

definition lm_inv :: "kv_lm \<Rightarrow> bool" where
  "lm_inv lm \<longleftrightarrow> lm_size lm = default_list_size \<and> length (lm_lock_list lm) = default_list_size
     \<and> (\<forall>rwl \<in> set (lm_lock_list lm). rwl_inv rwl)"

definition lm_held :: "kv_lm \<Rightarrow> thread \<Rightarrow> nat \<Rightarrow> nat" where
  "lm_held lm t i = (if i < length (lm_lock_list lm) then rwl_held (lm_lock_list lm ! i) t else 0)"

lemma slot_less [simp]: "slot key < default_list_size"
  by (simp add: slot_def default_list_size_def)

lemma lm_inv_idx: "lm_inv lm \<Longrightarrow> kv_lm_idx lm key = slot key"
  by (simp add: lm_inv_def kv_lm_idx_def slot_def)

lemma lm_inv_nth: "lm_inv lm \<Longrightarrow> i < default_list_size \<Longrightarrow> rwl_inv (lm_lock_list lm ! i)"
  by (simp add: lm_inv_def)

lemma lm_inv_create: "lm_inv kv_lm_create" "lm_held kv_lm_create t i = 0"
  by (auto simp: lm_inv_def kv_lm_create_def lm_held_def)

lemma lm_inv_update:
  assumes "lm_inv lm" "rwl_inv rwl"
  shows "lm_inv (lm\<lparr>lm_lock_list := (lm_lock_list lm)[i := rwl], lm_counter := c\<rparr>)"
  using assms by (auto simp: lm_inv_def dest: set_update_subset_insert [THEN subsetD])

lemma lm_held_update:
  assumes "lm_inv lm" "i < default_list_size"
  shows "lm_held (lm\<lparr>lm_lock_list := (lm_lock_list lm)[i := rwl], lm_counter := c\<rparr>) u j =
    (if j = i then rwl_held rwl u else lm_held lm u j)"
  using assms by (auto simp: lm_inv_def lm_held_def nth_list_update)

text \<open>
  The contract of a table of key locks: what one acquisition and one release do to the
  number of times each thread holds each slot, when an acquisition waits, and exclusion.
\<close>

locale key_lock =
  fixes acquire :: "thread \<Rightarrow> 's \<Rightarrow> 'k \<Rightarrow> 's res"
    and release :: "thread \<Rightarrow> 's \<Rightarrow> 'k \<Rightarrow> 's"
    and held :: "'s \<Rightarrow> thread \<Rightarrow> nat \<Rightarrow> nat"
    and key_slot :: "'k \<Rightarrow> nat"
    and invar :: "'s \<Rightarrow> bool"
  assumes acquire_inv: "invar s \<Longrightarrow> 0 < t \<Longrightarrow> acquire t s k = Inr s' \<Longrightarrow> invar s'"
    and acquire_held: "invar s \<Longrightarrow> 0 < t \<Longrightarrow> acquire t s k = Inr s' \<Longrightarrow>
      held s' u i = (if u = t \<and> i = key_slot k then held s u i + 1 else held s u i)"
    and acquire_free: "invar s \<Longrightarrow> 0 < t \<Longrightarrow> (\<And>u. u \<noteq> t \<Longrightarrow> held s u (key_slot k) = 0) \<Longrightarrow>
      \<exists>s'. acquire t s k = Inr s'"
    and acquire_waits: "invar s \<Longrightarrow> 0 < t \<Longrightarrow> u \<noteq> t \<Longrightarrow> 0 < held s u (key_slot k) \<Longrightarrow>
      acquire t s k = Inl Blocked"
    and release_inv: "invar s \<Longrightarrow> 0 < t \<Longrightarrow> invar (release t s k)"
    and release_held: "invar s \<Longrightarrow> 0 < t \<Longrightarrow>
      held (release t s k) u i = (if u = t \<and> i = key_slot k then held s u i - 1 else held s u i)"
    and exclusive: "invar s \<Longrightarrow> 0 < held s t i \<Longrightarrow> 0 < held s u i \<Longrightarrow> t = u"
begin

definition release_list :: "thread \<Rightarrow> 'k list \<Rightarrow> 's \<Rightarrow> 's" where
  "release_list t ks s = fold (\<lambda>k s. release t s k) ks s"

text \<open>\<open>ks\<close> accounts for every time the thread holds a slot.\<close>

definition holds_exactly :: "'s \<Rightarrow> thread \<Rightarrow> 'k list \<Rightarrow> bool" where
  "holds_exactly s t ks \<longleftrightarrow> (\<forall>i. held s t i = length (filter (\<lambda>k. key_slot k = i) ks))"

lemma release_list_simps [simp]:
  "release_list t [] s = s"
  "release_list t (k # ks) s = release_list t ks (release t s k)"
  "release_list t (ks @ ls) s = release_list t ls (release_list t ks s)"
  by (simp_all add: release_list_def)

lemma release_list_inv: "invar s \<Longrightarrow> 0 < t \<Longrightarrow> invar (release_list t ks s)"
  by (induction ks arbitrary: s) (auto simp: release_inv)

lemma release_list_held:
  "invar s \<Longrightarrow> 0 < t \<Longrightarrow> held (release_list t ks s) u i =
     (if u = t then held s u i - length (filter (\<lambda>k. key_slot k = i) ks) else held s u i)"
proof (induction ks arbitrary: s)
  case (Cons k ks)
  have "invar (release t s k)" by (rule release_inv [OF Cons.prems])
  from Cons.IH [OF this Cons.prems(2)] release_held [OF Cons.prems, of k]
  show ?case by auto
qed simp

lemma acquire_holds:
  assumes "invar s" "0 < t" "holds_exactly s t ks" "acquire t s k = Inr s'"
  shows "holds_exactly s' t (ks @ [k])"
  using assms(3) acquire_held [OF assms(1,2,4)] by (simp add: holds_exactly_def)

lemma other_holds:
  assumes "invar s" "0 < t" "acquire t s k = Inr s'" "u \<noteq> t"
  shows "holds_exactly s' u ks = holds_exactly s u ks"
  using acquire_held [OF assms(1-3)] assms(4) by (simp add: holds_exactly_def)

text \<open>Releasing, in any order, once for each acquisition frees all the thread held.\<close>

lemma release_all:
  assumes "invar s" "0 < t" "holds_exactly s t ks" "mset ls = mset ks"
  shows "holds_exactly (release_list t ls s) t []"
proof -
  have "length (filter P ls) = length (filter P ks)" for P
    using assms(4) by (metis mset_filter size_mset)
  then show ?thesis using assms(3) release_list_held [OF assms(1,2)] by (simp add: holds_exactly_def)
qed

lemma release_list_other:
  assumes "invar s" "0 < t" "u \<noteq> t"
  shows "holds_exactly (release_list t ls s) u ks = holds_exactly s u ks"
  using release_list_held [OF assms(1,2)] assms(3) by (simp add: holds_exactly_def)

lemma release_nothing:
  assumes "invar s" "0 < t" "holds_exactly s t []"
  shows "held (release t s k) = held s"
  using release_held [OF assms(1,2), of k] assms(3) by (auto simp: fun_eq_iff holds_exactly_def)

text \<open>A key in a transaction's list keeps every other thread out of its slot.\<close>

lemma holder_excludes:
  assumes "invar s" "0 < u" "holds_exactly s t ks" "k \<in> set ks" "key_slot l = key_slot k" "u \<noteq> t"
  shows "acquire u s l = Inl Blocked"
proof (rule acquire_waits [OF assms(1,2), of t])
  have "filter (\<lambda>j. key_slot j = key_slot k) ks \<noteq> []" using assms(4) by (auto simp: filter_empty_conv)
  then show "0 < held s t (key_slot l)" using assms(3,5) by (simp add: holds_exactly_def)
qed (use assms(6) in simp)

end

lemma lm_wlock_ok:
  assumes "lm_inv lm" "0 < t" "kv_lm_wlock t lm key = Inr lm'"
  shows "lm_inv lm'"
    "lm_held lm' u i = (if u = t \<and> i = slot key then lm_held lm u i + 1 else lm_held lm u i)"
proof -
  have i: "slot key < default_list_size" by simp
  obtain rwl where rwl: "kv_rwl_wlock t (lm_lock_list lm ! slot key) = Inr rwl"
    "lm' = lm\<lparr>lm_lock_list := (lm_lock_list lm)[slot key := rwl], lm_counter := lm_counter lm + 1\<rparr>"
    using assms(3) by (auto simp: kv_lm_wlock_def lm_inv_idx [OF assms(1)] Let_def res_iff)
  note ok = rwl_wlock_ok [OF lm_inv_nth [OF assms(1) i] assms(2) rwl(1)]
  show "lm_inv lm'" unfolding rwl(2) by (rule lm_inv_update [OF assms(1) ok(1)])
  show "lm_held lm' u i = (if u = t \<and> i = slot key then lm_held lm u i + 1 else lm_held lm u i)"
    unfolding rwl(2) lm_held_update [OF assms(1) slot_less] ok(2)
    using assms(1) by (auto simp: lm_held_def lm_inv_def)
qed

lemma lm_wlock_cases:
  assumes "lm_inv lm" "0 < t"
  shows "kv_lm_wlock t lm key = Inl Blocked \<longleftrightarrow> (\<exists>u. u \<noteq> t \<and> 0 < lm_held lm u (slot key))"
    "kv_lm_wlock t lm key = Inl e \<Longrightarrow> e = Blocked"
proof -
  have i: "slot key < default_list_size" by simp
  note rw = rwl_wlock_blocked_iff [OF lm_inv_nth [OF assms(1) i] assms(2)]
  show "kv_lm_wlock t lm key = Inl Blocked \<longleftrightarrow> (\<exists>u. u \<noteq> t \<and> 0 < lm_held lm u (slot key))"
    using rw(1) assms(1)
    by (simp add: kv_lm_wlock_def lm_inv_idx [OF assms(1)] Let_def bind_res_Inl_iff lm_held_def lm_inv_def)
  show "kv_lm_wlock t lm key = Inl e \<Longrightarrow> e = Blocked"
    using rw(2) by (auto simp: kv_lm_wlock_def lm_inv_idx [OF assms(1)] Let_def bind_res_Inl_iff)
qed

lemma lm_unlock_ok:
  assumes "lm_inv lm" "0 < t"
  shows "lm_inv (kv_lm_unlock t lm key)"
    "lm_held (kv_lm_unlock t lm key) u i = (if u = t \<and> i = slot key then lm_held lm u i - 1 else lm_held lm u i)"
proof -
  have i: "slot key < default_list_size" by simp
  note ok = rwl_unlock_ok [OF lm_inv_nth [OF assms(1) i] assms(2)]
  show "lm_inv (kv_lm_unlock t lm key)"
    unfolding kv_lm_unlock_def Let_def lm_inv_idx [OF assms(1)] by (rule lm_inv_update [OF assms(1) ok(1)])
  show "lm_held (kv_lm_unlock t lm key) u i = (if u = t \<and> i = slot key then lm_held lm u i - 1 else lm_held lm u i)"
    unfolding kv_lm_unlock_def Let_def lm_inv_idx [OF assms(1)] lm_held_update [OF assms(1) slot_less] ok(2)
    using assms(1) by (auto simp: lm_held_def lm_inv_def)
qed

lemma lm_exclusive: "lm_inv lm \<Longrightarrow> 0 < lm_held lm t i \<Longrightarrow> 0 < lm_held lm u i \<Longrightarrow> t = u"
  using rwl_exclusive lm_inv_nth by (fastforce simp: lm_held_def lm_inv_def split: if_splits)

interpretation lm: key_lock kv_lm_wlock kv_lm_unlock lm_held slot lm_inv
proof
  fix lm t key assume "lm_inv lm" "0 < t" "\<And>u. u \<noteq> t \<Longrightarrow> lm_held lm u (slot key) = 0"
  then show "\<exists>lm'. kv_lm_wlock t lm key = Inr lm'"
    using lm_wlock_cases [of lm t key] by (cases "kv_lm_wlock t lm key") fastforce+
next
  fix lm t u key assume "lm_inv lm" "0 < t" "u \<noteq> t" "0 < lm_held lm u (slot key)"
  then show "kv_lm_wlock t lm key = Inl Blocked" using lm_wlock_cases(1) by blast
qed (rule lm_wlock_ok lm_unlock_ok lm_exclusive; assumption)+

section \<open>Properties\<close>

text \<open>
  C32. \<open>kv_rwl_rlock\<close> and \<open>kv_rwl_wlock\<close> are the same operation, so two readers exclude each
  other: a key asked for, to read or to write, by a thread other than the holder of its slot
  waits, and it is granted whenever no other thread holds the slot.
\<close>

theorem lock_granted_iff:
  assumes "lm_inv lm" "0 < t"
  shows "((\<exists>lm'. kv_lm_rlock t lm key = Inr lm') \<longleftrightarrow> (\<forall>u. u = t \<or> lm_held lm u (slot key) = 0))
     \<and> kv_lm_rlock t lm key = kv_lm_wlock t lm key"
proof -
  have "(\<exists>lm'. kv_lm_wlock t lm key = Inr lm') \<longleftrightarrow> (\<forall>u. u = t \<or> lm_held lm u (slot key) = 0)"
    using lm.acquire_free [OF assms, of key] lm.acquire_waits [OF assms, of _ key]
    by (metis Inl_Inr_False neq0_conv)
  then show ?thesis by (simp add: rlock_is_wlock)
qed

theorem lock_granted_iff_witness:
  "\<exists>lm. kv_lm_wlock 1 kv_lm_create ''k'' = Inr lm \<and> kv_lm_rlock 2 lm ''k'' = kv_lm_wlock 2 lm ''k'' \<and>
     \<not> (\<exists>lm'. kv_lm_rlock 2 lm ''k'' = Inr lm') \<and> (\<exists>lm'. kv_lm_rlock 1 lm ''k'' = Inr lm')"
proof -
  obtain lm where lm: "kv_lm_wlock 1 kv_lm_create ''k'' = Inr lm"
    using lm.acquire_free [OF lm_inv_create(1), of 1 "''k''"] lm_inv_create(2) by auto
  have inv: "lm_inv lm" using lm.acquire_inv [OF lm_inv_create(1) _ lm] by simp
  have h: "lm_held lm u (slot ''k'') = (if u = 1 then 1 else 0)" for u
    using lm.acquire_held [OF lm_inv_create(1) _ lm, of u "slot ''k''"] lm_inv_create(2) by simp
  have "\<not> (\<exists>lm'. kv_lm_rlock 2 lm ''k'' = Inr lm')"
    using lock_granted_iff [OF inv, of 2 "''k''"] h [of 1] by (metis numeral_One one_neq_zero zero_less_numeral numeral_eq_iff semiring_norm(85))
  moreover have "\<exists>lm'. kv_lm_rlock 1 lm ''k'' = Inr lm'"
    by (rule lock_granted_iff [OF inv, of 1 "''k''", OF zero_less_one, THEN conjunct1, THEN iffD2]) (simp add: h)
  moreover have "kv_lm_rlock 2 lm ''k'' = kv_lm_wlock 2 lm ''k''"
    using lock_granted_iff [OF inv, of 2 "''k''"] by simp
  ultimately show ?thesis using lm by blast
qed

fun lock_all :: "thread \<Rightarrow> string list \<Rightarrow> kv_lm \<Rightarrow> kv_lm res" where
  "lock_all t [] lm = Inr lm"
| "lock_all t (k # ks) lm = bind_res (kv_lm_wlock t lm k) (lock_all t ks)"

lemma lock_all_holds:
  "lm_inv lm \<Longrightarrow> 0 < t \<Longrightarrow> lm.holds_exactly lm t ls \<Longrightarrow> lock_all t ks lm = Inr lm' \<Longrightarrow>
     lm_inv lm' \<and> lm.holds_exactly lm' t (ls @ ks) \<and> (\<forall>u i. u \<noteq> t \<longrightarrow> lm_held lm' u i = lm_held lm u i)"
proof (induction ks arbitrary: lm ls)
  case (Cons k ks)
  then obtain lm1 where l: "kv_lm_wlock t lm k = Inr lm1" "lock_all t ks lm1 = Inr lm'"
    by (auto simp: res_iff)
  have "lm_inv lm1" "lm.holds_exactly lm1 t (ls @ [k])"
    using lm.acquire_inv lm.acquire_holds l(1) Cons.prems by blast+
  with Cons.IH [of lm1 "ls @ [k]"] l(2) Cons.prems show ?case
    using lm.acquire_held [OF Cons.prems(1,2) l(1)] by auto
qed simp

text \<open>
  C33. The locks of a transaction: whatever keys a thread locked, in whatever order and how often,
  with keys sharing slots or not, one release per acquisition, in any order, leaves it with
  nothing held, and changes nothing for any other thread.
\<close>

theorem lock_release_balanced:
  assumes "lm_inv lm" "0 < t" "lm_held lm t = (\<lambda>_. 0)" "lock_all t ks lm = Inr lm'" "mset ls = mset ks"
  shows "lm_held (fold (\<lambda>k lm. kv_lm_unlock t lm k) ls lm') u i = lm_held lm u i
     \<and> lm_inv (fold (\<lambda>k lm. kv_lm_unlock t lm k) ls lm')"
proof -
  have h0: "lm.holds_exactly lm t []" using assms(3) by (simp add: lm.holds_exactly_def)
  note l = lock_all_holds [OF assms(1,2) h0 assms(4)]
  have inv: "lm_inv lm'" and h: "lm.holds_exactly lm' t ks" using l by simp_all
  show ?thesis
    using lm.release_all [OF inv assms(2) h assms(5)] lm.release_list_inv [OF inv assms(2), of ls]
      lm.release_list_held [OF inv assms(2), of ls] l assms(3)
    by (cases "u = t") (simp_all add: lm.release_list_def lm.holds_exactly_def)
qed

theorem lock_release_balanced_witness:
  "\<exists>lm'. lock_all 1 [''a'', ''b'', ''a''] kv_lm_create = Inr lm' \<and>
     lm_held (fold (\<lambda>k lm. kv_lm_unlock 1 lm k) [''a'', ''a'', ''b''] lm') 1 (slot ''a'') = 0"
proof -
  have "\<exists>lm'. lock_all t ks lm = Inr lm'"
    if "lm_inv lm" "0 < t" "\<And>u i. u \<noteq> t \<Longrightarrow> lm_held lm u i = 0" for t ks lm
    using that
  proof (induction ks arbitrary: lm)
    case (Cons k ks)
    obtain lm1 where l: "kv_lm_wlock t lm k = Inr lm1" using lm.acquire_free [of lm t k] Cons.prems by auto
    show ?case using Cons.IH [of lm1] l lm.acquire_inv [OF _ _ l] lm.acquire_held [OF _ _ l] Cons.prems by auto
  qed simp
  from this [of kv_lm_create 1] obtain lm' where "lock_all 1 [''a'', ''b'', ''a''] kv_lm_create = Inr lm'"
    using lm_inv_create zero_less_one by blast
  moreover have "lm_held kv_lm_create 1 = (\<lambda>_. 0)" using lm_inv_create(2) by blast
  ultimately show ?thesis
    using lock_release_balanced [of kv_lm_create 1 "[''a'', ''b'', ''a'']" lm' "[''a'', ''a'', ''b'']"]
      lm_inv_create by auto
qed

end
