(* ===== verification/Transaction.thy ===== *)
theory Transaction
  imports Kv_Key Kv_Log Lock
begin

text \<open>
  \<open>transaction.c\<close>: a transaction with its identifier, the list of keys it locked and the
  number of its last log record, and its rollback: the log records of the transaction are
  followed backwards from the last one, each update is compensated in the log and in the
  table, and an END record closes the transaction.

  The lemmas show that the rollback of a transaction whose records form a chain in the log
  returns, leaves a well-formed log with one CLR record per update and one END record, and
  restores the contents the table had when the transaction began.
\<close>

section \<open>Definitions\<close>

text \<open>
  The doubly linked list of locked keys, correctly linked by \<open>kv_tx_add_lock\<close> and owned by
  the transaction, is the list of the keys from the first one to \<open>lock_tail\<close>, empty when
  \<open>lock_tail\<close> is null.  Whether \<open>lock_head\<close> is null is kept apart, because
  \<open>kv_tx_unlock_all\<close> resets only \<open>lock_tail\<close>: a key added after it would be linked behind
  a null \<open>lock_tail\<close>.
\<close>

record kv_tx =
  tx_id :: u32
  tx_head_null :: bool
  tx_locks :: "string list"
  tx_last_lsn :: u32

definition kv_tx_create :: "u32 \<Rightarrow> kv_tx" where
  "kv_tx_create new_id = \<lparr>tx_id = new_id, tx_head_null = True, tx_locks = [], tx_last_lsn = 0\<rparr>"

definition kv_tx_get_id :: "kv_tx \<Rightarrow> u32" where
  "kv_tx_get_id tx = tx_id tx"

definition kv_tx_last_lsn :: "kv_tx \<Rightarrow> u32" where
  "kv_tx_last_lsn tx = tx_last_lsn tx"

definition kv_tx_set_last_lsn :: "kv_tx \<Rightarrow> u32 \<Rightarrow> kv_tx" where
  "kv_tx_set_last_lsn tx new_lsn = tx\<lparr>tx_last_lsn := new_lsn\<rparr>"

definition kv_tx_add_lock :: "kv_tx \<Rightarrow> string \<Rightarrow> kv_tx res" where
  "kv_tx_add_lock tx key =
     (if tx_head_null tx then Inr (tx\<lparr>tx_head_null := False, tx_locks := [key]\<rparr>)
      else if tx_locks tx = [] then Inl Null_Deref
      else Inr (tx\<lparr>tx_locks := tx_locks tx @ [key]\<rparr>))"

text \<open>The list is emptied from its tail; \<open>ks\<close> is the list from the tail.\<close>

fun unlock_loop :: "thread \<Rightarrow> string list \<Rightarrow> kv_lm \<Rightarrow> kv_lm" where
  "unlock_loop self [] lm = lm"
| "unlock_loop self (k # ks) lm = unlock_loop self ks (kv_lm_unlock self lm k)"

definition kv_tx_unlock_all :: "thread \<Rightarrow> kv_lm \<Rightarrow> kv_tx \<Rightarrow> kv_lm \<times> kv_tx" where
  "kv_tx_unlock_all self lm tx = (unlock_loop self (rev (tx_locks tx)) lm, tx\<lparr>tx_locks := []\<rparr>)"

text \<open>
  The loop of \<open>kv_tx_rollback\<close> at record number \<open>next_crl_lsn\<close>.  A missing record ends the
  process.  The fuel bounds the number of records visited.
\<close>

fun rollback_loop ::
  "nat \<Rightarrow> u32 \<Rightarrow> kv_tx \<Rightarrow> kv_table \<Rightarrow> kv_rec \<Rightarrow> (kv_tx \<times> kv_table \<times> kv_rec) res" where
  "rollback_loop 0 next_crl_lsn tx ht st = Inl Out_Of_Fuel"
| "rollback_loop (Suc fuel) next_crl_lsn tx ht st =
     bind_res (kv_recovery_get_log next_crl_lsn (recovery_file st)) (\<lambda>log_line.
     case log_line of
       None \<Rightarrow> Inl Exit1
     | Some l \<Rightarrow>
         if log_type l = KV_REC_BEGIN then Inr (tx, ht, st)
         else if log_type l \<noteq> KV_REC_UPDATE then
           rollback_loop fuel (log_prev_lsn l) tx ht st
         else if length (log_old_val l) \<noteq> 0 then
           bind_res (kv_recovery_clr_log (kv_tx_last_lsn tx) (kv_tx_get_id tx) (log_prev_lsn l)
               (log_key l) (log_new_val l) (log_old_val l) st) (\<lambda>(new_lsn, st).
           rollback_loop fuel (log_prev_lsn l) (kv_tx_set_last_lsn tx new_lsn)
             (snd (kv_ht_set ht (log_key l) (log_old_val l))) st)
         else if length (log_new_val l) = 0 then
           bind_res (kv_recovery_clr_log (kv_tx_last_lsn tx) (kv_tx_get_id tx) (log_prev_lsn l)
               (log_key l) [] [] st) (\<lambda>(new_lsn, st).
           rollback_loop fuel (log_prev_lsn l) (kv_tx_set_last_lsn tx new_lsn) ht st)
         else
           bind_res (kv_recovery_clr_log (kv_tx_last_lsn tx) (kv_tx_get_id tx) (log_prev_lsn l)
               (log_key l) (log_new_val l) [] st) (\<lambda>(new_lsn, st).
           rollback_loop fuel (log_prev_lsn l) (kv_tx_set_last_lsn tx new_lsn)
             (snd (kv_ht_del ht (log_key l))) st))"

text \<open>
  Every record takes at least one character, so the length of the file bounds the number
  of records a chain without repetition can visit.
\<close>

definition kv_tx_rollback ::
  "kv_tx \<Rightarrow> kv_table \<Rightarrow> kv_rec \<Rightarrow> (kv_tx \<times> kv_table \<times> kv_rec) res" where
  "kv_tx_rollback tx ht st =
     bind_res (rollback_loop (length (recovery_file st) + 1) (kv_tx_last_lsn tx) tx ht st)
       (\<lambda>(tx, ht, st).
     let (new_lsn, st) = kv_recovery_end_log (tx_last_lsn tx) (tx_id tx) st in
     Inr (kv_tx_set_last_lsn tx new_lsn, ht, st))"

section \<open>Chains of records\<close>

text \<open>
  A log stores the value of a key as a string, empty for an absent key.
\<close>

definition val_of :: "string \<Rightarrow> string option" where
  "val_of s = (if s = [] then None else Some s)"

definition str_of :: "string option \<Rightarrow> string" where
  "str_of v = (case v of None \<Rightarrow> [] | Some s \<Rightarrow> s)"

record upd =
  upd_key :: string
  upd_old :: string
  upd_new :: string

definition rec_upd :: "kv_recovery_log_line \<Rightarrow> upd" where
  "rec_upd r = \<lparr>upd_key = log_key r, upd_old = log_old_val r, upd_new = log_new_val r\<rparr>"

text \<open>
  \<open>chain rs n us\<close>: following the previous-record numbers from record \<open>n\<close> of the log \<open>rs\<close>
  leads to a BEGIN record, and the UPDATE records met are \<open>us\<close>, oldest first.
\<close>

inductive chain :: "kv_recovery_log_line list \<Rightarrow> nat \<Rightarrow> upd list \<Rightarrow> bool" for rs where
  chain_begin: "0 < n \<Longrightarrow> n \<le> length rs \<Longrightarrow> log_type (rs ! (n - 1)) = KV_REC_BEGIN \<Longrightarrow> chain rs n []"
| chain_update: "0 < n \<Longrightarrow> n \<le> length rs \<Longrightarrow> log_type (rs ! (n - 1)) = KV_REC_UPDATE \<Longrightarrow>
    log_prev_lsn (rs ! (n - 1)) = of_nat m \<Longrightarrow> m < n \<Longrightarrow> chain rs m us \<Longrightarrow>
    chain rs n (us @ [rec_upd (rs ! (n - 1))])"
| chain_skip: "0 < n \<Longrightarrow> n \<le> length rs \<Longrightarrow> log_type (rs ! (n - 1)) \<noteq> KV_REC_BEGIN \<Longrightarrow>
    log_type (rs ! (n - 1)) \<noteq> KV_REC_UPDATE \<Longrightarrow>
    log_prev_lsn (rs ! (n - 1)) = of_nat m \<Longrightarrow> m < n \<Longrightarrow> chain rs m us \<Longrightarrow> chain rs n us"

text \<open>What the compensation of one update does to the contents.\<close>

definition undo_upd :: "upd \<Rightarrow> (string \<rightharpoonup> string) \<Rightarrow> (string \<rightharpoonup> string)" where
  "undo_upd u m = (if upd_old u = [] \<and> upd_new u = [] then m
                   else m(upd_key u := val_of (upd_old u)))"

definition upd_write :: "upd \<Rightarrow> (string, string) kv_write" where
  "upd_write u = (upd_key u, val_of (upd_new u))"

text \<open>
  The old values recorded are those of the contents \<open>m\<close> the updates started from, and no
  stored value is empty.
\<close>

fun consistent :: "upd list \<Rightarrow> (string \<rightharpoonup> string) \<Rightarrow> bool" where
  "consistent [] m = True"
| "consistent (u # us) m =
     (m (upd_key u) = val_of (upd_old u) \<and> (upd_old u \<noteq> [] \<or> upd_new u \<noteq> [])
      \<and> consistent us (map_write (upd_write u) m))"

lemma val_str [simp]: "val_of (str_of v) = v \<longleftrightarrow> v \<noteq> Some []" "str_of (val_of s) = s"
  by (auto simp: val_of_def str_of_def split: option.split)

lemma nth_append_first: "0 < n \<Longrightarrow> n \<le> length rs \<Longrightarrow> (rs @ qs) ! (n - 1) = rs ! (n - 1)"
  by (cases n) (simp_all add: nth_append)

lemma chain_append: "chain rs n us \<Longrightarrow> chain (rs @ qs) n us"
proof (induction rule: chain.induct)
  case (chain_begin n)
  then show ?case using chain.chain_begin [of n "rs @ qs"] nth_append_first [of n rs qs] by simp
next
  case (chain_update n m us)
  then show ?case using chain.chain_update [of n "rs @ qs" m us] nth_append_first [of n rs qs] by simp
next
  case (chain_skip n m us)
  then show ?case using chain.chain_skip [of n "rs @ qs" m us] nth_append_first [of n rs qs] by simp
qed

lemma chain_bounds: "chain rs n us \<Longrightarrow> 0 < n \<and> n \<le> length rs \<and> length us < n"
  by (induction rule: chain.induct) auto

lemma chain_snoc_skip:
  assumes "chain rs (unat prev) us" "log_prev_lsn r = prev"
    "log_type r \<noteq> KV_REC_BEGIN" "log_type r \<noteq> KV_REC_UPDATE"
  shows "chain (rs @ [r]) (length rs + 1) us"
proof (rule chain_skip [where m = "unat prev"])
  show "unat prev < length rs + 1" using chain_bounds [OF assms(1)] by simp
qed (use assms chain_append [OF assms(1)] in simp_all)

lemma chain_snoc_update:
  assumes "chain rs (unat prev) us" "log_prev_lsn r = prev" "log_type r = KV_REC_UPDATE"
  shows "chain (rs @ [r]) (length rs + 1) (us @ [rec_upd r])"
proof -
  have "chain (rs @ [r]) (length rs + 1) (us @ [rec_upd ((rs @ [r]) ! (length rs + 1 - 1))])"
    by (rule chain_update [where m = "unat prev"])
      (use assms chain_append [OF assms(1)] chain_bounds [OF assms(1)] in simp_all)
  then show ?thesis by simp
qed

lemma consistent_append:
  "consistent (us @ vs) m \<longleftrightarrow> consistent us m \<and> consistent vs (map_writes (map upd_write us) m)"
  by (induction us arbitrary: m) auto

text \<open>Undoing consistent updates from the last one restores the contents.\<close>

lemma undo_consistent:
  "consistent us m \<Longrightarrow> fold undo_upd (rev us) (map_writes (map upd_write us) m) = m"
proof (induction us arbitrary: m)
  case (Cons u us)
  then have "fold undo_upd (rev us) (map_writes (map upd_write us) (map_write (upd_write u) m)) = map_write (upd_write u) m"
    by simp
  moreover have "undo_upd u (map_write (upd_write u) m) = m"
    using Cons.prems by (auto simp: undo_upd_def upd_write_def)
  ultimately show ?case by simp
qed simp

lemma map_writes_key: "m k = m' k \<Longrightarrow> map_writes ws m k = map_writes ws m' k"
proof (induction ws arbitrary: m m')
  case (Cons w ws)
  have "map_write w m k = map_write w m' k" using Cons.prems by (simp add: map_write_def)
  then show ?case using Cons.IH [of "map_write w m" "map_write w m'"] by simp
qed simp

lemma undo_upd_key: "m k = m' k \<Longrightarrow> fold undo_upd us m k = fold undo_upd us m' k"
proof (induction us arbitrary: m m')
  case (Cons u us)
  have "undo_upd u m k = undo_upd u m' k" using Cons.prems by (simp add: undo_upd_def)
  then show ?case using Cons.IH [of "undo_upd u m" "undo_upd u m'"] by simp
qed simp

lemma undo_upd_other: "k \<notin> upd_key ` set us \<Longrightarrow> fold undo_upd us m k = m k"
  by (induction us arbitrary: m) (auto simp: undo_upd_def)

text \<open>
  The same key by key: it is enough that the contents agree with the updates on the keys
  updated, which is what the locks of a transaction ensure when others run beside it.
\<close>

lemma undo_consistent_on:
  assumes "consistent us m" "\<forall>k \<in> upd_key ` set us. now k = map_writes (map upd_write us) m k"
  shows "fold undo_upd (rev us) now = (\<lambda>k. if k \<in> upd_key ` set us then m k else now k)"
proof
  fix k
  show "fold undo_upd (rev us) now k = (if k \<in> upd_key ` set us then m k else now k)"
  proof (cases "k \<in> upd_key ` set us")
    case True
    then have "fold undo_upd (rev us) now k = fold undo_upd (rev us) (map_writes (map upd_write us) m) k"
      using assms(2) by (intro undo_upd_key) blast
    then show ?thesis using True undo_consistent [OF assms(1)] by simp
  next
    case False
    then show ?thesis using undo_upd_other [of k "rev us" now] by simp
  qed
qed

lemma log_rep_small:
  assumes "log_rep st rs" "r \<in> set rs" "log_type r = KV_REC_UPDATE"
  shows "small_str (log_key r)" "small_str (log_old_val r)" "small_str (log_new_val r)"
  using assms by (auto simp: log_rep_def line_ok_def)

lemma small_str_Nil [simp]: "small_str []" by (simp add: small_str_def)

text \<open>
  The records a rollback writes: one for each update, in the order they are undone, with the
  value written back.
\<close>

definition clr_records :: "u32 \<Rightarrow> upd list \<Rightarrow> kv_recovery_log_line list \<Rightarrow> bool" where
  "clr_records txid us qs \<longleftrightarrow> length qs = length us \<and> (\<forall>i < length qs. log_type (qs ! i) = KV_REC_CLR 
      \<and> log_tx_id (qs ! i) = txid \<and> log_key (qs ! i) = upd_key (us ! i) \<and> log_new_val (qs ! i) = upd_old (us ! i))"

lemma rollback_loop_correct:
  assumes "chain rs n us" "log_rep st (rs @ qs)" "n < fuel" "length rs + length qs + length us < 2 ^ 32"
    "ht_inv ht"
  shows "\<exists>tx' ht' st' cs. rollback_loop fuel (of_nat n) tx ht st = Inr (tx', ht', st')
     \<and> log_rep st' (rs @ qs @ cs) \<and> clr_records (tx_id tx) (rev us) cs
     \<and> ht_inv ht' \<and> kv_ht_get ht' = fold undo_upd (rev us) (kv_ht_get ht)
     \<and> tx_id tx' = tx_id tx \<and> tx_locks tx' = tx_locks tx
     \<and> tx_head_null tx' = tx_head_null tx \<and> tx_last_lsn tx' = (if us = [] then tx_last_lsn tx else rec_lsn st')"
  using assms
proof (induction arbitrary: fuel tx ht st qs rule: chain.induct)
  case (chain_begin n)
  then obtain f where f: "fuel = Suc f" by (cases fuel) auto
  have "kv_recovery_get_log (of_nat n) (recovery_file st) = Inr (Some (rs ! (n - 1)))"
    using log.get_in [OF chain_begin.prems(1), of "n - 1"] chain_begin.hyps nth_append_first [of n rs qs] by simp
  then show ?case using chain_begin f by (auto simp: clr_records_def intro!: exI [of _ "[]"])
next
  case (chain_skip n m us)
  then obtain f where f: "fuel = Suc f" by (cases fuel) auto
  have "kv_recovery_get_log (of_nat n) (recovery_file st) = Inr (Some (rs ! (n - 1)))"
    using log.get_in [OF chain_skip.prems(1), of "n - 1"] chain_skip.hyps nth_append_first [of n rs qs] by simp
  then show ?case using chain_skip f by simp
next
  case (chain_update n m us)
  then obtain f where f: "fuel = Suc f" by (cases fuel) auto
  let ?r = "rs ! (n - 1)"
  have get: "kv_recovery_get_log (of_nat n) (recovery_file st) = Inr (Some ?r)"
    using log.get_in [OF chain_update.prems(1), of "n - 1"] chain_update.hyps nth_append_first [of n rs qs] by simp
  have "?r \<in> set (rs @ qs)" using chain_update.hyps by simp
  note small = log_rep_small [OF chain_update.prems(1) this chain_update.hyps(3)]
  let ?c = "clr_rec (rec_lsn st + 1) (tx_last_lsn tx) (tx_id tx) (log_prev_lsn ?r) (log_key ?r) (log_new_val ?r) (log_old_val ?r)"
  let ?st = "append_rec ?c st"
  let ?tx = "kv_tx_set_last_lsn tx (rec_lsn st + 1)"
  let ?ht = "if log_old_val ?r = [] \<and> log_new_val ?r = [] then ht else ht.apply_write (log_key ?r, val_of (log_old_val ?r)) ht"
  have ok: "line_ok ?c" using small by (simp add: line_ok_def clr_rec_def)
  have step: "rollback_loop fuel (of_nat n) tx ht st = rollback_loop f (of_nat m) ?tx ?ht ?st"
    using get chain_update.hyps small
    by (auto simp: f data_change_log_clr kv_tx_last_lsn_def kv_tx_get_id_def val_of_def ht.apply_write_def)
  have rep: "log_rep ?st (rs @ (qs @ [?c]))"
    using log_rep_append [OF chain_update.prems(1) ok] chain_update.prems(3) by (simp add: clr_rec_def)
  have inv: "ht_inv ?ht" using chain_update.prems(4) by (simp add: ht.invar_write)
  obtain tx' ht' st' cs where IH: "rollback_loop f (of_nat m) ?tx ?ht ?st = Inr (tx', ht', st')"
     "log_rep st' (rs @ (qs @ [?c]) @ cs)" "clr_records (tx_id ?tx) (rev us) cs"
     "ht_inv ht'" "kv_ht_get ht' = fold undo_upd (rev us) (kv_ht_get ?ht)"
     "tx_id tx' = tx_id ?tx" "tx_locks tx' = tx_locks ?tx"
     "tx_head_null tx' = tx_head_null ?tx"
     "tx_last_lsn tx' = (if us = [] then tx_last_lsn ?tx else rec_lsn st')"
     "us = [] \<Longrightarrow> cs = []"
    using chain_update.IH [OF rep _ _ inv, of f ?tx] chain_update.prems chain_update.hyps f
    by (fastforce simp: clr_records_def)
  have get': "kv_ht_get ?ht = undo_upd (rec_upd ?r) (kv_ht_get ht)"
    using chain_update.prems(4) by (simp add: undo_upd_def rec_upd_def ht.get_write)
  have "clr_records (tx_id tx) (rev (us @ [rec_upd ?r])) (?c # cs)"
    using IH(3) by (auto simp: clr_records_def nth_Cons clr_rec_def rec_upd_def kv_tx_set_last_lsn_def split: nat.splits)
  moreover have "rec_lsn st' = rec_lsn st + 1" if "us = []"
    using log_rep_lsn [OF IH(2)] log_rep_lsn [OF chain_update.prems(1)] IH(10) that by simp
  ultimately show ?case
    unfolding step IH(1) using IH get' by (intro exI [of _ tx'] exI [of _ ht'] exI [of _ st'] exI [of _ "?c # cs"])
      (auto simp: kv_tx_set_last_lsn_def)
qed


text \<open>
  What a log does to the contents when it is replayed: every UPDATE and CLR record writes its
  new value, nothing else writes.  Replaying the records of a rollback undoes the updates.
\<close>

definition replay_rec :: "kv_recovery_log_line \<Rightarrow> (string \<rightharpoonup> string) \<Rightarrow> (string \<rightharpoonup> string)" where
  "replay_rec r m =
     (if log_type r = KV_REC_UPDATE \<or> log_type r = KV_REC_CLR
      then m(log_key r := val_of (log_new_val r)) else m)"

definition replay :: "kv_recovery_log_line list \<Rightarrow> (string \<rightharpoonup> string) \<Rightarrow> (string \<rightharpoonup> string)" where
  "replay rs m = fold replay_rec rs m"

lemma replay_simps [simp]:
  "replay [] m = m"
  "replay (r # rs) m = replay rs (replay_rec r m)"
  "replay (rs @ qs) m = replay qs (replay rs m)"
  by (simp_all add: replay_def)

lemma replay_skip: "log_type r \<noteq> KV_REC_UPDATE \<Longrightarrow> log_type r \<noteq> KV_REC_CLR \<Longrightarrow> replay_rec r m = m"
  by (simp add: replay_rec_def)

lemma clr_records_Cons:
  "clr_records t (u # us) qs \<longleftrightarrow> (\<exists>r rs. qs = r # rs \<and> log_type r = KV_REC_CLR \<and> log_tx_id r = t
     \<and> log_key r = upd_key u \<and> log_new_val r = upd_old u \<and> clr_records t us rs)"
  by (cases qs) (auto simp: clr_records_def All_less_Suc2)

lemma replay_clr:
  "clr_records t us cs \<Longrightarrow> \<forall>u \<in> set us. upd_old u \<noteq> [] \<or> upd_new u \<noteq> [] \<Longrightarrow>
   replay cs m = fold undo_upd us m"
proof (induction us arbitrary: cs m)
  case Nil
  then show ?case by (simp add: clr_records_def)
next
  case (Cons u us)
  then obtain r rs where r: "cs = r # rs" "log_type r = KV_REC_CLR" "log_key r = upd_key u"
    "log_new_val r = upd_old u" "clr_records t us rs" by (auto simp: clr_records_Cons)
  have "replay_rec r m = undo_upd u m" using Cons.prems(2) r by (auto simp: replay_rec_def undo_upd_def)
  then show ?case using Cons.IH [OF r(5)] Cons.prems(2) r(1) by simp
qed

lemma consistent_effective: "consistent us m \<Longrightarrow> u \<in> set us \<Longrightarrow> upd_old u \<noteq> [] \<or> upd_new u \<noteq> []"
  by (induction us arbitrary: m) auto

text \<open>
  The whole rollback, with the fuel of its definition: it returns, the log is well formed and
  extended by one CLR record per update and one END record, and the table has the contents
  of before the updates.
\<close>

lemma length_log_text: "length rs \<le> length (log_text rs)"
  by (induction rs) (simp_all add: line_text_def)

lemma kv_tx_rollback_correct:
  assumes ch: "chain rs (unat (tx_last_lsn tx)) us" and rep: "log_rep st rs"
    and room: "length rs + length us + 1 < 2 ^ 32" and inv: "ht_inv ht"
  shows "\<exists>tx' ht' st' cs p. kv_tx_rollback tx ht st = Inr (tx', ht', st')
     \<and> log_rep st' (rs @ cs @ [short_rec KV_REC_END (of_nat (length rs + length us + 1)) p (tx_id tx)])
     \<and> clr_records (tx_id tx) (rev us) cs
     \<and> ht_inv ht' \<and> kv_ht_get ht' = fold undo_upd (rev us) (kv_ht_get ht)
     \<and> tx_id tx' = tx_id tx \<and> tx_locks tx' = tx_locks tx \<and> tx_head_null tx' = tx_head_null tx
     \<and> tx_last_lsn tx' = rec_lsn st'"
proof -
  let ?fuel = "length (recovery_file st) + 1"
  have rfile: "recovery_file st = log_text rs" using rep by (simp add: log_rep_def)
  have "unat (tx_last_lsn tx) < ?fuel" using chain_bounds [OF ch] length_log_text [of rs] by (simp add: rfile)
  then obtain tx' ht' st' cs where r: "rollback_loop ?fuel (tx_last_lsn tx) tx ht st = Inr (tx', ht', st')"
     "log_rep st' (rs @ cs)" "clr_records (tx_id tx) (rev us) cs" "ht_inv ht'"
     "kv_ht_get ht' = fold undo_upd (rev us) (kv_ht_get ht)" "tx_id tx' = tx_id tx"
     "tx_locks tx' = tx_locks tx" "tx_head_null tx' = tx_head_null tx"
    using rollback_loop_correct [OF ch, of st "[]" ?fuel ht tx] rep room inv by auto
  let ?e = "short_rec KV_REC_END (rec_lsn st' + 1) (tx_last_lsn tx') (tx_id tx)"
  have len: "length cs = length us" using r(3) by (simp add: clr_records_def)
  have lsn: "rec_lsn st' + 1 = of_nat (length rs + length us + 1)" using log_rep_lsn [OF r(2)] len by simp
  have "log_rep (append_rec ?e st') ((rs @ cs) @ [?e])"
    using r(2) len room by (intro log_rep_append) (simp_all add: short_line_eq(2), simp add: short_rec_def)
  moreover have "kv_tx_rollback tx ht st = Inr (kv_tx_set_last_lsn tx' (rec_lsn st' + 1), ht', append_rec ?e st')"
    unfolding kv_tx_rollback_def kv_tx_last_lsn_def using r by (simp add: simple_logs)
  moreover have "rec_lsn (append_rec ?e st') = rec_lsn st' + 1" by (simp add: append_rec_def short_rec_def)
  ultimately show ?thesis using r lsn unfolding kv_tx_set_last_lsn_def by auto
qed

text \<open>
  A transaction that recorded the values it overwrote is undone completely.
\<close>

lemma kv_tx_rollback_restores:
  assumes "chain rs (unat (tx_last_lsn tx)) us" "log_rep st rs"
    "length rs + length us + 1 < 2 ^ 32" "ht_inv ht"
    "consistent us m" "kv_ht_get ht = map_writes (map upd_write us) m"
  shows "\<exists>tx' ht' st'. kv_tx_rollback tx ht st = Inr (tx', ht', st') \<and> kv_ht_get ht' = m"
  using kv_tx_rollback_correct [OF assms(1-4)] undo_consistent [OF assms(5)] assms(6) by auto

section \<open>The records of one transaction\<close>

text \<open>
  A transaction is open in a log that holds neither a COMMIT nor an ABORT record of it, and has
  ended in one that holds a COMMIT record or an END record behind an ABORT record; \<open>last_of\<close>
  is the number of its last record.
\<close>

definition tx_open :: "u32 \<Rightarrow> kv_recovery_log_line list \<Rightarrow> bool" where
  "tx_open t ls \<longleftrightarrow> (\<forall>l \<in> set ls. log_tx_id l = t \<longrightarrow> log_type l \<noteq> KV_REC_COMMIT \<and> log_type l \<noteq> KV_REC_ABORT)"

definition tx_ended :: "u32 \<Rightarrow> kv_recovery_log_line list \<Rightarrow> bool" where
  "tx_ended t ls \<longleftrightarrow> (\<exists>l \<in> set ls. log_tx_id l = t \<and> log_type l = KV_REC_COMMIT) \<or>
     (\<exists>as l bs. ls = as @ l # bs \<and> log_tx_id l = t \<and> log_type l = KV_REC_ABORT \<and>
        (\<exists>e \<in> set bs. log_tx_id e = t \<and> log_type e = KV_REC_END))"

definition last_of :: "u32 \<Rightarrow> kv_recovery_log_line list \<Rightarrow> u32 \<Rightarrow> u32" where
  "last_of t ls n = foldl (\<lambda>m l. if log_tx_id l = t then log_lsn l else m) n ls"

text \<open>Records of other transactions behind do not matter.\<close>

lemma other_records:
  assumes "\<forall>q \<in> set qs. log_tx_id q \<noteq> t"
  shows "tx_open t (ls @ qs) = tx_open t ls" "last_of t (ls @ qs) n = last_of t ls n"
    "tx_ended t ls \<Longrightarrow> tx_ended t (ls @ qs)"
proof -
  show "tx_open t (ls @ qs) = tx_open t ls" using assms by (auto simp: tx_open_def)
  have "foldl (\<lambda>m l. if log_tx_id l = t then log_lsn l else m) m qs = m" for m
    using assms by (induction qs) auto
  then show "last_of t (ls @ qs) n = last_of t ls n" by (simp add: last_of_def)
  show "tx_ended t ls \<Longrightarrow> tx_ended t (ls @ qs)"
    unfolding tx_ended_def by (elim disjE exE conjE) (force, metis append_Cons append_assoc Un_iff set_append)
qed

lemma tx_records_append [simp]:
  "tx_open t (ls @ qs) \<longleftrightarrow> tx_open t ls \<and> tx_open t qs"
  "last_of t (ls @ qs) n = last_of t qs (last_of t ls n)"
  "last_of t [] n = n" "tx_open t []"
  "last_of t (l # ls) n = last_of t ls (if log_tx_id l = t then log_lsn l else n)"
  by (auto simp: tx_open_def last_of_def)

lemma tx_ended_append: "tx_ended t ls \<or> tx_ended t qs \<Longrightarrow> tx_ended t (ls @ qs)"
  unfolding tx_ended_def by (elim disjE exE conjE) (force, metis append_Cons append_assoc Un_iff set_append, force, metis append_assoc)

section \<open>Releasing the locks\<close>

lemma unlock_loop_eq: "unlock_loop self ks lm = lm.release_list self ks lm"
  by (induction ks arbitrary: lm) simp_all

lemma kv_tx_unlock_all_correct:
  assumes "lm_inv lm" "0 < self" "lm.holds_exactly lm self (tx_locks tx)"
  shows "lm_inv (fst (kv_tx_unlock_all self lm tx))"
    "lm.holds_exactly (fst (kv_tx_unlock_all self lm tx)) self []"
    "u \<noteq> self \<Longrightarrow> lm_held (fst (kv_tx_unlock_all self lm tx)) u i = lm_held lm u i"
    "tx_locks (snd (kv_tx_unlock_all self lm tx)) = []"
  using lm.release_list_inv [OF assms(1,2)] lm.release_all [OF assms, of "rev (tx_locks tx)"]
    lm.release_list_held [OF assms(1,2)]
  by (simp_all add: kv_tx_unlock_all_def unlock_loop_eq)

text \<open>Keys are collected in the order they are locked, until the locks are released.\<close>

definition tx_ok :: "kv_tx \<Rightarrow> bool" where
  "tx_ok tx \<longleftrightarrow> (tx_head_null tx \<longleftrightarrow> tx_locks tx = [])"

lemma kv_tx_add_lock_ok:
  assumes "tx_ok tx"
  shows "kv_tx_add_lock tx key = Inr (tx\<lparr>tx_head_null := False, tx_locks := tx_locks tx @ [key]\<rparr>)"
  using assms by (cases tx) (simp add: kv_tx_add_lock_def tx_ok_def)

lemma kv_tx_add_lock_after_unlock:
  assumes "tx_locks tx \<noteq> []" "tx_ok tx"
  shows "kv_tx_add_lock (snd (kv_tx_unlock_all self lm tx)) key = Inl Null_Deref"
  using assms by (simp add: kv_tx_add_lock_def tx_ok_def kv_tx_unlock_all_def)

section \<open>Properties\<close>

text \<open>
  C21. Rollback: when the previous-record numbers lead from the last record of the transaction
  over its updates \<open>us\<close> back to its BEGIN, and the old values recorded are those of contents
  \<open>m\<close>, then \<open>kv_tx_rollback\<close> returns, whatever records of other transactions lie in between;
  it restores every key the transaction wrote to its value in \<open>m\<close> and touches no other key;
  the log stays well formed and grows by one CLR record for each update, latest first, carrying
  the value written back, and one END record, whose number the transaction keeps.
\<close>

theorem rollback_restores:
  assumes "chain rs (unat (tx_last_lsn tx)) us" "log_rep st rs" "length rs + length us + 1 < 2 ^ 32"
    "ht_inv ht" "consistent us m"
    "\<forall>k \<in> upd_key ` set us. kv_ht_get ht k = map_writes (map upd_write us) m k"
  shows "\<exists>tx' ht' st' cs p. kv_tx_rollback tx ht st = Inr (tx', ht', st') \<and>
     kv_ht_get ht' = (\<lambda>k. if k \<in> upd_key ` set us then m k else kv_ht_get ht k) \<and> ht_inv ht' \<and>
     log_rep st' (rs @ cs @ [short_rec KV_REC_END (of_nat (length rs + length us + 1)) p (tx_id tx)]) \<and>
     map (\<lambda>r. (log_type r, log_tx_id r, log_key r, log_new_val r)) cs =
       map (\<lambda>u. (KV_REC_CLR, tx_id tx, upd_key u, upd_old u)) (rev us) \<and>
     tx_locks tx' = tx_locks tx \<and> unat (tx_last_lsn tx') = length rs + length us + 1"
proof -
  obtain tx' ht' st' cs p where r: "kv_tx_rollback tx ht st = Inr (tx', ht', st')"
     "log_rep st' (rs @ cs @ [short_rec KV_REC_END (of_nat (length rs + length us + 1)) p (tx_id tx)])"
     "clr_records (tx_id tx) (rev us) cs" "ht_inv ht'" "kv_ht_get ht' = fold undo_upd (rev us) (kv_ht_get ht)"
     "tx_locks tx' = tx_locks tx" "tx_last_lsn tx' = rec_lsn st'"
    using kv_tx_rollback_correct [OF assms(1-4)] by blast
  have len: "length cs = length us" using r(3) by (simp add: clr_records_def)
  have "tx_last_lsn tx' = of_nat (length rs + length us + 1)"
    using log_rep_lsn [OF r(2)] r(7) len by simp
  then have "unat (tx_last_lsn tx') = length rs + length us + 1"
    using assms(3) by (simp only: unat_of_nat) (simp add: take_bit_nat_eq_self del: of_nat_add)
  moreover have "map (\<lambda>r. (log_type r, log_tx_id r, log_key r, log_new_val r)) cs =
       map (\<lambda>u. (KV_REC_CLR, tx_id tx, upd_key u, upd_old u)) (rev us)"
    using r(3) by (intro nth_equalityI) (auto simp: clr_records_def)
  moreover have "kv_ht_get ht' = (\<lambda>k. if k \<in> upd_key ` set us then m k else kv_ht_get ht k)"
    unfolding r(5) using undo_consistent_on [OF assms(5,6)] by blast
  ultimately show ?thesis using r by blast
qed

text \<open>A log in which a transaction wrote a key twice, with records of another one in between.\<close>

definition sample_log :: "kv_recovery_log_line list" where
  "sample_log = [short_rec KV_REC_BEGIN 1 0 7, update_rec 2 1 7 ''a'' [] ''x'', short_rec KV_REC_BEGIN 3 0 8,
     update_rec 4 2 7 ''a'' ''x'' ''y'', update_rec 5 3 8 ''b'' [] ''z'']"

definition sample_st :: kv_rec where
  "sample_st = \<lparr>recovery_file = log_text sample_log, rec_lsn = 5\<rparr>"

definition sample_us :: "upd list" where
  "sample_us = [\<lparr>upd_key = ''a'', upd_old = [], upd_new = ''x''\<rparr>, \<lparr>upd_key = ''a'', upd_old = ''x'', upd_new = ''y''\<rparr>]"

lemma sample_rep: "log_rep sample_st sample_log"
  by (simp add: log_rep_def sample_st_def sample_log_def rec_defs line_ok_def small_str_def less_Suc_eq)

lemma sample_chain: "chain sample_log 4 sample_us"
proof -
  have 1: "chain sample_log 1 []" by (rule chain_begin) (simp_all add: sample_log_def rec_defs)
  have 2: "chain sample_log 2 ([] @ [rec_upd (sample_log ! (2 - 1))])"
    by (rule chain_update [OF _ _ _ _ _ 1]) (simp_all add: sample_log_def rec_defs)
  have "chain sample_log 4 (([] @ [rec_upd (sample_log ! (2 - 1))]) @ [rec_upd (sample_log ! (4 - 1))])"
    by (rule chain_update [OF _ _ _ _ _ 2]) (simp_all add: sample_log_def rec_defs)
  then show ?thesis by (simp add: sample_log_def rec_defs rec_upd_def sample_us_def)
qed

theorem rollback_restores_witness:
  "\<exists>ht tx' ht' st'. kv_ht_create 2 str_hash_func str_cmp_func = Inr ht \<and>
     kv_tx_rollback \<lparr>tx_id = 7, tx_head_null = False, tx_locks = [''a''], tx_last_lsn = 4\<rparr>
       (snd (kv_ht_set ht ''a'' ''y'')) sample_st = Inr (tx', ht', st') \<and> kv_ht_get ht' ''a'' = None"
proof -
  let ?tx = "\<lparr>tx_id = 7, tx_head_null = False, tx_locks = [''a''], tx_last_lsn = 4\<rparr>"
  obtain ht :: kv_table where ht: "kv_ht_create 2 str_hash_func str_cmp_func = Inr ht" "ht_inv ht"
    "kv_ht_get ht = Map.empty"
    using kv_ht_create_correct [of 2 str_cmp_func str_hash_func] by auto
  let ?ht = "snd (kv_ht_set ht ''a'' ''y'')"
  have inv: "ht_inv ?ht" using kv_ht_set_correct(1) [OF ht(2)] .
  have us: "upd_key ` set sample_us = {''a''}" by (simp add: sample_us_def)
  have "\<exists>tx' ht' st' cs p. kv_tx_rollback ?tx ?ht sample_st = Inr (tx', ht', st') \<and>
     kv_ht_get ht' = (\<lambda>k. if k \<in> upd_key ` set sample_us then Map.empty k else kv_ht_get ?ht k) \<and> ht_inv ht' \<and>
     log_rep st' (sample_log @ cs @ [short_rec KV_REC_END (of_nat (length sample_log + length sample_us + 1)) p (tx_id ?tx)]) \<and>
     map (\<lambda>r. (log_type r, log_tx_id r, log_key r, log_new_val r)) cs =
       map (\<lambda>u. (KV_REC_CLR, tx_id ?tx, upd_key u, upd_old u)) (rev sample_us) \<and>
     tx_locks tx' = tx_locks ?tx \<and> unat (tx_last_lsn tx') = length sample_log + length sample_us + 1"
  proof (rule rollback_restores [OF _ sample_rep _ inv])
    show "chain sample_log (unat (tx_last_lsn ?tx)) sample_us" using sample_chain by simp
    show "length sample_log + length sample_us + 1 < 2 ^ 32" by (simp add: sample_log_def sample_us_def)
    show "consistent sample_us Map.empty" by (simp add: sample_us_def val_of_def upd_write_def)
    show "\<forall>k \<in> upd_key ` set sample_us. kv_ht_get ?ht k = map_writes (map upd_write sample_us) Map.empty k"
      unfolding us kv_ht_set_correct(2) [OF ht(2)] by (simp add: sample_us_def val_of_def upd_write_def)
  qed
  then obtain tx' ht' st' where r: "kv_tx_rollback ?tx ?ht sample_st = Inr (tx', ht', st')"
    "kv_ht_get ht' = (\<lambda>k. if k \<in> upd_key ` set sample_us then Map.empty k else kv_ht_get ?ht k)" by blast
  have "kv_ht_get ht' ''a'' = None" unfolding r(2) us by simp
  with r(1) ht(1) show ?thesis by blast
qed

fun lock_and_add :: "thread \<Rightarrow> string list \<Rightarrow> kv_lm \<Rightarrow> kv_tx \<Rightarrow> (kv_lm \<times> kv_tx) res" where
  "lock_and_add t [] lm tx = Inr (lm, tx)"
| "lock_and_add t (k # ks) lm tx =
     bind_res (kv_lm_wlock t lm k) (\<lambda>lm. bind_res (kv_tx_add_lock tx k) (lock_and_add t ks lm))"

lemma lock_and_add_holds:
  "lm_inv lm \<Longrightarrow> 0 < t \<Longrightarrow> tx_ok tx \<Longrightarrow> lm.holds_exactly lm t (tx_locks tx) \<Longrightarrow>
   lock_and_add t ks lm tx = Inr (lm', tx') \<Longrightarrow>
     lm_inv lm' \<and> lm.holds_exactly lm' t (tx_locks tx') \<and> tx_locks tx' = tx_locks tx @ ks
     \<and> (\<forall>u i. u \<noteq> t \<longrightarrow> lm_held lm' u i = lm_held lm u i)"
proof (induction ks arbitrary: lm tx)
  case (Cons k ks)
  let ?tx = "tx\<lparr>tx_head_null := False, tx_locks := tx_locks tx @ [k]\<rparr>"
  obtain lm1 where l: "kv_lm_wlock t lm k = Inr lm1" "lock_and_add t ks lm1 ?tx = Inr (lm', tx')"
    using Cons.prems by (auto simp: res_iff kv_tx_add_lock_ok)
  have "lm_inv lm1" "lm.holds_exactly lm1 t (tx_locks ?tx)" "tx_ok ?tx"
    using lm.acquire_inv [OF Cons.prems(1,2) l(1)] lm.acquire_holds [OF Cons.prems(1,2,4) l(1)]
    by (simp_all add: tx_ok_def)
  with Cons.IH [of lm1 ?tx] l(2) Cons.prems show ?case
    using lm.acquire_held [OF Cons.prems(1,2) l(1)] by auto
qed simp

text \<open>
  C31. Ending a transaction releases its locks: the keys collected by \<open>kv_tx_add_lock\<close> while they
  were locked one after the other are all unlocked by \<open>kv_tx_unlock_all\<close>, which leaves the
  thread with no slot and every other thread with what it had.
\<close>

theorem unlock_all_releases:
  assumes "lm_inv lm" "0 < t" "lm_held lm t = (\<lambda>_. 0)"
    "lock_and_add t ks lm (kv_tx_create n) = Inr (lm', tx)"
  shows "lm_held (fst (kv_tx_unlock_all t lm' tx)) = lm_held lm \<and>
     lm_inv (fst (kv_tx_unlock_all t lm' tx)) \<and> tx_locks tx = ks"
proof -
  have h0: "lm.holds_exactly lm t (tx_locks (kv_tx_create n))" using assms(3)
    by (simp add: lm.holds_exactly_def kv_tx_create_def)
  have ok: "tx_ok (kv_tx_create n)" by (simp add: tx_ok_def kv_tx_create_def)
  note l = lock_and_add_holds [OF assms(1,2) ok h0 assms(4)]
  have inv: "lm_inv lm'" and h: "lm.holds_exactly lm' t (tx_locks tx)" using l by auto
  note un = kv_tx_unlock_all_correct [OF inv assms(2) h]
  have "lm_held (fst (kv_tx_unlock_all t lm' tx)) u i = lm_held lm u i" for u i
    using un(2,3) l assms(3) by (cases "u = t") (auto simp: lm.holds_exactly_def)
  then show ?thesis using un(1) l by (auto simp: kv_tx_create_def)
qed

theorem unlock_all_releases_witness:
  "\<exists>lm' tx. lock_and_add 1 [''a'', ''b'', ''a''] kv_lm_create (kv_tx_create 5) = Inr (lm', tx) \<and>
     lm_held (fst (kv_tx_unlock_all 1 lm' tx)) 1 (slot ''a'') = 0"
proof -
  have "\<exists>r. lock_and_add t ks lm tx = Inr r"
    if "lm_inv lm" "0 < t" "tx_ok tx" "\<And>u i. u \<noteq> t \<Longrightarrow> lm_held lm u i = 0" for t ks lm tx
    using that
  proof (induction ks arbitrary: lm tx)
    case (Cons k ks)
    obtain lm1 where l: "kv_lm_wlock t lm k = Inr lm1" using lm.acquire_free [of lm t k] Cons.prems by auto
    show ?case
      using Cons.IH [of lm1 "tx\<lparr>tx_head_null := False, tx_locks := tx_locks tx @ [k]\<rparr>"] l
        lm.acquire_inv [OF _ _ l] lm.acquire_held [OF _ _ l] Cons.prems
      by (simp add: kv_tx_add_lock_ok) (simp add: tx_ok_def)
  qed simp
  from this [of kv_lm_create 1 "kv_tx_create 5"] obtain lm' tx where
    "lock_and_add 1 [''a'', ''b'', ''a''] kv_lm_create (kv_tx_create 5) = Inr (lm', tx)"
    using lm_inv_create zero_less_one by (fastforce simp: tx_ok_def kv_tx_create_def simp del: lock_and_add.simps)
  moreover have "lm_held kv_lm_create 1 = (\<lambda>_. 0)" using lm_inv_create(2) by blast
  ultimately show ?thesis
    using unlock_all_releases [of kv_lm_create 1 "[''a'', ''b'', ''a'']" 5] lm_inv_create by fastforce
qed

end
