(* ===== verification/Tx_Manager.thy ===== *)
theory Tx_Manager
  imports Linked_List Transaction
begin

text \<open>
  \<open>tx_manager.c\<close>: the running transactions, the counter that numbers them and the file
  \<open>tx_id.kvdb\<close> that makes the counter survive a restart.  The list holds pointers; the
  transactions live in a store of their own, so that a change of a transaction by its client
  is seen by the checkpoint, and a pointer to a freed transaction dangles.

  The lemmas show that the numbers handed out are consecutive also across a restart, that
  starting and ending keep the list and the store in step as long as the oldest transaction
  ends first, that ending a younger one reaches an unwritten pointer, and when the array the
  checkpoint fills is large enough.
\<close>

section \<open>Definitions\<close>

record kv_txm =
  transaction_id :: u32
  tx_list :: "nat kv_ll"
  txm_mem :: "nat \<Rightarrow> kv_tx option"
  txm_brk :: nat
  tx_id_file :: string

text \<open>A pointer to a transaction read through, and written through.\<close>

definition tx_read :: "kv_txm \<Rightarrow> nat \<Rightarrow> kv_tx res" where
  "tx_read txm a = (case txm_mem txm a of None \<Rightarrow> Inl Dangling | Some tx \<Rightarrow> Inr tx)"

definition tx_update :: "kv_txm \<Rightarrow> nat \<Rightarrow> kv_tx \<Rightarrow> kv_txm" where
  "tx_update txm a tx = txm\<lparr>txm_mem := (txm_mem txm)(a \<mapsto> tx)\<rparr>"

definition is_tx_equal :: "kv_txm \<Rightarrow> nat \<Rightarrow> nat \<Rightarrow> bool res" where
  "is_tx_equal txm a b =
     bind_res (tx_read txm a) (\<lambda>x.
     bind_res (tx_read txm b) (\<lambda>y. Inr (kv_tx_get_id x = kv_tx_get_id y)))"

text \<open>
  \<open>file\<close> is the content of \<open>tx_id.kvdb\<close>, empty when it was just created.  A seek to before
  the start of the file fails and leaves the position at the end, where \<open>fgets\<close> finds
  nothing.
\<close>

definition kv_txm_init :: "string \<Rightarrow> kv_txm res" where
  "kv_txm_init stored =
     (let pos = length stored;
          txm = (\<lambda>last_id. \<lparr>transaction_id = last_id, tx_list = kv_ll_create, txm_mem = (\<lambda>_. None),
                   txm_brk = 0, tx_id_file = stored\<rparr>)
      in
      if pos = 0 then Inr (txm 0)
      else
        case fgets 9 (if 9 \<le> pos then drop (pos - 9) stored else []) of
          None \<Rightarrow> Inl Exit1
        | Some (last_tx_id_hex, _) \<Rightarrow>
            bind_res (hex_to_uint32 (last_tx_id_hex @ [NUL])) (\<lambda>last_id. Inr (txm last_id)))"

definition kv_txm_start_new_transaction :: "kv_txm \<Rightarrow> (nat \<times> kv_txm) res" where
  "kv_txm_start_new_transaction txm =
     (let new_tx_id = transaction_id txm + 1;
          new_tx = txm_brk txm;
          txm = txm\<lparr>transaction_id := new_tx_id,
                 txm_mem := (txm_mem txm)(new_tx \<mapsto> kv_tx_create new_tx_id), txm_brk := new_tx + 1\<rparr>
      in
      bind_res (kv_ll_add (tx_list txm) new_tx) (\<lambda>ll.
      bind_res (uint32_to_hex (transaction_id txm) (replicate 8 NUL @ [LF, NUL])) (\<lambda>tx_id_hex.
      Inr (new_tx, txm\<lparr>tx_list := ll, tx_id_file := tx_id_file txm @ cstr tx_id_hex\<rparr>))))"

definition kv_txm_end_transaction ::
  "thread \<Rightarrow> kv_lm \<Rightarrow> nat \<Rightarrow> kv_txm \<Rightarrow> (kv_lm \<times> kv_txm) res" where
  "kv_txm_end_transaction self lm a txm =
     bind_res (tx_read txm a) (\<lambda>tx.
     let (lm, tx) = kv_tx_unlock_all self lm tx;
         txm = tx_update txm a tx
     in
     bind_res (kv_ll_del (is_tx_equal txm) (tx_list txm) a) (\<lambda>(_, ll).
     Inr (lm, txm\<lparr>tx_list := ll, txm_mem := (txm_mem txm)(a := None)\<rparr>)))"

text \<open>
  The array for the checkpoint: \<open>malloc (size)\<close> asks for one byte per transaction, and each
  entry takes eight.  How many bytes \<open>malloc (n)\<close> really provides, at least \<open>n\<close>, is the
  allocator's choice \<open>usable\<close>.
\<close>

definition add_data ::
  "(nat \<Rightarrow> nat) \<Rightarrow> nat \<Rightarrow> kv_txm \<Rightarrow> kv_recovery_tx list \<Rightarrow> nat \<Rightarrow> kv_recovery_tx list res" where
  "add_data usable sz txm lwi a =
     bind_res (tx_read txm a) (\<lambda>tx.
     if 8 * length lwi + 8 \<le> usable sz
     then Inr (lwi @ [\<lparr>rtx_id = kv_tx_get_id tx, rtx_last_lsn = kv_tx_last_lsn tx\<rparr>])
     else Inl Out_Of_Bounds)"

text \<open>
  The number of entries \<open>sz\<close> is read first and the list is gone through after that, both without a
  lock that \<open>kv_txm_end_transaction\<close> takes.  \<open>ongoing_ids_at\<close> is the second part, for a number read
  at any time before; the array has \<open>sz\<close> entries for its readers, those behind the ones written
  are unwritten.  A transaction that ends while the list is gone through is not modelled.
\<close>

definition ongoing_ids_at :: "(nat \<Rightarrow> nat) \<Rightarrow> nat \<Rightarrow> kv_txm \<Rightarrow> kv_recovery_tx list res" where
  "ongoing_ids_at usable sz txm =
     (if sz = 0 then Inr []
      else
        bind_res (kv_ll_foreach (tx_list txm) (add_data usable sz txm) []) (\<lambda>ids.
        if length ids < sz then Inl Uninit else Inr ids))"

definition kv_txm_ongoing_transaction_ids ::
  "(nat \<Rightarrow> nat) \<Rightarrow> kv_txm \<Rightarrow> kv_recovery_tx list res" where
  "kv_txm_ongoing_transaction_ids usable txm = ongoing_ids_at usable (kv_ll_size (tx_list txm)) txm"

text \<open>The fuel of the loop of \<open>kv_txm_destroy\<close> is the length of the list plus one.\<close>

fun txm_destroy_loop :: "nat \<Rightarrow> kv_txm \<Rightarrow> kv_txm res" where
  "txm_destroy_loop 0 txm = Inl Out_Of_Fuel"
| "txm_destroy_loop (Suc fuel) txm =
     bind_res (kv_ll_del_tail (tx_list txm)) (\<lambda>(tx_elem, ll).
     case tx_elem of
       None \<Rightarrow> Inr (txm\<lparr>tx_list := ll\<rparr>)
     | Some a \<Rightarrow>
         txm_destroy_loop fuel (txm\<lparr>tx_list := ll, txm_mem := (txm_mem txm)(a := None)\<rparr>))"

definition kv_txm_destroy :: "kv_txm \<Rightarrow> kv_txm res" where
  "kv_txm_destroy txm = txm_destroy_loop (kv_ll_size (tx_list txm) + 1) txm"

section \<open>The invariant\<close>

text \<open>
  \<open>txm_rep txm as\<close>: the list holds the addresses \<open>as\<close>, oldest first, all of live
  transactions with pairwise different numbers, none of them above the counter, and nothing
  else is live.
\<close>

definition txm_rep :: "kv_txm \<Rightarrow> nat list \<Rightarrow> bool" where
  "txm_rep txm as \<longleftrightarrow> ll_rep (tx_list txm) as \<and> distinct as \<and> set as = dom (txm_mem txm)
     \<and> (\<forall>a \<in> set as. a < txm_brk txm)
     \<and> inj_on (\<lambda>a. tx_id (the (txm_mem txm a))) (set as)
     \<and> (\<forall>a \<in> set as. tx_id (the (txm_mem txm a)) \<le> transaction_id txm)"

lemma txm_repD:
  assumes "txm_rep txm as"
  shows "ll_rep (tx_list txm) as" "distinct as" "set as = dom (txm_mem txm)"
    "\<And>a. a \<in> set as \<Longrightarrow> a < txm_brk txm"
    "inj_on (\<lambda>a. tx_id (the (txm_mem txm a))) (set as)"
    "\<And>a. a \<in> set as \<Longrightarrow> tx_id (the (txm_mem txm a)) \<le> transaction_id txm"
  using assms unfolding txm_rep_def by blast+

lemma txm_rep_live: "txm_rep txm as \<Longrightarrow> a \<in> set as \<longleftrightarrow> (\<exists>tx. txm_mem txm a = Some tx)"
  by (auto simp: txm_rep_def)

lemma tx_read_live: "txm_rep txm as \<Longrightarrow> a \<in> set as \<Longrightarrow> tx_read txm a = Inr (the (txm_mem txm a))"
  by (auto simp: txm_rep_live tx_read_def)

lemma tx_read_Inr [simp]: "tx_read txm a = Inr tx \<longleftrightarrow> txm_mem txm a = Some tx"
  by (simp add: tx_read_def split: option.split)

lemma tx_update_simps [simp]:
  "txm_mem (tx_update txm a tx) = (txm_mem txm)(a \<mapsto> tx)"
  "tx_list (tx_update txm a tx) = tx_list txm"
  "transaction_id (tx_update txm a tx) = transaction_id txm"
  "txm_brk (tx_update txm a tx) = txm_brk txm"
  "tx_id_file (tx_update txm a tx) = tx_id_file txm"
  by (simp_all add: tx_update_def)

text \<open>A client that changes its transaction, not its number, keeps the invariant.\<close>

lemma txm_rep_update:
  assumes "txm_rep txm as" "txm_mem txm a = Some tx0" "tx_id tx = tx_id tx0"
  shows "txm_rep (tx_update txm a tx) as"
proof -
  have eq: "tx_id (the (((txm_mem txm)(a \<mapsto> tx)) b)) = tx_id (the (txm_mem txm b))" for b
    using assms(2,3) by simp
  have "a \<in> set as" using assms(1,2) by (auto simp: txm_rep_def)
  moreover from this have "dom ((txm_mem txm)(a \<mapsto> tx)) = dom (txm_mem txm)"
    using assms(1) by (auto simp: txm_rep_def)
  ultimately show ?thesis using assms(1) unfolding txm_rep_def tx_update_simps eq by metis
qed

lemma is_tx_equal_as:
  assumes "txm_rep txm as" "a \<in> set as"
  shows "eq_as (is_tx_equal txm) a (\<lambda>b. b = a) as"
  unfolding eq_as_def
proof
  fix b assume b: "b \<in> set as"
  have "inj_on (\<lambda>a. tx_id (the (txm_mem txm a))) (set as)" by (rule txm_repD(5) [OF assms(1)])
  then have "tx_id (the (txm_mem txm a)) = tx_id (the (txm_mem txm b)) \<longleftrightarrow> b = a"
    using b assms(2) by (auto dest: inj_onD)
  then show "is_tx_equal txm a b = Inr (b = a)"
    using b assms by (simp add: is_tx_equal_def tx_read_live kv_tx_get_id_def del: tx_read_Inr)
qed

section \<open>Starting\<close>

text \<open>The record written to \<open>tx_id.kvdb\<close>.\<close>

lemma tx_id_hex: "uint32_to_hex x (replicate 8 NUL @ [LF, NUL]) = Inr (fmt_08X x @ [LF, NUL])"
  by (simp add: uint32_to_hex_eq)

lemma cstr_tx_id_hex: "cstr (fmt_08X x @ [LF, NUL]) = fmt_08X x @ [LF]"
  using cstr_append_NUL [of "fmt_08X x @ [LF]" "[]"] fmt_08X_clean by simp

lemma start_unfold:
  assumes "kv_ll_add (tx_list txm) (txm_brk txm) = Inr ll"
  shows "kv_txm_start_new_transaction txm = Inr (txm_brk txm,
         \<lparr>transaction_id = transaction_id txm + 1, tx_list = ll,
          txm_mem = (txm_mem txm)(txm_brk txm \<mapsto> kv_tx_create (transaction_id txm + 1)),
          txm_brk = txm_brk txm + 1, tx_id_file = tx_id_file txm @ fmt_08X (transaction_id txm + 1) @ [LF]\<rparr>)"
proof -
  obtain i l m b f where txm: "txm = \<lparr>transaction_id = i, tx_list = l, txm_mem = m, txm_brk = b, tx_id_file = f\<rparr>"
    by (cases txm) blast
  show ?thesis
    using assms unfolding kv_txm_start_new_transaction_def Let_def txm
    by (simp only: kv_txm.simps kv_txm.update_convs bind_res.simps tx_id_hex cstr_tx_id_hex)
qed

lemma start_eq:
  assumes "txm_rep txm as"
  shows "\<exists>ll. ll_rep ll (as @ [txm_brk txm])
     \<and> kv_txm_start_new_transaction txm = Inr (txm_brk txm,
         \<lparr>transaction_id = transaction_id txm + 1, tx_list = ll,
          txm_mem = (txm_mem txm)(txm_brk txm \<mapsto> kv_tx_create (transaction_id txm + 1)),
          txm_brk = txm_brk txm + 1, tx_id_file = tx_id_file txm @ fmt_08X (transaction_id txm + 1) @ [LF]\<rparr>)"
  using ll.add_rep [OF txm_repD(1) [OF assms], of "txm_brk txm"] start_unfold [of txm] by blast

lemma start_rep:
  assumes "txm_rep txm as" "unat (transaction_id txm) + 1 < 2 ^ 32"
    "kv_txm_start_new_transaction txm = Inr (a, txm')"
  shows "txm_rep txm' (as @ [a])" "a \<notin> set as" "txm_mem txm' a = Some (kv_tx_create (transaction_id txm + 1))"
    "\<And>b. b \<noteq> a \<Longrightarrow> txm_mem txm' b = txm_mem txm b" "transaction_id txm' = transaction_id txm + 1"
proof -
  obtain ll where e: "ll_rep ll (as @ [txm_brk txm])" "a = txm_brk txm"
    "txm' = \<lparr>transaction_id = transaction_id txm + 1, tx_list = ll,
          txm_mem = (txm_mem txm)(txm_brk txm \<mapsto> kv_tx_create (transaction_id txm + 1)),
          txm_brk = txm_brk txm + 1, tx_id_file = tx_id_file txm @ fmt_08X (transaction_id txm + 1) @ [LF]\<rparr>"
    using start_eq [OF assms(1)] assms(3) by auto
  show new: "a \<notin> set as" using assms(1) e(2) by (auto simp: txm_rep_def)
  have less: "x < transaction_id txm + 1" if "x \<le> transaction_id txm" for x
    using that assms(2) by (simp add: word_less_nat_alt word_le_nat_alt unat_word_ariths)
  have le: "x \<le> transaction_id txm + 1" if "x \<le> transaction_id txm" for x
    using less [OF that] by (rule order.strict_implies_order)
  have ids: "tx_id (the (txm_mem txm' b)) = (if b = a then transaction_id txm + 1 else tx_id (the (txm_mem txm b)))" for b
    using e by (simp add: kv_tx_create_def)
  have old: "\<forall>b \<in> set as. tx_id (the (txm_mem txm b)) \<le> transaction_id txm"
    "inj_on (\<lambda>a. tx_id (the (txm_mem txm a))) (set as)" using txm_repD(5,6) [OF assms(1)] by auto
  have nid: "tx_id (the (txm_mem txm b)) \<noteq> transaction_id txm + 1" if "b \<in> set as" for b
    using less old(1) that by force
  have "inj_on (\<lambda>a. tx_id (the (txm_mem txm' a))) (set (as @ [a]))"
  proof (rule inj_onI)
    fix x y assume xy: "x \<in> set (as @ [a])" "y \<in> set (as @ [a])"
      "tx_id (the (txm_mem txm' x)) = tx_id (the (txm_mem txm' y))"
    then show "x = y" unfolding ids using nid inj_onD [OF old(2), of x y] by (auto split: if_splits)
  qed
  moreover have "\<forall>b \<in> set (as @ [a]). tx_id (the (txm_mem txm' b)) \<le> transaction_id txm'"
    unfolding ids using old(1) le e by auto
  moreover have "set (as @ [a]) = dom (txm_mem txm')" using assms(1) e by (auto simp: txm_rep_def)
  moreover have "\<forall>b \<in> set (as @ [a]). b < txm_brk txm'"
    using txm_repD(4) [OF assms(1)] e by (auto intro: less_SucI)
  moreover have "ll_rep (tx_list txm') (as @ [a])" "distinct (as @ [a])"
    using assms(1) e new by (auto simp: txm_rep_def)
  ultimately show "txm_rep txm' (as @ [a])" unfolding txm_rep_def by blast
  show "txm_mem txm' a = Some (kv_tx_create (transaction_id txm + 1))"
    "\<And>b. b \<noteq> a \<Longrightarrow> txm_mem txm' b = txm_mem txm b" "transaction_id txm' = transaction_id txm + 1"
    using e by simp_all
qed

section \<open>Ending\<close>

lemma end_oldest:
  assumes rep: "txm_rep txm (a # as)" and tx: "txm_mem txm a = Some tx"
  shows "\<exists>ll. ll_rep ll as \<and> kv_txm_end_transaction self lm a txm =
     Inr (fst (kv_tx_unlock_all self lm tx),
          txm\<lparr>tx_list := ll, txm_mem := (txm_mem txm)(a := None)\<rparr>)"
proof -
  let ?tx = "snd (kv_tx_unlock_all self lm tx)"
  let ?txm = "tx_update txm a ?tx"
  have r: "txm_rep ?txm (a # as)" using rep tx by (rule txm_rep_update) (simp add: kv_tx_unlock_all_def)
  have "\<exists>ll. kv_ll_del (is_tx_equal ?txm) (tx_list ?txm) a = Inr (Some a, ll) \<and> ll_rep ll as"
    using txm_repD(1) [OF r] is_tx_equal_as [OF r, of a] by (intro ll.del_oldest [where P = "\<lambda>b. b = a"]) simp_all
  then obtain ll where "kv_ll_del (is_tx_equal ?txm) (tx_list txm) a = Inr (Some a, ll)" "ll_rep ll as"
    by auto
  then show ?thesis using tx
    by (cases txm) (auto simp: kv_txm_end_transaction_def tx_read_def tx_update_def split: prod.split)
qed

lemma end_oldest_rep:
  assumes "txm_rep txm (a # as)" "ll_rep ll as"
  shows "txm_rep (txm\<lparr>tx_list := ll, txm_mem := (txm_mem txm)(a := None)\<rparr>) as"
  using assms by (auto simp: txm_rep_def inj_on_def)

lemma end_younger:
  assumes rep: "txm_rep txm (b # as)" and a: "a \<in> set as"
  shows "kv_txm_end_transaction self lm a txm = Inl Uninit"
proof -
  obtain tx where tx: "txm_mem txm a = Some tx" using txm_rep_live [OF rep, of a] a by auto
  let ?tx = "snd (kv_tx_unlock_all self lm tx)"
  let ?txm = "tx_update txm a ?tx"
  have r: "txm_rep ?txm (b # as)" using rep tx by (rule txm_rep_update) (simp add: kv_tx_unlock_all_def)
  have "b \<noteq> a" using rep a by (auto simp: txm_rep_def)
  then have "kv_ll_del (is_tx_equal ?txm) (tx_list txm) a = Inl Uninit"
    using r a is_tx_equal_as [OF r, of a] by (intro kv_ll_del_later [where P = "\<lambda>b. b = a"]) (auto simp: txm_rep_def)
  then show ?thesis using tx
    by (auto simp: kv_txm_end_transaction_def tx_read_def split: prod.split)
qed

section \<open>Restart\<close>

text \<open>The file holds one line per transaction started; a restart reads the last one.\<close>

definition id_lines :: "u32 list \<Rightarrow> string" where
  "id_lines xs = concat (map (\<lambda>i. fmt_08X i @ [LF]) xs)"

lemma id_lines_simps [simp]: "id_lines [] = []" "id_lines (xs @ [i]) = id_lines xs @ fmt_08X i @ [LF]"
  by (simp_all add: id_lines_def)

lemma kv_txm_init_eq:
  "kv_txm_init (id_lines xs) = Inr \<lparr>transaction_id = (if xs = [] then 0 else last xs), tx_list = kv_ll_create,
     txm_mem = (\<lambda>_. None), txm_brk = 0, tx_id_file = id_lines xs\<rparr>"
proof (cases xs rule: rev_cases)
  case Nil
  then show ?thesis by (simp add: kv_txm_init_def)
next
  case (snoc ys i)
  have clean: "LF \<notin> set (fmt_08X i)" by (simp add: fmt_08X_clean)
  have "fgets_take 8 (fmt_08X i @ [LF]) = (fmt_08X i, [LF])"
  proof -
    have "fgets_take (length s) (s @ t) = (s, t)" if "LF \<notin> set s" for s t
      using that by (induction s) auto
    from this [OF clean, of "[LF]"] show ?thesis by simp
  qed
  then show ?thesis using snoc hex_to_uint32_fmt [of i "[NUL]"]
    by (simp add: kv_txm_init_def Let_def fgets_def)
qed

lemma kv_txm_init_rep: "kv_txm_init (id_lines xs) = Inr txm \<Longrightarrow> txm_rep txm []"
  by (auto simp: kv_txm_init_eq txm_rep_def kv_ll_create_rep)

section \<open>The checkpoint array\<close>

lemma fold_add_data:
  assumes "\<forall>a \<in> set as. txm_mem txm a \<noteq> None" "8 * (length acc + length as) \<le> usable sz"
  shows "fold_res (add_data usable sz txm) as acc = Inr (acc @ map (\<lambda>a.
     \<lparr>rtx_id = tx_id (the (txm_mem txm a)), rtx_last_lsn = tx_last_lsn (the (txm_mem txm a))\<rparr>) as)"
  using assms
  by (induction as arbitrary: acc)
    (auto simp: add_data_def tx_read_def kv_tx_get_id_def kv_tx_last_lsn_def)

lemma fold_add_data_overflow:
  assumes "\<forall>a \<in> set as. txm_mem txm a \<noteq> None" "usable sz < 8 * (length acc + length as)"
    "8 * length acc \<le> usable sz"
  shows "fold_res (add_data usable sz txm) as acc = Inl Out_Of_Bounds"
  using assms
proof (induction as arbitrary: acc)
  case (Cons a as)
  then show ?case by (cases "8 * length acc + 8 \<le> usable sz") (auto simp: add_data_def tx_read_def)
qed simp

lemma ongoing_eq:
  assumes "txm_rep txm as"
  shows "kv_txm_ongoing_transaction_ids usable txm =
     (if 8 * length as \<le> usable (length as) \<or> as = []
      then Inr (map (\<lambda>a. \<lparr>rtx_id = tx_id (the (txm_mem txm a)),
             rtx_last_lsn = tx_last_lsn (the (txm_mem txm a))\<rparr>) as)
      else Inl Out_Of_Bounds)"
proof -
  have rep: "ll_rep (tx_list txm) as" and live: "\<forall>a \<in> set as. txm_mem txm a \<noteq> None"
    using assms by (auto simp: txm_rep_def)
  show ?thesis
    using fold_add_data [OF live, of "[]" usable "length as"]
      fold_add_data_overflow [OF live, of usable "length as" "[]"]
    by (auto simp: kv_txm_ongoing_transaction_ids_def ongoing_ids_at_def kv_ll_size_rep [OF rep] kv_ll_foreach_eq [OF rep])
qed

text \<open>A number read before a transaction ended makes the record of the checkpoint read an unwritten entry.\<close>

lemma ongoing_stale:
  assumes "txm_rep txm as" "length as < sz" "8 * length as \<le> usable sz"
  shows "ongoing_ids_at usable sz txm = Inl Uninit"
proof -
  have rep: "ll_rep (tx_list txm) as" and live: "\<forall>a \<in> set as. txm_mem txm a \<noteq> None"
    using assms(1) by (auto simp: txm_rep_def)
  show ?thesis using fold_add_data [OF live, of "[]" usable sz] assms(2,3)
    by (simp add: ongoing_ids_at_def kv_ll_foreach_eq [OF rep])
qed

section \<open>Shutting down\<close>

lemma kv_txm_destroy_eq:
  assumes "txm_rep txm as"
  shows "kv_txm_destroy txm =
     (case as of [] \<Rightarrow> Inr txm
      | [a] \<Rightarrow> map_res (\<lambda>(_, ll). txm\<lparr>tx_list := ll, txm_mem := \<lambda>_. None\<rparr>) (kv_ll_del_tail (tx_list txm))
      | _ \<Rightarrow> Inl Uninit)"
proof -
  have rep: "ll_rep (tx_list txm) as" using assms by (simp add: txm_rep_def)
  have sz: "kv_ll_size (tx_list txm) = length as" by (rule kv_ll_size_rep [OF rep])
  consider "as = []" | a where "as = [a]" | a b bs where "as = a # b # bs" by (metis neq_Nil_conv)
  then show ?thesis
  proof cases
    case 1
    then show ?thesis using kv_ll_del_tail_eq(1) [of "tx_list txm"] rep by (simp add: kv_txm_destroy_def sz)
  next
    case (2 a)
    obtain ll' where ll': "kv_ll_del_tail (tx_list txm) = Inr (Some a, ll')" "ll_rep ll' []"
      using kv_ll_del_tail_eq(2) [of "tx_list txm" a] rep 2 by auto
    have dm: "dom (txm_mem txm) = {a}" using assms 2 by (auto simp: txm_rep_def)
    have "(txm_mem txm)(a := None) = (\<lambda>_. None)"
    proof
      fix b show "((txm_mem txm)(a := None)) b = None" using dm domIff [of b "txm_mem txm"] by (cases "b = a") simp_all
    qed
    then have mem: "txm\<lparr>tx_list := ll', txm_mem := (txm_mem txm)(a := None)\<rparr> = txm\<lparr>tx_list := ll', txm_mem := \<lambda>_. None\<rparr>"
      by (rule arg_cong)
    have "kv_txm_destroy txm = txm_destroy_loop (Suc (Suc 0)) txm" by (simp only: kv_txm_destroy_def sz 2) simp
    also have "\<dots> = Inr (txm\<lparr>tx_list := ll', txm_mem := \<lambda>_. None\<rparr>)"
      using kv_ll_del_tail_eq(1) [OF ll'(2)] by (simp only: txm_destroy_loop.simps ll'(1) bind_res.simps prod.case option.case mem) simp
    finally show ?thesis using 2 ll'(1) by simp
  next
    case (3 a b bs)
    then show ?thesis using kv_ll_del_tail_eq(3) [of "tx_list txm" a b bs] rep by (simp add: kv_txm_destroy_def sz)
  qed
qed

section \<open>Properties\<close>

fun start_many :: "nat \<Rightarrow> kv_txm \<Rightarrow> (u32 list \<times> kv_txm) res" where
  "start_many 0 txm = Inr ([], txm)"
| "start_many (Suc n) txm =
     bind_res (kv_txm_start_new_transaction txm) (\<lambda>(a, txm).
     bind_res (tx_read txm a) (\<lambda>tx.
     map_res (\<lambda>(ids, txm). (kv_tx_get_id tx # ids, txm)) (start_many n txm)))"

lemma start_many_eq:
  assumes "txm_rep txm as" "unat (transaction_id txm) + n < 2 ^ 32" "tx_id_file txm = id_lines xs"
  shows "\<exists>txm'. start_many n txm = Inr (map (\<lambda>i. transaction_id txm + of_nat i) [1..<n + 1], txm') \<and>
     tx_id_file txm' = id_lines (xs @ map (\<lambda>i. transaction_id txm + of_nat i) [1..<n + 1])"
  using assms
proof (induction n arbitrary: txm as xs)
  case (Suc n)
  let ?i = "transaction_id txm + 1"
  obtain txm1 where s: "kv_txm_start_new_transaction txm = Inr (txm_brk txm, txm1)"
    "tx_id_file txm1 = tx_id_file txm @ fmt_08X ?i @ [LF]"
    using start_eq [OF Suc.prems(1)] by auto
  note r = start_rep [OF Suc.prems(1) _ s(1)]
  have lt: "unat (transaction_id txm) + 1 < 2 ^ 32" using Suc.prems(2) by simp
  then have "unat ?i = unat (transaction_id txm) + 1" by (simp add: unat_word_ariths)
  then have u: "unat (transaction_id txm1) + n < 2 ^ 32" using r(5) lt Suc.prems(2) by simp
  have f: "tx_id_file txm1 = id_lines (xs @ [?i])" using s(2) Suc.prems(3) by simp
  have l: "map (\<lambda>i. transaction_id txm + of_nat i) [1..<Suc n + 1] =
      ?i # map (\<lambda>i. transaction_id txm1 + of_nat i) [1..<n + 1]"
    using r(5) lt by (intro nth_equalityI) (auto simp: nth_Cons algebra_simps simp del: upt_Suc split: nat.splits)
  obtain txm' where "start_many n txm1 = Inr (map (\<lambda>i. transaction_id txm1 + of_nat i) [1..<n + 1], txm')"
     "tx_id_file txm' = id_lines ((xs @ [?i]) @ map (\<lambda>i. transaction_id txm1 + of_nat i) [1..<n + 1])"
    using Suc.IH [OF r(1) u f] lt by blast
  then show ?case using s(1) r(3) lt unfolding l by (simp add: tx_read_def kv_tx_get_id_def kv_tx_create_def)
qed simp

text \<open>
  C34. Transaction numbers survive a restart: from a file with one line per transaction started,
  \<open>kv_txm_init\<close> takes up the number of the last line, or 0 when there is none, and the
  transactions started after it get the following numbers and leave the file in the same
  form, ready for the next restart.
\<close>

theorem restart_continues_numbering:
  assumes "unat (if xs = [] then 0 else last xs :: u32) + n < 2 ^ 32"
  shows "\<exists>txm txm'. kv_txm_init (id_lines xs) = Inr txm \<and> transaction_id txm = (if xs = [] then 0 else last xs) \<and>
     start_many n txm = Inr (map (\<lambda>i. transaction_id txm + of_nat i) [1..<n + 1], txm') \<and>
     tx_id_file txm' = id_lines (xs @ map (\<lambda>i. transaction_id txm + of_nat i) [1..<n + 1])"
proof -
  obtain txm where i: "kv_txm_init (id_lines xs) = Inr txm"
    "transaction_id txm = (if xs = [] then 0 else last xs)" "tx_id_file txm = id_lines xs"
    using kv_txm_init_eq [of xs] by simp
  show ?thesis using start_many_eq [OF kv_txm_init_rep [OF i(1)], of n xs] i assms by auto
qed

theorem restart_continues_numbering_witness:
  "\<exists>txm txm'. kv_txm_init (''00000001'' @ [LF] @ ''0000000A'' @ [LF]) = Inr txm \<and>
     start_many 2 txm = Inr ([0xB, 0xC], txm')"
proof -
  have "id_lines [1, 10] = ''00000001'' @ [LF] @ ''0000000A'' @ [LF]"
    by (simp add: id_lines_def fmt_08X_def hex_array_def)
  moreover have "\<exists>txm txm'. kv_txm_init (id_lines [1, 10]) = Inr txm \<and>
       transaction_id txm = (if [1, 10 :: u32] = [] then 0 else last [1, 10 :: u32]) \<and>
       start_many 2 txm = Inr (map (\<lambda>i. transaction_id txm + of_nat i) [1..<2 + 1], txm') \<and>
       tx_id_file txm' = id_lines ([1, 10] @ map (\<lambda>i. transaction_id txm + of_nat i) [1..<2 + 1])"
    by (rule restart_continues_numbering) simp
  moreover have "[1..<2 + 1] = [1, 2::nat]" by (simp add: upt_rec)
  ultimately show ?thesis by auto
qed

text \<open>
  C35. \<open>kv_txm_end_transaction\<close> works for the oldest running transaction only: it releases its
  locks, takes it out of the list and frees it, and the others stay; for any younger one the
  removal from the list follows the unwritten \<open>prev\<close> pointer of \<open>kv_ll_add\<close>, so two clients
  whose transactions overlap must end them in the order they began.
\<close>

theorem end_transaction_cases:
  assumes "txm_rep txm (a # as)" "b \<in> set (a # as)"
  shows "if b = a
     then \<exists>lm' txm'. kv_txm_end_transaction self lm b txm = Inr (lm', txm') \<and> txm_rep txm' as \<and>
        lm' = fst (kv_tx_unlock_all self lm (the (txm_mem txm b))) \<and>
        txm_mem txm' = (txm_mem txm)(b := None) \<and> transaction_id txm' = transaction_id txm
     else kv_txm_end_transaction self lm b txm = Inl Uninit"
proof (cases "b = a")
  case True
  obtain tx where tx: "txm_mem txm a = Some tx" using txm_rep_live [OF assms(1), of a] by auto
  show ?thesis using end_oldest [OF assms(1) tx, of self lm] end_oldest_rep [OF assms(1)] True tx by auto
next
  case False
  then show ?thesis using end_younger [OF assms(1), of b self lm] assms(2) by simp
qed

theorem end_transaction_cases_witness:
  "\<exists>a b txm. start_many 2 \<lparr>transaction_id = 0, tx_list = kv_ll_create, txm_mem = (\<lambda>_. None), txm_brk = 0,
        tx_id_file = []\<rparr> = Inr ([1, 2], txm) \<and> txm_rep txm [a, b] \<and>
     kv_txm_end_transaction 1 kv_lm_create b txm = Inl Uninit \<and>
     (\<exists>r. kv_txm_end_transaction 1 kv_lm_create a txm = Inr r)"
proof -
  let ?t = "\<lparr>transaction_id = 0, tx_list = kv_ll_create, txm_mem = (\<lambda>_. None), txm_brk = 0, tx_id_file = []\<rparr>"
  have r0: "txm_rep ?t []" by (simp add: txm_rep_def kv_ll_create_rep)
  obtain a t1 where s1: "kv_txm_start_new_transaction ?t = Inr (a, t1)" using start_eq [OF r0] by auto
  note r1 = start_rep [OF r0 _ s1, simplified]
  obtain b t2 where s2: "kv_txm_start_new_transaction t1 = Inr (b, t2)" using start_eq [OF r1(1)] by auto
  note r2 = start_rep [OF r1(1) _ s2, simplified r1(5), simplified]
  have ab: "a \<noteq> b" using r2(2) by simp
  have "start_many 2 ?t = Inr ([1, 2], t2)"
    using s1 s2 r1(3) r2(3) by (simp add: numeral_2_eq_2 tx_read_def kv_tx_get_id_def kv_tx_create_def)
  then show ?thesis
    using end_transaction_cases [OF r2(1), of a 1 kv_lm_create]
      end_transaction_cases [OF r2(1), of b 1 kv_lm_create] ab r2(1)
    by auto
qed

text \<open>
  C36. The array for a checkpoint is allocated with one byte for each running transaction where
  an entry has eight: with an allocator that hands out \<open>usable n\<close> bytes for \<open>malloc (n)\<close>, the
  list of numbers and last records is returned exactly when \<open>8 n \<le> usable n\<close> for the number
  \<open>n\<close> of running transactions, and otherwise the heap is overrun.
\<close>

theorem checkpoint_array_bound:
  assumes "txm_rep txm as"
  shows "if as = [] \<or> 8 * length as \<le> usable (length as)
     then kv_txm_ongoing_transaction_ids usable txm =
        Inr (map (\<lambda>a. let tx = the (txm_mem txm a) in \<lparr>rtx_id = tx_id tx, rtx_last_lsn = tx_last_lsn tx\<rparr>) as)
     else kv_txm_ongoing_transaction_ids usable txm = Inl Out_Of_Bounds"
  using ongoing_eq [OF assms, of usable] by (auto simp: Let_def)

theorem checkpoint_array_bound_witness:
  "\<exists>txm. start_many 1 \<lparr>transaction_id = 0, tx_list = kv_ll_create, txm_mem = (\<lambda>_. None), txm_brk = 0,
        tx_id_file = []\<rparr> = Inr ([1], txm) \<and>
     kv_txm_ongoing_transaction_ids (\<lambda>n. n) txm = Inl Out_Of_Bounds \<and>
     kv_txm_ongoing_transaction_ids (\<lambda>n. max n 24) txm = Inr [\<lparr>rtx_id = 1, rtx_last_lsn = 0\<rparr>]"
proof -
  let ?t = "\<lparr>transaction_id = 0, tx_list = kv_ll_create, txm_mem = (\<lambda>_. None), txm_brk = 0, tx_id_file = []\<rparr>"
  have r0: "txm_rep ?t []" by (simp add: txm_rep_def kv_ll_create_rep)
  obtain a t1 where s1: "kv_txm_start_new_transaction ?t = Inr (a, t1)" using start_eq [OF r0] by auto
  note r1 = start_rep [OF r0 _ s1, simplified]
  have "start_many 1 ?t = Inr ([1], t1)"
    using s1 r1(3) by (simp add: tx_read_def kv_tx_get_id_def kv_tx_create_def)
  then show ?thesis
    using checkpoint_array_bound [OF r1(1), of "\<lambda>n. n"] checkpoint_array_bound [OF r1(1), of "\<lambda>n. max n 24"] r1(3)
    by (auto simp: kv_tx_create_def)
qed

end
