(* ===== verification/Kv_Command.thy ===== *)
theory Kv_Command
  imports Tx_Manager
begin

text \<open>
  \<open>kv_command.c\<close>: how the bytes of a client become commands and what each command does to the
  table, the locks, the transactions and the log.

  A command handler is divided at the points where another thread may come in between: start
  of the transaction, lock and log record, change of the table, commit record and release.
  \<open>run_command\<close> is their composition in the order of the code.
\<close>

section \<open>Definitions\<close>

subsection \<open>Recognising commands\<close>

abbreviation "invalid_command \<equiv> ''invalid_command''"
abbreviation "get_notfound \<equiv> ''(nil)''"
abbreviation "set_success \<equiv> ''OK''"
abbreviation "del_success \<equiv> ''1''"
abbreviation "del_not_found \<equiv> ''0''"
abbreviation "transaction_started \<equiv> ''started''"
abbreviation "transaction_already_started \<equiv> ''transaction is ongoing''"
abbreviation "transaction_committed \<equiv> ''commit''"
abbreviation "transaction_aborted \<equiv> ''rollback''"
abbreviation "transaction_not_started \<equiv> ''transaction is not ongoing''"

text \<open>The predicates take the C string of the command, with its \<open>\r\n\<close>.\<close>

definition is_command_empty :: "string \<Rightarrow> bool" where
  "is_command_empty command \<longleftrightarrow> length command = 2 \<and> command ! 0 = CR \<and> command ! 1 = LF"

definition is_command_get :: "string \<Rightarrow> bool" where
  "is_command_get command \<longleftrightarrow> length command > 4 \<and> command ! 0 = CHR ''g''
     \<and> command ! 1 = CHR ''e'' \<and> command ! 2 = CHR ''t'' \<and> command ! 3 = SP"

fun space_count :: "string \<Rightarrow> nat" where
  "space_count [] = 0"
| "space_count (c # s) = (if c = SP then space_count s + 1 else space_count s)"

definition is_command_set :: "string \<Rightarrow> bool" where
  "is_command_set command \<longleftrightarrow> length command > 4 \<and> command ! 0 = CHR ''s''
     \<and> command ! 1 = CHR ''e'' \<and> command ! 2 = CHR ''t'' \<and> command ! 3 = SP
     \<and> space_count command = 2"

definition is_command_del :: "string \<Rightarrow> bool" where
  "is_command_del command \<longleftrightarrow> length command > 4 \<and> command ! 0 = CHR ''d''
     \<and> command ! 1 = CHR ''e'' \<and> command ! 2 = CHR ''l'' \<and> command ! 3 = SP"

definition is_transaction_started :: "string \<Rightarrow> bool" where
  "is_transaction_started command \<longleftrightarrow> length command = 7 \<and> command ! 0 = CHR ''b''
     \<and> command ! 1 = CHR ''e'' \<and> command ! 2 = CHR ''g'' \<and> command ! 3 = CHR ''i''
     \<and> command ! 4 = CHR ''n''"

definition is_transaction_commited :: "string \<Rightarrow> bool" where
  "is_transaction_commited command \<longleftrightarrow> length command = 8 \<and> command ! 0 = CHR ''c''
     \<and> command ! 1 = CHR ''o'' \<and> command ! 2 = CHR ''m'' \<and> command ! 3 = CHR ''m''
     \<and> command ! 4 = CHR ''i'' \<and> command ! 5 = CHR ''t''"

definition is_transaction_aborted :: "string \<Rightarrow> bool" where
  "is_transaction_aborted command \<longleftrightarrow> length command = 7 \<and> command ! 0 = CHR ''a''
     \<and> command ! 1 = CHR ''b'' \<and> command ! 2 = CHR ''o'' \<and> command ! 3 = CHR ''r''
     \<and> command ! 4 = CHR ''t''"

text \<open>
  The search for the second space starts behind the first character of the key and is not
  stopped by the end of the string.  \<open>s\<close> is the buffer from index \<open>cur\<close> on.
\<close>

fun scan_space :: "nat \<Rightarrow> string \<Rightarrow> nat res" where
  "scan_space cur [] = Inl Out_Of_Bounds"
| "scan_space cur (c # s) = (if c \<noteq> SP then scan_space (cur + 1) s else Inr cur)"

definition get_key_len_of_set :: "string \<Rightarrow> nat res" where
  "get_key_len_of_set command = map_res (\<lambda>cur. cur - 4) (scan_space 5 (drop 5 command))"

text \<open>\<open>s\<close> is the string from index \<open>i\<close> on.\<close>

fun find_crlf :: "nat \<Rightarrow> string \<Rightarrow> int" where
  "find_crlf i (c # d # s) = (if c = CR \<and> d = LF then int i + 1 else find_crlf (i + 1) (d # s))"
| "find_crlf i _ = -1"

definition find_end_of_command :: "string \<Rightarrow> int res" where
  "find_end_of_command buffer =
     bind_res (c_strlen buffer) (\<lambda>sz. if sz < 2 then Inr (-1) else Inr (find_crlf 0 (cstr buffer)))"

subsection \<open>The shared state\<close>

record kv_db =
  db_ht :: kv_table
  db_lm :: kv_lm
  db_txm :: kv_txm
  db_rec :: kv_rec

text \<open>The state a server without any file of an earlier run starts in.\<close>

definition fresh_db :: kv_db where
  "fresh_db = \<lparr>
     db_ht = \<lparr>ht_size = 2, ht_count = 0, hash_func = str_hash_func, cmp_func = str_cmp_func, table = [[], []]\<rparr>,
     db_lm = kv_lm_create,
     db_txm = \<lparr>transaction_id = 0, tx_list = kv_ll_create, txm_mem = (\<lambda>_. None), txm_brk = 0, tx_id_file = []\<rparr>,
     db_rec = \<lparr>recovery_file = [], rec_lsn = 0\<rparr>\<rparr>"

text \<open>
  A record for the log in the name of the client's transaction, whose number becomes the last
  one of the transaction.
\<close>

definition tx_log :: "(u32 \<Rightarrow> u32 \<Rightarrow> kv_rec \<Rightarrow> (u32 \<times> kv_rec) res) \<Rightarrow> nat \<Rightarrow> kv_db \<Rightarrow> kv_db res" where
  "tx_log logger a db =
     bind_res (tx_read (db_txm db) a) (\<lambda>tx.
     bind_res (logger (kv_tx_last_lsn tx) (kv_tx_get_id tx) (db_rec db)) (\<lambda>(new_lsn_id, st).
     Inr (db\<lparr>db_rec := st, db_txm := tx_update (db_txm db) a (kv_tx_set_last_lsn tx new_lsn_id)\<rparr>)))"

definition begin_tx :: "kv_db \<Rightarrow> (nat \<times> kv_db) res" where
  "begin_tx db =
     bind_res (kv_txm_start_new_transaction (db_txm db)) (\<lambda>(a, txm).
     bind_res (tx_log (\<lambda>prev t st. Inr (kv_recovery_begin_log prev t st)) a (db\<lparr>db_txm := txm\<rparr>)) (\<lambda>db.
     Inr (a, db)))"

text \<open>A data command outside a transaction gets one of its own: \<open>is_single_command\<close>.\<close>

definition ensure_tx :: "nat option \<Rightarrow> kv_db \<Rightarrow> (nat \<times> bool \<times> kv_db) res" where
  "ensure_tx c_tx db =
     (case c_tx of
        None \<Rightarrow> bind_res (begin_tx db) (\<lambda>(a, db). Inr (a, True, db))
      | Some a \<Rightarrow> Inr (a, False, db))"

definition end_tx :: "thread \<Rightarrow> nat \<Rightarrow> kv_db \<Rightarrow> kv_db res" where
  "end_tx self a db =
     bind_res (kv_txm_end_transaction self (db_lm db) a (db_txm db)) (\<lambda>(lm, txm).
     Inr (db\<lparr>db_lm := lm, db_txm := txm\<rparr>))"

definition commit_tx :: "thread \<Rightarrow> nat \<Rightarrow> kv_db \<Rightarrow> kv_db res" where
  "commit_tx self a db =
     bind_res (tx_log (\<lambda>prev t st. Inr (kv_recovery_commit_log prev t st)) a db) (end_tx self a)"

text \<open>
  A single command commits and then unlocks its key once more, after its transaction has
  released it.  Where the key was freed before, the bytes read are whatever the memory holds.
\<close>

definition finish_command :: "thread \<Rightarrow> bool \<Rightarrow> string \<Rightarrow> nat \<Rightarrow> kv_db \<Rightarrow> (nat option \<times> kv_db) res" where
  "finish_command self is_single_command key a db =
     (if is_single_command then
        bind_res (commit_tx self a db) (\<lambda>db.
        Inr (None, db\<lparr>db_lm := kv_lm_unlock self (db_lm db) key\<rparr>))
      else Inr (Some a, db))"

definition lock_key :: "thread \<Rightarrow> bool \<Rightarrow> string \<Rightarrow> nat \<Rightarrow> kv_db \<Rightarrow> kv_db res" where
  "lock_key self is_rlock key a db =
     bind_res ((if is_rlock then kv_lm_rlock else kv_lm_wlock) self (db_lm db) key) (\<lambda>lm.
     bind_res (tx_read (db_txm db) a) (\<lambda>tx.
     bind_res (kv_tx_add_lock tx key) (\<lambda>tx.
     Inr (db\<lparr>db_lm := lm, db_txm := tx_update (db_txm db) a tx\<rparr>))))"

subsection \<open>The data commands\<close>

text \<open>\<open>command_len\<close> is unsigned: a difference below zero is a huge length.\<close>

definition size_sub :: "nat \<Rightarrow> nat \<Rightarrow> nat" where
  "size_sub m n = nat ((int m - int n) mod 2 ^ 64)"

definition key_arg :: "string \<Rightarrow> nat \<Rightarrow> string res" where
  "key_arg command command_len = buf_read command 4 (size_sub command_len 4)"

definition set_args :: "string \<Rightarrow> nat \<Rightarrow> (string \<times> string) res" where
  "set_args command command_len =
     bind_res (get_key_len_of_set command) (\<lambda>key_len.
     bind_res (buf_read command 4 key_len) (\<lambda>key.
     bind_res (buf_read command (key_len + 5) (size_sub command_len (key_len + 5))) (\<lambda>val.
     Inr (key, val))))"

definition strcpy :: "string \<Rightarrow> string \<Rightarrow> string res" where
  "strcpy result s = buf_write result 0 (s @ [NUL])"

definition get_reply :: "string \<Rightarrow> string option \<Rightarrow> string res" where
  "get_reply result v_data =
     (case v_data of
        None \<Rightarrow> strcpy result get_notfound
      | Some v \<Rightarrow> bind_res (buf_write result 0 v) (\<lambda>result. buf_set result (length v) NUL))"

definition set_log :: "thread \<Rightarrow> string \<Rightarrow> string \<Rightarrow> nat \<Rightarrow> kv_db \<Rightarrow> kv_db res" where
  "set_log self key val a db =
     bind_res (lock_key self False key a db) (\<lambda>db.
     tx_log (\<lambda>prev t. kv_recovery_update_log prev t key
               (case kv_ht_get (db_ht db) key of None \<Rightarrow> [] | Some old \<Rightarrow> old) val) a db)"

definition set_apply :: "string \<Rightarrow> string \<Rightarrow> kv_db \<Rightarrow> kv_db" where
  "set_apply key val db = db\<lparr>db_ht := snd (kv_ht_set (db_ht db) key val)\<rparr>"

definition del_log :: "thread \<Rightarrow> string \<Rightarrow> nat \<Rightarrow> kv_db \<Rightarrow> (bool \<times> kv_db) res" where
  "del_log self key a db =
     bind_res (lock_key self False key a db) (\<lambda>db.
     case kv_ht_get (db_ht db) key of
       None \<Rightarrow> Inr (False, db)
     | Some old \<Rightarrow>
         map_res (Pair True) (tx_log (\<lambda>prev t. kv_recovery_update_log prev t key old []) a db))"

definition del_apply :: "bool \<Rightarrow> string \<Rightarrow> kv_db \<Rightarrow> bool \<times> kv_db" where
  "del_apply found key db =
     (if found then
        (case kv_ht_del (db_ht db) key of
           (None, ht) \<Rightarrow> (False, db\<lparr>db_ht := ht\<rparr>)
         | (Some old_kv, ht) \<Rightarrow> (True, db\<lparr>db_ht := ht\<rparr>))
      else (False, db))"

subsection \<open>One command\<close>

text \<open>
  \<open>result\<close> is the reply buffer of the client, \<open>junk\<close> what the memory of a freed key holds.  The
  arguments of a data command are cut out of the command behind the start of the transaction;
  they are passed as the outcome of that step.
\<close>

definition run_get ::
  "thread \<Rightarrow> string \<Rightarrow> string res \<Rightarrow> string \<Rightarrow> nat option \<Rightarrow> kv_db \<Rightarrow> (string \<times> nat option \<times> kv_db) res" where
  "run_get self junk key result c_tx db =
     bind_res (ensure_tx c_tx db) (\<lambda>(a, is_single_command, db).
     bind_res key (\<lambda>key.
     bind_res (lock_key self True key a db) (\<lambda>db.
     bind_res (get_reply result (kv_ht_get (db_ht db) key)) (\<lambda>result.
     bind_res (finish_command self is_single_command junk a db) (\<lambda>(c_tx, db).
     Inr (result, c_tx, db))))))"

definition run_set ::
  "thread \<Rightarrow> (string \<times> string) res \<Rightarrow> string \<Rightarrow> nat option \<Rightarrow> kv_db \<Rightarrow> (string \<times> nat option \<times> kv_db) res" where
  "run_set self args result c_tx db =
     bind_res (ensure_tx c_tx db) (\<lambda>(a, is_single_command, db).
     bind_res args (\<lambda>(key, val).
     bind_res (set_log self key val a db) (\<lambda>db.
     let db = set_apply key val db in
     bind_res (strcpy result set_success) (\<lambda>result.
     bind_res (finish_command self is_single_command key a db) (\<lambda>(c_tx, db).
     Inr (result, c_tx, db))))))"

definition run_del ::
  "thread \<Rightarrow> string \<Rightarrow> string res \<Rightarrow> string \<Rightarrow> nat option \<Rightarrow> kv_db \<Rightarrow> (string \<times> nat option \<times> kv_db) res" where
  "run_del self junk key result c_tx db =
     bind_res (ensure_tx c_tx db) (\<lambda>(a, is_single_command, db).
     bind_res key (\<lambda>key.
     bind_res (del_log self key a db) (\<lambda>(found, db).
     let (deleted, db) = del_apply found key db in
     bind_res (strcpy result (if deleted then del_success else del_not_found)) (\<lambda>result.
     bind_res (finish_command self is_single_command junk a db) (\<lambda>(c_tx, db).
     Inr (result, c_tx, db))))))"

definition run_begin ::
  "string \<Rightarrow> nat option \<Rightarrow> kv_db \<Rightarrow> (string \<times> nat option \<times> kv_db) res" where
  "run_begin result c_tx db =
     (case c_tx of
        Some a \<Rightarrow> bind_res (strcpy result transaction_already_started) (\<lambda>result. Inr (result, c_tx, db))
      | None \<Rightarrow>
          bind_res (begin_tx db) (\<lambda>(a, db).
          bind_res (strcpy result transaction_started) (\<lambda>result. Inr (result, Some a, db))))"

definition run_commit ::
  "thread \<Rightarrow> string \<Rightarrow> nat option \<Rightarrow> kv_db \<Rightarrow> (string \<times> nat option \<times> kv_db) res" where
  "run_commit self result c_tx db =
     (case c_tx of
        None \<Rightarrow> bind_res (strcpy result transaction_not_started) (\<lambda>result. Inr (result, c_tx, db))
      | Some a \<Rightarrow>
          bind_res (commit_tx self a db) (\<lambda>db.
          bind_res (strcpy result transaction_committed) (\<lambda>result. Inr (result, None, db))))"

definition rollback_tx :: "nat \<Rightarrow> kv_db \<Rightarrow> kv_db res" where
  "rollback_tx a db =
     bind_res (tx_read (db_txm db) a) (\<lambda>tx.
     bind_res (kv_tx_rollback tx (db_ht db) (db_rec db)) (\<lambda>(tx, ht, st).
     Inr (db\<lparr>db_ht := ht, db_rec := st, db_txm := tx_update (db_txm db) a tx\<rparr>)))"

definition abort_tx :: "thread \<Rightarrow> nat \<Rightarrow> kv_db \<Rightarrow> kv_db res" where
  "abort_tx self a db =
     bind_res (tx_log (\<lambda>prev t st. Inr (kv_recovery_abort_log prev t st)) a db) (\<lambda>db.
     bind_res (rollback_tx a db) (end_tx self a))"

definition run_abort ::
  "thread \<Rightarrow> string \<Rightarrow> nat option \<Rightarrow> kv_db \<Rightarrow> (string \<times> nat option \<times> kv_db) res" where
  "run_abort self result c_tx db =
     (case c_tx of
        None \<Rightarrow> bind_res (strcpy result transaction_not_started) (\<lambda>result. Inr (result, c_tx, db))
      | Some a \<Rightarrow>
          bind_res (abort_tx self a db) (\<lambda>db.
          bind_res (strcpy result transaction_aborted) (\<lambda>result. Inr (result, None, db))))"

definition run_command ::
  "thread \<Rightarrow> string \<Rightarrow> string \<Rightarrow> nat \<Rightarrow> string \<Rightarrow> nat option \<Rightarrow> kv_db \<Rightarrow> (string \<times> nat option \<times> kv_db) res" where
  "run_command self junk command command_len result c_tx db =
     (if is_command_empty (cstr command) then
        bind_res (strcpy result []) (\<lambda>result. Inr (result, c_tx, db))
      else if is_transaction_started (cstr command) then run_begin result c_tx db
      else if is_command_get (cstr command) then run_get self junk (key_arg command command_len) result c_tx db
      else if is_command_set (cstr command) then run_set self (set_args command command_len) result c_tx db
      else if is_command_del (cstr command) then run_del self junk (key_arg command command_len) result c_tx db
      else if is_transaction_commited (cstr command) then run_commit self result c_tx db
      else if is_transaction_aborted (cstr command) then run_abort self result c_tx db
      else bind_res (strcpy result invalid_command) (\<lambda>result. Inr (result, c_tx, db)))"

text \<open>
  \<open>consume_command\<close> takes the first command out of the 128 byte buffer and runs it.  The first
  component is the number returned, 0 when the buffer holds no complete command.
\<close>

definition consume_command ::
  "thread \<Rightarrow> string \<Rightarrow> string \<Rightarrow> string \<Rightarrow> nat option \<Rightarrow> kv_db \<Rightarrow>
   (int \<times> string \<times> string \<times> nat option \<times> kv_db) res" where
  "consume_command self junk command result c_tx db =
     bind_res (find_end_of_command command) (\<lambda>end_of_command.
     if end_of_command = -1 then Inr (0, command, result, c_tx, db)
     else
       let e = nat end_of_command; command_len = e - 1 in
       bind_res (buf_read command 0 128) (\<lambda>temp.
       bind_res (c_strlen temp) (\<lambda>len.
       bind_res (buf_read temp (e + 1) (size_sub len (e + 1))) (\<lambda>rest.
       bind_res (buf_write (replicate 128 NUL) 0 rest) (\<lambda>command.
       bind_res (buf_set temp (e + 1) NUL) (\<lambda>temp.
       bind_res (run_command self junk temp command_len result c_tx db) (\<lambda>(result, c_tx, db).
       Inr (1, command, result, c_tx, db))))))))"

section \<open>Taking commands out of the buffer\<close>

fun split_crlf :: "string \<Rightarrow> (string \<times> string) option" where
  "split_crlf (c # d # s) =
     (if c = CR \<and> d = LF then Some ([], s)
      else map_option (\<lambda>(l, r). (c # l, r)) (split_crlf (d # s)))"
| "split_crlf s = None"

lemma find_crlf_eq:
  "find_crlf i s = (case split_crlf s of None \<Rightarrow> -1 | Some (l, r) \<Rightarrow> int (i + length l + 1))"
  by (induction i s rule: find_crlf.induct) (auto split: option.splits)

lemma split_crlf_SomeD: "split_crlf s = Some (l, r) \<Longrightarrow> s = l @ [CR, LF] @ r"
  by (induction s arbitrary: l r rule: split_crlf.induct) (auto split: if_splits)

text \<open>The 128 byte buffer with the bytes \<open>s\<close> not yet consumed.\<close>

definition pending :: "string \<Rightarrow> string" where
  "pending s = s @ replicate (128 - length s) NUL"

lemma pending_simps:
  assumes "NUL \<notin> set s" "length s < 128"
  shows "cstr (pending s) = s" "c_strlen (pending s) = Inr (length s)" "length (pending s) = 128"
proof -
  have p: "pending s = s @ NUL # replicate (127 - length s) NUL"
    using assms(2) by (simp add: pending_def Suc_diff_Suc flip: replicate_Suc)
  show "cstr (pending s) = s" "c_strlen (pending s) = Inr (length s)" unfolding p using assms(1) by simp_all
  show "length (pending s) = 128" using assms(2) by (simp add: pending_def)
qed

lemma size_sub_eq: "n \<le> m \<Longrightarrow> m < 2 ^ 64 \<Longrightarrow> size_sub m n = m - n"
proof -
  assume a: "n \<le> m" "m < 2 ^ 64"
  have "(int m - int n) mod 2 ^ 64 = int m - int n"
    using a by (intro mod_pos_pos_trivial) simp_all
  then show ?thesis using a by (simp add: size_sub_def)
qed

lemma consume_none:
  assumes "NUL \<notin> set s" "length s < 128" "split_crlf s = None"
  shows "consume_command self junk (pending s) result c_tx db = Inr (0, pending s, result, c_tx, db)"
  using assms by (simp add: consume_command_def find_end_of_command_def pending_simps find_crlf_eq)

lemma consume_some:
  assumes "NUL \<notin> set s" "length s < 128" "split_crlf s = Some (l, r)"
  shows "consume_command self junk (pending s) result c_tx db =
     bind_res (run_command self junk ((l @ [CR, LF]) @ NUL # drop (length l + 3) (pending s)) (length l) result c_tx db)
       (\<lambda>(result, c_tx, db). Inr (1, pending r, result, c_tx, db))"
proof -
  note s = split_crlf_SomeD [OF assms(3)]
  have len: "length s = length l + 2 + length r" using s by simp
  have rd: "buf_read (pending s) 0 128 = Inr (pending s)"
    using pending_simps(3) [OF assms(1,2)] by (simp add: buf_read_def)
  have sub: "size_sub (length s) (length l + 2) = length r"
    using size_sub_eq [of "length l + 2" "length s"] len assms(2) by simp
  have rest: "buf_read (pending s) (length l + 2) (length r) = Inr r"
    using s len assms(2) by (simp add: buf_read_def pending_def)
  have wr: "buf_write (replicate 128 NUL) 0 r = Inr (pending r)"
    using len assms(2) by (simp add: buf_write_def pending_def)
  have cut: "buf_set (pending s) (length l + 2) NUL = Inr ((l @ [CR, LF]) @ NUL # drop (length l + 3) (pending s))"
  proof -
    have "take (length l + 2) (pending s) = l @ [CR, LF]" using s by (simp add: pending_def)
    moreover have "length l + 2 < length (pending s)" using len assms(2) pending_simps(3) [OF assms(1,2)] by simp
    ultimately show ?thesis by (simp add: buf_set_def upd_conv_take_nth_drop eval_nat_numeral)
  qed
  have "\<not> length s < 2" using len by simp
  then show ?thesis
    using assms rd sub rest wr cut
    by (simp add: consume_command_def find_end_of_command_def pending_simps find_crlf_eq Let_def nat_add_distrib)
qed

section \<open>Commands and their text\<close>

datatype command =
  C_Empty | C_Begin | C_Get string | C_Set string string | C_Del string | C_Commit | C_Abort

fun command_text :: "command \<Rightarrow> string" where
  "command_text C_Empty = []"
| "command_text C_Begin = ''begin''"
| "command_text (C_Get k) = ''get '' @ k"
| "command_text (C_Set k v) = ''set '' @ k @ [SP] @ v"
| "command_text (C_Del k) = ''del '' @ k"
| "command_text C_Commit = ''commit''"
| "command_text C_Abort = ''abort''"

definition clean :: "string \<Rightarrow> bool" where
  "clean s \<longleftrightarrow> NUL \<notin> set s \<and> CR \<notin> set s \<and> LF \<notin> set s"

fun command_ok :: "command \<Rightarrow> bool" where
  "command_ok (C_Get k) = clean k"
| "command_ok (C_Set k v) = (clean k \<and> clean v \<and> k \<noteq> [] \<and> SP \<notin> set k \<and> SP \<notin> set v)"
| "command_ok (C_Del k) = clean k"
| "command_ok c = True"

fun exec_command ::
  "thread \<Rightarrow> string \<Rightarrow> command \<Rightarrow> string \<Rightarrow> nat option \<Rightarrow> kv_db \<Rightarrow> (string \<times> nat option \<times> kv_db) res" where
  "exec_command self junk C_Empty result c_tx db = bind_res (strcpy result []) (\<lambda>result. Inr (result, c_tx, db))"
| "exec_command self junk C_Begin result c_tx db = run_begin result c_tx db"
| "exec_command self junk (C_Get k) result c_tx db = run_get self junk (Inr k) result c_tx db"
| "exec_command self junk (C_Set k v) result c_tx db = run_set self (Inr (k, v)) result c_tx db"
| "exec_command self junk (C_Del k) result c_tx db = run_del self junk (Inr k) result c_tx db"
| "exec_command self junk C_Commit result c_tx db = run_commit self result c_tx db"
| "exec_command self junk C_Abort result c_tx db = run_abort self result c_tx db"

lemmas is_command_defs = is_command_empty_def is_transaction_started_def is_command_get_def is_command_set_def
  is_command_del_def is_transaction_commited_def is_transaction_aborted_def

lemma space_count_append [simp]: "space_count (s @ t) = space_count s + space_count t"
  by (induction s) auto

lemma space_count_0: "SP \<notin> set s \<Longrightarrow> space_count s = 0"
  by (induction s) auto

lemma scan_space_eq: "SP \<notin> set s \<Longrightarrow> scan_space i (s @ SP # t) = Inr (i + length s)"
  by (induction s arbitrary: i) auto

lemma set_args_text:
  assumes "k \<noteq> []" "SP \<notin> set k" "length k + length v < 128"
  shows "set_args (''set '' @ k @ [SP] @ v @ rest) (length (''set '' @ k @ [SP] @ v)) = Inr (k, v)"
proof -
  obtain c k' where k: "k = c # k'" using assms(1) by (cases k) auto
  have "get_key_len_of_set (''set '' @ k @ [SP] @ v @ rest) = Inr (length k)"
    using assms(2) scan_space_eq [of k' 5 "v @ rest"] by (simp add: get_key_len_of_set_def k)
  moreover have "size_sub (length (''set '' @ k @ [SP] @ v)) (length k + 5) = length v"
    using assms(3) by (subst size_sub_eq) simp_all
  moreover have "drop (length k + 5) (''set '' @ k @ [SP] @ v @ rest) = v @ rest"
    using append_eq_conv_conj [of "''set '' @ k @ [SP]" "v @ rest" "''set '' @ k @ [SP] @ v @ rest"]
    by (simp add: eval_nat_numeral)
  ultimately show ?thesis by (simp add: set_args_def buf_read_def)
qed

lemma key_arg_text:
  assumes "length w = 4" "length k < 128"
  shows "key_arg (w @ k @ rest) (length (w @ k)) = Inr k"
  using assms size_sub_eq [of 4 "length k + 4"] by (simp add: key_arg_def buf_read_def add.commute)

lemma run_command_text:
  assumes "command_ok c" "length (command_text c) < 126"
  shows "run_command self junk ((command_text c @ [CR, LF]) @ NUL # rest) (length (command_text c)) result c_tx db =
     exec_command self junk c result c_tx db"
proof -
  have cs: "cstr ((command_text c @ [CR, LF]) @ NUL # rest) = command_text c @ [CR, LF]"
    by (rule cstr_append_NUL) (use assms(1) in \<open>cases c; auto simp: clean_def\<close>)
  show ?thesis
  proof (cases c)
    case (C_Get k)
    then show ?thesis
      using assms key_arg_text [of "''get ''" k "[CR, LF] @ NUL # rest"]
      unfolding run_command_def cs by (simp add: is_command_defs)
  next
    case (C_Del k)
    then show ?thesis
      using assms key_arg_text [of "''del ''" k "[CR, LF] @ NUL # rest"]
      unfolding run_command_def cs by (simp add: is_command_defs)
  next
    case (C_Set k v)
    then show ?thesis
      using assms set_args_text [of k v "[CR, LF] @ NUL # rest"]
      unfolding run_command_def cs by (simp add: is_command_defs space_count_0 ac_simps)
  qed (unfold run_command_def cs, simp_all add: is_command_defs)
qed

lemma split_crlf_text: "clean s \<Longrightarrow> split_crlf (s @ CR # LF # r) = Some (s, r)"
proof (induction s)
  case (Cons c s)
  then show ?case by (cases s) (auto simp: clean_def)
qed simp

end
