(* ===== verification/Kv_Store.thy ===== *)
theory Kv_Store
  imports Kv_Command
begin

text \<open>
  What the commands promise together: an abstract transactional store, and the proof that
  \<open>exec_command\<close> implements it, whatever clients run beside each other.

  The abstract store has the committed contents and, for each thread in a transaction, the data
  commands it ran with their replies.  A command is answered from the committed contents and
  the thread's own writes; the writes of a transaction reach the contents in one step at
  its commit, and never after an abort.  The relation \<open>sim\<close> connects it with the table, the
  locks, the transactions and the log.
\<close>

section \<open>The abstract store\<close>

type_synonym contents = "string \<rightharpoonup> string"

fun command_key :: "command \<Rightarrow> string option" where
  "command_key (C_Get k) = Some k"
| "command_key (C_Set k v) = Some k"
| "command_key (C_Del k) = Some k"
| "command_key _ = None"

text \<open>The reply to a data command on given contents, and what it writes.\<close>

fun data_reply :: "command \<Rightarrow> contents \<Rightarrow> string" where
  "data_reply (C_Get k) m = (case m k of None \<Rightarrow> get_notfound | Some v \<Rightarrow> v)"
| "data_reply (C_Set k v) m = set_success"
| "data_reply (C_Del k) m = (if m k = None then del_not_found else del_success)"
| "data_reply _ m = []"

fun data_writes :: "command \<Rightarrow> contents \<Rightarrow> (string, string) kv_write list" where
  "data_writes (C_Set k v) m = [(k, Some v)]"
| "data_writes (C_Del k) m = (if m k = None then [] else [(k, None)])"
| "data_writes _ m = []"

text \<open>A serial run of data commands on given contents: the replies and the writes.\<close>

fun serial :: "command list \<Rightarrow> contents \<Rightarrow> string list \<times> (string, string) kv_write list" where
  "serial [] m = ([], [])"
| "serial (c # cs) m =
     (let ws = data_writes c m; (rs, ws') = serial cs (map_writes ws m) in (data_reply c m # rs, ws @ ws'))"

record store =
  committed :: contents
  running :: "thread \<Rightarrow> (command \<times> string) list option"

definition tx_writes :: "contents \<Rightarrow> (command \<times> string) list \<Rightarrow> (string, string) kv_write list" where
  "tx_writes m ops = snd (serial (map fst ops) m)"

definition tx_keys :: "(command \<times> string) list \<Rightarrow> string set" where
  "tx_keys ops = {k. \<exists>c r. (c, r) \<in> set ops \<and> command_key c = Some k}"

text \<open>What a transaction sees: the committed contents under its own writes.\<close>

definition tx_view :: "contents \<Rightarrow> (command \<times> string) list \<Rightarrow> contents" where
  "tx_view m ops = map_writes (tx_writes m ops) m"

fun spec_command :: "thread \<Rightarrow> command \<Rightarrow> store \<Rightarrow> string \<times> store" where
  "spec_command u C_Empty s = ([], s)"
| "spec_command u C_Begin s =
     (case running s u of
        None \<Rightarrow> (transaction_started, s\<lparr>running := (running s)(u \<mapsto> [])\<rparr>)
      | Some ops \<Rightarrow> (transaction_already_started, s))"
| "spec_command u C_Commit s =
     (case running s u of
        None \<Rightarrow> (transaction_not_started, s)
      | Some ops \<Rightarrow> (transaction_committed,
          s\<lparr>committed := tx_view (committed s) ops, running := (running s)(u := None)\<rparr>))"
| "spec_command u C_Abort s =
     (case running s u of
        None \<Rightarrow> (transaction_not_started, s)
      | Some ops \<Rightarrow> (transaction_aborted, s\<lparr>running := (running s)(u := None)\<rparr>))"
| "spec_command u c s =
     (case running s u of
        None \<Rightarrow> (data_reply c (committed s), s\<lparr>committed := map_writes (data_writes c (committed s)) (committed s)\<rparr>)
      | Some ops \<Rightarrow>
          (let r = data_reply c (tx_view (committed s) ops) in
           (r, s\<lparr>running := (running s)(u \<mapsto> ops @ [(c, r)])\<rparr>)))"

subsection \<open>Serial runs\<close>

lemma serial_append:
  "serial (cs @ ds) m =
     (fst (serial cs m) @ fst (serial ds (map_writes (snd (serial cs m)) m)),
      snd (serial cs m) @ snd (serial ds (map_writes (snd (serial cs m)) m)))"
  by (induction cs arbitrary: m) (simp_all add: Let_def case_prod_unfold)

lemma tx_writes_simps [simp]:
  "tx_writes m [] = []"
  "tx_writes m (ops @ [(c, r)]) = tx_writes m ops @ data_writes c (tx_view m ops)"
  by (simp_all add: tx_writes_def serial_append tx_view_def Let_def case_prod_unfold)

lemma tx_view_simps [simp]:
  "tx_view m [] = m"
  "tx_view m (ops @ [(c, r)]) = map_writes (data_writes c (tx_view m ops)) (tx_view m ops)"
  by (simp_all add: tx_view_def)

lemma tx_keys_simps [simp]:
  "tx_keys [] = {}"
  "tx_keys (ops @ [(c, r)]) = tx_keys ops \<union> set_option (command_key c)"
  by (auto simp: tx_keys_def)

lemma data_writes_keys: "fst ` set (data_writes c m) \<subseteq> set_option (command_key c)"
  by (cases c) auto

lemma serial_keys: "fst ` set (snd (serial cs m)) \<subseteq> {k. \<exists>c \<in> set cs. command_key c = Some k}"
proof (induction cs arbitrary: m)
  case (Cons c cs)
  from Cons.IH [of "map_writes (data_writes c m) m"] data_writes_keys [of c m]
  show ?case by (auto simp: Let_def case_prod_unfold)
qed simp

lemma tx_writes_keys: "fst ` set (tx_writes m ops) \<subseteq> tx_keys ops"
proof -
  have "{k. \<exists>c \<in> set (map fst ops). command_key c = Some k} = tx_keys ops" by (force simp: tx_keys_def)
  then show ?thesis using serial_keys [of "map fst ops" m] by (simp only: tx_writes_def)
qed

text \<open>A serial run depends on the keys of its commands only.\<close>

lemma data_local:
  "\<forall>k \<in> set_option (command_key c). m k = m' k \<Longrightarrow> data_reply c m = data_reply c m' \<and> data_writes c m = data_writes c m'"
  by (cases c) auto

lemma serial_local:
  "\<forall>c \<in> set cs. \<forall>k \<in> set_option (command_key c). m k = m' k \<Longrightarrow> serial cs m = serial cs m'"
proof (induction cs arbitrary: m m')
  case (Cons c cs)
  have eq: "data_reply c m = data_reply c m'" "data_writes c m = data_writes c m'"
    using data_local [of c m m'] Cons.prems by simp_all
  have "serial cs (map_writes (data_writes c m) m) = serial cs (map_writes (data_writes c m) m')"
    using Cons.prems by (intro Cons.IH) (auto intro: map_writes_key)
  then show ?case by (simp add: eq)
qed simp

lemma tx_writes_local: "\<forall>k \<in> tx_keys ops. m k = m' k \<Longrightarrow> tx_writes m ops = tx_writes m' ops"
proof -
  assume a: "\<forall>k \<in> tx_keys ops. m k = m' k"
  have "m k = m' k" if "c \<in> set (map fst ops)" "k \<in> set_option (command_key c)" for c k
  proof -
    have "k \<in> tx_keys ops" using that by (force simp: tx_keys_def)
    with a show ?thesis by blast
  qed
  then have "serial (map fst ops) m = serial (map fst ops) m'" by (intro serial_local ballI)
  then show ?thesis by (simp only: tx_writes_def)
qed

section \<open>The relation between store and server\<close>

definition tx_of :: "kv_db \<Rightarrow> nat \<Rightarrow> kv_tx" where
  "tx_of db a = the (txm_mem (db_txm db) a)"

text \<open>
  \<open>c u\<close> is the \<open>c_data.tx\<close> of thread \<open>u\<close>.  The locks a thread holds are those of the keys its
  transaction collected.
\<close>

definition db_inv :: "(thread \<Rightarrow> nat option) \<Rightarrow> nat list \<Rightarrow> kv_recovery_log_line list \<Rightarrow> kv_db \<Rightarrow> bool" where
  "db_inv c as rs db \<longleftrightarrow>
     txm_rep (db_txm db) as \<and> lm_inv (db_lm db) \<and> ht_inv (db_ht db) \<and> log_rep (db_rec db) rs \<and>
     (\<forall>u a. c u = Some a \<longrightarrow> 0 < u \<and> a \<in> set as) \<and>
     (\<forall>u v a. c u = Some a \<longrightarrow> c v = Some a \<longrightarrow> u = v) \<and>
     (\<forall>a \<in> set as. \<exists>u. c u = Some a) \<and>
     (\<forall>u. lm.holds_exactly (db_lm db) u (case c u of None \<Rightarrow> [] | Some a \<Rightarrow> tx_locks (tx_of db a))) \<and>
     (\<forall>a \<in> set as. tx_ok (tx_of db a))"

definition vals_ok :: "contents \<Rightarrow> bool" where
  "vals_ok m \<longleftrightarrow> (\<forall>k v. m k = Some v \<longrightarrow> small_str k \<and> small_str v \<and> v \<noteq> [])"

text \<open>
  A running transaction: its records form a chain in the log whose updates are its writes, with
  the old values of the committed contents; it got the replies of a serial run; and the
  table shows its view on every key it locked.
\<close>

definition tx_sim ::
  "kv_recovery_log_line list \<Rightarrow> contents \<Rightarrow> contents \<Rightarrow> kv_tx \<Rightarrow> (command \<times> string) list \<Rightarrow> bool" where
  "tx_sim rs m h tx ops \<longleftrightarrow>
     (\<exists>us. chain rs (unat (tx_last_lsn tx)) us \<and> map upd_write us = tx_writes m ops \<and> consistent us m) \<and>
     fst (serial (map fst ops) m) = map snd ops \<and>
     tx_keys ops \<subseteq> set (tx_locks tx) \<and>
     (\<forall>k \<in> set (tx_locks tx). h k = tx_view m ops k)"

definition sim ::
  "store \<Rightarrow> (thread \<Rightarrow> nat option) \<Rightarrow> nat list \<Rightarrow> kv_recovery_log_line list \<Rightarrow> kv_db \<Rightarrow> bool" where
  "sim s c as rs db \<longleftrightarrow>
     db_inv c as rs db \<and> vals_ok (kv_ht_get (db_ht db)) \<and> vals_ok (committed s) \<and>
     kv_ht_get (db_ht db) = replay rs Map.empty \<and>
     (\<forall>u. c u = None \<longrightarrow> running s u = None) \<and>
     (\<forall>u a. c u = Some a \<longrightarrow> (\<exists>ops. running s u = Some ops \<and>
        tx_sim rs (committed s) (kv_ht_get (db_ht db)) (tx_of db a) ops)) \<and>
     (\<forall>k. (\<forall>u a. c u = Some a \<longrightarrow> k \<notin> set (tx_locks (tx_of db a))) \<longrightarrow>
        kv_ht_get (db_ht db) k = committed s k)"

lemma simD:
  assumes "sim s c as rs db"
  shows "db_inv c as rs db" "vals_ok (kv_ht_get (db_ht db))" "vals_ok (committed s)"
    "kv_ht_get (db_ht db) = replay rs Map.empty"
    "(\<And>u a. c u = Some a \<Longrightarrow> k \<notin> set (tx_locks (tx_of db a))) \<Longrightarrow> kv_ht_get (db_ht db) k = committed s k"
  using assms unfolding sim_def by blast+

lemma simI:
  assumes "db_inv c as rs db" "vals_ok (kv_ht_get (db_ht db))" "vals_ok (committed s)"
    "kv_ht_get (db_ht db) = replay rs Map.empty" "\<forall>u. c u = None \<longrightarrow> running s u = None"
    "\<And>u a. c u = Some a \<Longrightarrow> \<exists>ops. running s u = Some ops \<and>
       tx_sim rs (committed s) (kv_ht_get (db_ht db)) (tx_of db a) ops"
    "\<And>k. (\<And>u a. c u = Some a \<Longrightarrow> k \<notin> set (tx_locks (tx_of db a))) \<Longrightarrow> kv_ht_get (db_ht db) k = committed s k"
  shows "sim s c as rs db"
  using assms unfolding sim_def by blast

lemma db_invD:
  assumes "db_inv c as rs db"
  shows "txm_rep (db_txm db) as" "lm_inv (db_lm db)" "ht_inv (db_ht db)" "log_rep (db_rec db) rs"
    "c u = Some a \<Longrightarrow> 0 < u" "c u = Some a \<Longrightarrow> a \<in> set as"
    "c u = Some a \<Longrightarrow> c v = Some a \<Longrightarrow> u = v"
    "lm.holds_exactly (db_lm db) u (case c u of None \<Rightarrow> [] | Some a \<Rightarrow> tx_locks (tx_of db a))"
    "a \<in> set as \<Longrightarrow> tx_ok (tx_of db a)" "a \<in> set as \<Longrightarrow> \<exists>u. c u = Some a"
  using assms unfolding db_inv_def by blast+

lemma tx_read_of: "db_inv c as rs db \<Longrightarrow> a \<in> set as \<Longrightarrow> tx_read (db_txm db) a = Inr (tx_of db a)"
  using tx_read_live [OF db_invD(1)] by (simp add: tx_of_def del: tx_read_Inr)

text \<open>Two transactions never hold the same key.\<close>

lemma locks_disjoint:
  assumes inv: "db_inv c as rs db" and uv: "c u = Some a" "c v = Some b" "u \<noteq> v"
    and k: "k \<in> set (tx_locks (tx_of db a))"
  shows "k \<notin> set (tx_locks (tx_of db b))"
proof
  assume k': "k \<in> set (tx_locks (tx_of db b))"
  have held: "0 < lm_held (db_lm db) w (slot k)" if "c w = Some d" "k \<in> set (tx_locks (tx_of db d))" for w d
  proof -
    have "filter (\<lambda>j. slot j = slot k) (tx_locks (tx_of db d)) \<noteq> []" using that(2) by (auto simp: filter_empty_conv)
    then show ?thesis using db_invD(8) [OF inv, of w] that(1) by (simp add: lm.holds_exactly_def)
  qed
  show False using lm.exclusive [OF db_invD(2) [OF inv] held [OF uv(1) k] held [OF uv(2) k']] uv(3) by contradiction
qed

subsection \<open>A record in the log\<close>

definition log_db :: "nat \<Rightarrow> kv_recovery_log_line \<Rightarrow> kv_db \<Rightarrow> kv_db" where
  "log_db a r db = db\<lparr>db_rec := append_rec r (db_rec db),
     db_txm := tx_update (db_txm db) a (kv_tx_set_last_lsn (tx_of db a) (log_lsn r))\<rparr>"

lemma tx_log_eq:
  assumes "db_inv c as rs db" "a \<in> set as"
    "logger (tx_last_lsn (tx_of db a)) (tx_id (tx_of db a)) (db_rec db) = Inr (log_lsn r, append_rec r (db_rec db))"
  shows "tx_log logger a db = Inr (log_db a r db)"
  using assms(3) tx_read_of [OF assms(1,2)]
  by (simp add: tx_log_def log_db_def kv_tx_last_lsn_def kv_tx_get_id_def del: tx_read_Inr)

lemma tx_of_log_db [simp]:
  "tx_of (log_db a r db) b = (if b = a then kv_tx_set_last_lsn (tx_of db a) (log_lsn r) else tx_of db b)"
  by (simp add: tx_of_def log_db_def)

lemma log_db_simps [simp]:
  "db_ht (log_db a r db) = db_ht db" "db_lm (log_db a r db) = db_lm db"
  "db_rec (log_db a r db) = append_rec r (db_rec db)"
  "tx_locks (kv_tx_set_last_lsn tx n) = tx_locks tx" "tx_id (kv_tx_set_last_lsn tx n) = tx_id tx"
  "tx_last_lsn (kv_tx_set_last_lsn tx n) = n" "tx_ok (kv_tx_set_last_lsn tx n) = tx_ok tx"
  by (simp_all add: log_db_def kv_tx_set_last_lsn_def tx_ok_def)

lemma tx_locks_log_db [simp]: "tx_locks (tx_of (log_db a r db) b) = tx_locks (tx_of db b)"
  by simp

lemma db_inv_log:
  assumes inv: "db_inv c as rs db" and a: "a \<in> set as"
    and r: "line_ok r" "log_lsn r = rec_lsn (db_rec db) + 1" "length rs + 1 < 2 ^ 32"
  shows "db_inv c as (rs @ [r]) (log_db a r db)"
proof -
  obtain tx0 where tx0: "txm_mem (db_txm db) a = Some tx0" using txm_rep_live [OF db_invD(1) [OF inv]] a by blast
  have "txm_rep (db_txm (log_db a r db)) as"
    unfolding log_db_def using txm_rep_update [OF db_invD(1) [OF inv] tx0] tx0 by (simp add: tx_of_def kv_tx_set_last_lsn_def)
  moreover have "log_rep (db_rec (log_db a r db)) (rs @ [r])"
    using log_rep_append [OF db_invD(4) [OF inv] r] by simp
  moreover have "\<forall>b \<in> set as. tx_ok (tx_of (log_db a r db) b)" using db_invD(9) [OF inv] a by auto
  ultimately show ?thesis using inv unfolding db_inv_def tx_locks_log_db log_db_simps by blast
qed

lemma tx_sim_chain:
  assumes "tx_sim rs m h tx ops"
  shows "tx_sim (rs @ qs) m h tx ops"
  using assms unfolding tx_sim_def by (blast intro: chain_append)

text \<open>A record that is neither BEGIN nor UPDATE lengthens the chain only.\<close>

lemma lsn_nat: "log_rep st rs \<Longrightarrow> length rs + 1 < 2 ^ 32 \<Longrightarrow> unat (rec_lsn st + 1) = length rs + 1"
proof -
  assume a: "log_rep st rs" "length rs + 1 < 2 ^ 32"
  have "rec_lsn st + 1 = of_nat (length rs + 1)" using log_rep_lsn [OF a(1)] by simp
  then show ?thesis using a(2) by (simp only: unat_of_nat) (simp add: take_bit_nat_eq_self)
qed

lemma sim_log_skip:
  assumes sim: "sim s c as rs db" and u: "c u = Some a"
    and r: "line_ok r" "log_lsn r = rec_lsn (db_rec db) + 1" "length rs + 1 < 2 ^ 32"
    and ty: "log_prev_lsn r = tx_last_lsn (tx_of db a)" "log_type r \<noteq> KV_REC_BEGIN" "log_type r \<noteq> KV_REC_UPDATE"
      "log_type r \<noteq> KV_REC_CLR"
  shows "sim s c as (rs @ [r]) (log_db a r db)"
proof -
  have inv: "db_inv c as rs db" by (rule simD [OF sim])
  have a: "a \<in> set as" using db_invD(6) [OF inv u] .
  have lsn: "unat (log_lsn r) = length rs + 1" using lsn_nat [OF db_invD(4) [OF inv] r(3)] r(2) by simp
  have own: "tx_sim (rs @ [r]) m h (kv_tx_set_last_lsn (tx_of db a) (log_lsn r)) ops"
    if old: "tx_sim rs m h (tx_of db a) ops" for m h ops
  proof -
    obtain us where us: "chain rs (unat (tx_last_lsn (tx_of db a))) us" "map upd_write us = tx_writes m ops" "consistent us m"
      using old unfolding tx_sim_def by blast
    have "chain (rs @ [r]) (length rs + 1) us" by (rule chain_snoc_skip [OF us(1) ty(1-3)])
    then show ?thesis using old us(2,3) lsn unfolding tx_sim_def by auto
  qed
  have txs: "\<exists>ops. running s v = Some ops \<and>
      tx_sim (rs @ [r]) (committed s) (kv_ht_get (db_ht db)) (tx_of (log_db a r db) b) ops" if v: "c v = Some b" for v b
  proof -
    obtain ops where "running s v = Some ops" "tx_sim rs (committed s) (kv_ht_get (db_ht db)) (tx_of db b) ops"
      using sim v unfolding sim_def by blast
    then show ?thesis using own tx_sim_chain by auto
  qed
  have "replay (rs @ [r]) Map.empty = replay rs Map.empty" using ty by (simp add: replay_skip)
  then show ?thesis
    using sim db_inv_log [OF inv a r] txs unfolding sim_def log_db_simps tx_locks_log_db by metis
qed

lemma commit_rec_ok:
  "typ \<in> {KV_REC_COMMIT, KV_REC_ABORT} \<Longrightarrow> line_ok (short_rec typ n p t)"
  "log_lsn (short_rec typ n p t) = n" "log_prev_lsn (short_rec typ n p t) = p" "log_type (short_rec typ n p t) = typ"
  using short_line_eq(2) [of "typ" n p t] by (auto simp: short_rec_def)

subsection \<open>Starting a transaction\<close>

definition begin_rec :: "kv_db \<Rightarrow> kv_recovery_log_line" where
  "begin_rec db = short_rec KV_REC_BEGIN (rec_lsn (db_rec db) + 1) 0 (transaction_id (db_txm db) + 1)"

lemma db_inv_start:
  assumes inv: "db_inv c as rs db" and u: "c u = None" "0 < u"
    and ids: "unat (transaction_id (db_txm db)) + 1 < 2 ^ 32"
    and st: "kv_txm_start_new_transaction (db_txm db) = Inr (a, txm)"
  shows "db_inv (c(u \<mapsto> a)) (as @ [a]) rs (db\<lparr>db_txm := txm\<rparr>)"
    "tx_of (db\<lparr>db_txm := txm\<rparr>) a = kv_tx_create (transaction_id (db_txm db) + 1)"
    "b \<noteq> a \<Longrightarrow> tx_of (db\<lparr>db_txm := txm\<rparr>) b = tx_of db b" "a \<notin> set as"
proof -
  note r = start_rep [OF db_invD(1) [OF inv] ids st]
  show new: "a \<notin> set as" by (rule r(2))
  show txa: "tx_of (db\<lparr>db_txm := txm\<rparr>) a = kv_tx_create (transaction_id (db_txm db) + 1)"
    using r(3) by (simp add: tx_of_def)
  have txb: "tx_of (db\<lparr>db_txm := txm\<rparr>) b = tx_of db b" if "b \<noteq> a" for b
    using r(4) [OF that] by (simp add: tx_of_def)
  then show "b \<noteq> a \<Longrightarrow> tx_of (db\<lparr>db_txm := txm\<rparr>) b = tx_of db b" .
  have other: "b \<noteq> a" if "c v = Some b" for v b using db_invD(6) [OF inv that] new by auto
  have locks: "lm.holds_exactly (db_lm db) v (case (c(u \<mapsto> a)) v of None \<Rightarrow> []
      | Some b \<Rightarrow> tx_locks (tx_of (db\<lparr>db_txm := txm\<rparr>) b))" for v
  proof (cases "v = u")
    case True
    then show ?thesis using db_invD(8) [OF inv, of u] u(1) txa by (simp add: kv_tx_create_def)
  next
    case False
    then show ?thesis using db_invD(8) [OF inv, of v] txb other by (auto split: option.split)
  qed
  have ok: "\<forall>b \<in> set (as @ [a]). tx_ok (tx_of (db\<lparr>db_txm := txm\<rparr>) b)"
  proof
    fix b assume b: "b \<in> set (as @ [a])"
    show "tx_ok (tx_of (db\<lparr>db_txm := txm\<rparr>) b)"
    proof (cases "b = a")
      case True
      then show ?thesis unfolding True txa by (simp add: tx_ok_def kv_tx_create_def)
    next
      case False
      then show ?thesis using db_invD(9) [OF inv, of b] txb [OF False] b by simp
    qed
  qed
  have own: "\<forall>v b. (c(u \<mapsto> a)) v = Some b \<longrightarrow> 0 < v \<and> b \<in> set (as @ [a])"
    using db_invD(5,6) [OF inv] u(2) by auto
  have inj: "\<forall>v w b. (c(u \<mapsto> a)) v = Some b \<longrightarrow> (c(u \<mapsto> a)) w = Some b \<longrightarrow> v = w"
  proof (intro allI impI)
    fix v w b assume vw: "(c(u \<mapsto> a)) v = Some b" "(c(u \<mapsto> a)) w = Some b"
    show "v = w"
    proof (cases "b = a")
      case True
      have "x = u" if "(c(u \<mapsto> a)) x = Some a" for x using that other [of x a] by (cases "x = u") auto
      then show ?thesis using vw True by blast
    next
      case False
      then have "c v = Some b" "c w = Some b" using vw by (auto split: if_splits)
      then show ?thesis by (rule db_invD(7) [OF inv])
    qed
  qed
  have owner: "\<forall>b \<in> set (as @ [a]). \<exists>v. (c(u \<mapsto> a)) v = Some b"
  proof
    fix b assume b: "b \<in> set (as @ [a])"
    show "\<exists>v. (c(u \<mapsto> a)) v = Some b"
    proof (cases "b = a")
      case False
      then obtain v where "c v = Some b" using db_invD(10) [OF inv, of b] b by auto
      moreover from this have "v \<noteq> u" using u(1) by auto
      ultimately show ?thesis by (intro exI [of _ v]) simp
    qed (auto intro: exI [of _ u])
  qed
  show "db_inv (c(u \<mapsto> a)) (as @ [a]) rs (db\<lparr>db_txm := txm\<rparr>)"
  proof -
    have sel: "db_ht (db\<lparr>db_txm := txm\<rparr>) = db_ht db" "db_lm (db\<lparr>db_txm := txm\<rparr>) = db_lm db"
      "db_rec (db\<lparr>db_txm := txm\<rparr>) = db_rec db" "db_txm (db\<lparr>db_txm := txm\<rparr>) = txm" by simp_all
    show ?thesis
      unfolding db_inv_def sel using db_invD(2-4) [OF inv] r(1) locks ok own inj owner by blast
  qed
qed

lemma begin_tx_sim:
  assumes sim: "sim s c as rs db" and u: "c u = None" "0 < u"
    and ids: "unat (transaction_id (db_txm db)) + 1 < 2 ^ 32" and room: "length rs + 1 < 2 ^ 32"
  shows "\<exists>a db'. begin_tx db = Inr (a, db') \<and> a \<notin> set as \<and> db_lm db' = db_lm db \<and> db_ht db' = db_ht db \<and>
     db_rec db' = append_rec (begin_rec db) (db_rec db) \<and>
     transaction_id (db_txm db') = transaction_id (db_txm db) + 1 \<and>
     tx_id (tx_of db' a) = transaction_id (db_txm db) + 1 \<and> tx_last_lsn (tx_of db' a) = log_lsn (begin_rec db) \<and>
     (\<forall>b. b \<noteq> a \<longrightarrow> tx_of db' b = tx_of db b) \<and>
     sim (s\<lparr>running := (running s)(u \<mapsto> [])\<rparr>) (c(u \<mapsto> a)) (as @ [a]) (rs @ [begin_rec db]) db'"
proof -
  have inv: "db_inv c as rs db" by (rule simD [OF sim])
  obtain a txm where st: "kv_txm_start_new_transaction (db_txm db) = Inr (a, txm)"
    using start_eq [OF db_invD(1) [OF inv]] by blast
  let ?db1 = "db\<lparr>db_txm := txm\<rparr>"
  note s1 = db_inv_start [OF inv u ids st]
  let ?r = "begin_rec db"
  let ?db = "log_db a ?r ?db1"
  have r: "line_ok ?r" "log_lsn ?r = rec_lsn (db_rec ?db1) + 1"
    using short_line_eq(2) [of KV_REC_BEGIN] by (simp_all add: begin_rec_def) (simp add: short_rec_def)
  have inv': "db_inv (c(u \<mapsto> a)) (as @ [a]) (rs @ [?r]) ?db"
    using db_inv_log [OF s1(1) _ r room, of a] by simp
  have log: "tx_log (\<lambda>prev t st. Inr (kv_recovery_begin_log prev t st)) a ?db1 = Inr ?db"
    by (rule tx_log_eq [OF s1(1)]) (simp_all add: s1(2) kv_tx_create_def simple_logs begin_rec_def, simp add: short_rec_def)
  have lsn: "unat (log_lsn ?r) = length rs + 1" using lsn_nat [OF db_invD(4) [OF inv] room] r(2) by simp
  have ch: "chain (rs @ [?r]) (length rs + 1) []"
    by (rule chain_begin) (simp_all add: begin_rec_def short_rec_def)
  have own: "tx_sim (rs @ [?r]) m h (tx_of ?db a) []" for m h
    using ch lsn by (auto simp: tx_sim_def s1(2) kv_tx_create_def intro!: exI [of _ "[]"])
  have tx: "\<exists>ops. running (s\<lparr>running := (running s)(u \<mapsto> [])\<rparr>) v = Some ops \<and>
      tx_sim (rs @ [?r]) (committed s) (kv_ht_get (db_ht db)) (tx_of ?db b) ops" if v: "(c(u \<mapsto> a)) v = Some b" for v b
  proof (cases "v = u")
    case True
    then show ?thesis using v own by auto
  next
    case False
    then have cv: "c v = Some b" using v by simp
    then have b: "b \<noteq> a" using db_invD(6) [OF inv cv] s1(4) by auto
    obtain ops where "running s v = Some ops" "tx_sim rs (committed s) (kv_ht_get (db_ht db)) (tx_of db b) ops"
      using sim cv unfolding sim_def by blast
    then show ?thesis using False b s1(3) [OF b] tx_sim_chain by auto
  qed
  have unlocked: "kv_ht_get (db_ht db) k = committed s k"
    if k: "\<And>v b. (c(u \<mapsto> a)) v = Some b \<Longrightarrow> k \<notin> set (tx_locks (tx_of ?db b))" for k
  proof -
    have "k \<notin> set (tx_locks (tx_of db b))" if cv: "c v = Some b" for v b
    proof -
      have "b \<noteq> a" "v \<noteq> u" using db_invD(6) [OF inv cv] s1(4) u cv by auto
      then show ?thesis using k [of v b] cv s1(3) [of b] by simp
    qed
    then show ?thesis using sim unfolding sim_def by blast
  qed
  have idle: "\<forall>v. (c(u \<mapsto> a)) v = None \<longrightarrow> running (s\<lparr>running := (running s)(u \<mapsto> [])\<rparr>) v = None"
    using sim unfolding sim_def by auto
  have "sim (s\<lparr>running := (running s)(u \<mapsto> [])\<rparr>) (c(u \<mapsto> a)) (as @ [a]) (rs @ [?r]) ?db"
    unfolding sim_def using inv' tx unlocked idle sim
    by (auto simp: sim_def begin_rec_def replay_skip commit_rec_ok)
  moreover have "begin_tx db = Inr (a, ?db)" using log by (simp add: begin_tx_def st)
  moreover have "transaction_id (db_txm ?db) = transaction_id (db_txm db) + 1"
    using start_rep(5) [OF db_invD(1) [OF inv] ids st] by (simp add: log_db_def)
  moreover have "tx_id (tx_of ?db a) = transaction_id (db_txm db) + 1" "tx_last_lsn (tx_of ?db a) = log_lsn (begin_rec db)"
    by (simp_all add: s1(2) kv_tx_create_def)
  moreover have "\<forall>b. b \<noteq> a \<longrightarrow> tx_of ?db b = tx_of db b" using s1(3) by simp
  ultimately show ?thesis using s1(4) by (intro exI [of _ a] exI [of _ ?db]) (simp del: tx_of_log_db)
qed

subsection \<open>Locking a key\<close>

definition lock_db :: "nat \<Rightarrow> string \<Rightarrow> kv_lm \<Rightarrow> kv_db \<Rightarrow> kv_db" where
  "lock_db a k lm db = db\<lparr>db_lm := lm, db_txm := tx_update (db_txm db) a
     ((tx_of db a)\<lparr>tx_head_null := False, tx_locks := tx_locks (tx_of db a) @ [k]\<rparr>)\<rparr>"

lemma lock_db_simps [simp]:
  "db_ht (lock_db a k lm db) = db_ht db" "db_lm (lock_db a k lm db) = lm" "db_rec (lock_db a k lm db) = db_rec db"
  "tx_of (lock_db a k lm db) b =
     (if b = a then (tx_of db a)\<lparr>tx_head_null := False, tx_locks := tx_locks (tx_of db a) @ [k]\<rparr> else tx_of db b)"
  by (simp_all add: lock_db_def tx_of_def)

lemma lock_key_eq:
  assumes "db_inv c as rs db" "a \<in> set as"
  shows "lock_key self b k a db = map_res (\<lambda>lm. lock_db a k lm db) (kv_lm_wlock self (db_lm db) k)"
  using tx_read_of [OF assms] kv_tx_add_lock_ok [OF db_invD(9) [OF assms]]
  by (cases "kv_lm_wlock self (db_lm db) k") (simp_all add: lock_key_def lock_db_def rlock_is_wlock del: tx_read_Inr)

lemma db_inv_lock:
  assumes inv: "db_inv c as rs db" and u: "c u = Some a" and lm: "kv_lm_wlock u (db_lm db) k = Inr lm"
  shows "db_inv c as rs (lock_db a k lm db)"
proof -
  have u0: "0 < u" and a: "a \<in> set as" using db_invD(5,6) [OF inv u] by auto
  obtain tx0 where tx0: "txm_mem (db_txm db) a = Some tx0" using txm_rep_live [OF db_invD(1) [OF inv]] a by blast
  have "txm_rep (db_txm (lock_db a k lm db)) as"
    unfolding lock_db_def using txm_rep_update [OF db_invD(1) [OF inv] tx0] tx0 by (simp add: tx_of_def)
  moreover have "lm_inv lm" using lm.acquire_inv [OF db_invD(2) [OF inv] u0 lm] .
  moreover have "lm.holds_exactly lm v (case c v of None \<Rightarrow> []
      | Some b \<Rightarrow> tx_locks (tx_of (lock_db a k lm db) b))" for v
  proof (cases "v = u")
    case True
    then show ?thesis using lm.acquire_holds [OF db_invD(2) [OF inv] u0 _ lm] db_invD(8) [OF inv, of u] u by simp
  next
    case False
    then have "b \<noteq> a" if "c v = Some b" for b using db_invD(7) [OF inv u, of v] that by auto
    then show ?thesis
      using lm.other_holds [OF db_invD(2) [OF inv] u0 lm False] db_invD(8) [OF inv, of v] by (auto split: option.split)
  qed
  moreover have "\<forall>b \<in> set as. tx_ok (tx_of (lock_db a k lm db) b)"
    using db_invD(9) [OF inv] by (simp add: tx_ok_def)
  ultimately show ?thesis using inv unfolding db_inv_def by simp
qed

text \<open>The view of a transaction agrees with the table on a key it just locked.\<close>

lemma sim_view:
  assumes sim: "sim s c as rs db" and u: "c u = Some a" and ops: "running s u = Some ops"
    and free: "\<And>v b. v \<noteq> u \<Longrightarrow> c v = Some b \<Longrightarrow> k \<notin> set (tx_locks (tx_of db b))"
  shows "kv_ht_get (db_ht db) k = tx_view (committed s) ops k"
proof (cases "k \<in> set (tx_locks (tx_of db a))")
  case True
  then show ?thesis using sim u ops unfolding sim_def tx_sim_def by fastforce
next
  case False
  have keys: "tx_keys ops \<subseteq> set (tx_locks (tx_of db a))" using sim u ops unfolding sim_def tx_sim_def by fastforce
  then have "k \<notin> fst ` set (tx_writes (committed s) ops)" using False tx_writes_keys by blast
  then have "tx_view (committed s) ops k = committed s k" by (simp add: tx_view_def map_writes_other)
  moreover have "kv_ht_get (db_ht db) k = committed s k"
    using sim u free False unfolding sim_def by (metis option.inject)
  ultimately show ?thesis by simp
qed

lemma sim_lock:
  assumes sim: "sim s c as rs db" and u: "c u = Some a" and lm: "kv_lm_wlock u (db_lm db) k = Inr lm"
  shows "sim s c as rs (lock_db a k lm db)"
    "v \<noteq> u \<Longrightarrow> c v = Some b \<Longrightarrow> k \<notin> set (tx_locks (tx_of db b))"
proof -
  have inv: "db_inv c as rs db" by (rule simD [OF sim])
  note inv' = db_inv_lock [OF inv u lm]
  have free: "k \<notin> set (tx_locks (tx_of db b))" if vb: "v \<noteq> u" "c v = Some b" for v b
  proof -
    have "b \<noteq> a" using db_invD(7) [OF inv u, of v] vb by auto
    then show ?thesis using locks_disjoint [OF inv' u vb(2), of k] vb(1) by simp
  qed
  then show "v \<noteq> u \<Longrightarrow> c v = Some b \<Longrightarrow> k \<notin> set (tx_locks (tx_of db b))" .
  have tx: "\<exists>ops. running s v = Some ops \<and>
      tx_sim rs (committed s) (kv_ht_get (db_ht db)) (tx_of (lock_db a k lm db) b) ops" if v: "c v = Some b" for v b
  proof -
    obtain ops where ops: "running s v = Some ops" "tx_sim rs (committed s) (kv_ht_get (db_ht db)) (tx_of db b) ops"
      using sim v unfolding sim_def by blast
    show ?thesis
    proof (cases "v = u")
      case True
      then have b: "b = a" using u v by simp
      have "kv_ht_get (db_ht db) k = tx_view (committed s) ops k"
        using sim_view [OF sim u _ free, of ops] ops(1) True by simp
      then show ?thesis using ops b by (auto simp: tx_sim_def)
    next
      case False
      then have "b \<noteq> a" using db_invD(7) [OF inv u, of v] v by auto
      then show ?thesis using ops by auto
    qed
  qed
  have unlocked: "kv_ht_get (db_ht db) k' = committed s k'"
    if k: "\<And>v b. c v = Some b \<Longrightarrow> k' \<notin> set (tx_locks (tx_of (lock_db a k lm db) b))" for k'
  proof -
    have "k' \<notin> set (tx_locks (tx_of db b))" if "c v = Some b" for v b
      using k [OF that] by (auto split: if_splits)
    then show ?thesis using sim unfolding sim_def by blast
  qed
  show "sim s c as rs (lock_db a k lm db)"
    using inv' tx unlocked sim unfolding sim_def lock_db_simps(1) by blast
qed

subsection \<open>Data commands\<close>

lemma sim_opsE:
  assumes "sim s c as rs db" "c u = Some a"
  obtains ops where "running s u = Some ops" "tx_sim rs (committed s) (kv_ht_get (db_ht db)) (tx_of db a) ops"
  using assms unfolding sim_def by blast

abbreviation add_op :: "thread \<Rightarrow> (command \<times> string) list \<Rightarrow> command \<Rightarrow> store \<Rightarrow> store" where
  "add_op u ops cmd s \<equiv>
     s\<lparr>running := (running s)(u \<mapsto> ops @ [(cmd, data_reply cmd (tx_view (committed s) ops))])\<rparr>"

lemma serial_snoc:
  assumes "fst (serial (map fst ops) m) = map snd ops"
  shows "fst (serial (map fst (ops @ [(cmd, data_reply cmd (tx_view m ops))])) m) =
     map snd (ops @ [(cmd, data_reply cmd (tx_view m ops))])"
  using assms by (simp add: serial_append tx_view_def tx_writes_def Let_def case_prod_unfold)

text \<open>A command that writes nothing, on a key that is locked.\<close>

lemma sim_read:
  assumes sim: "sim s c as rs db" and u: "c u = Some a" and ops: "running s u = Some ops"
    and k: "command_key cmd = Some k" "k \<in> set (tx_locks (tx_of db a))"
    and none: "data_writes cmd (tx_view (committed s) ops) = []"
  shows "sim (add_op u ops cmd s) c as rs db"
proof -
  have own: "tx_sim rs (committed s) (kv_ht_get (db_ht db)) (tx_of db a) ops"
    using sim u ops unfolding sim_def by fastforce
  have "tx_sim rs (committed s) (kv_ht_get (db_ht db)) (tx_of db a)
     (ops @ [(cmd, data_reply cmd (tx_view (committed s) ops))])"
    using own k none serial_snoc [of ops "committed s" cmd] unfolding tx_sim_def by simp
  moreover have "db_inv c as rs db" by (rule simD [OF sim])
  ultimately have tx: "\<exists>ops'. running (add_op u ops cmd s) v = Some ops' \<and>
      tx_sim rs (committed s) (kv_ht_get (db_ht db)) (tx_of db b) ops'" if v: "c v = Some b" for v b
    using sim_opsE [OF sim v] u v by (cases "v = u") auto
  have com: "committed (add_op u ops cmd s) = committed s" by simp
  have idle: "\<forall>v. c v = None \<longrightarrow> running (add_op u ops cmd s) v = None" using sim u unfolding sim_def by auto
  show ?thesis
  proof (rule simI, unfold com)
    show "kv_ht_get (db_ht db) k' = committed s k'"
      if "\<And>v b. c v = Some b \<Longrightarrow> k' \<notin> set (tx_locks (tx_of db b))" for k'
      using simD(5) [OF sim that] by simp
  qed (erule tx | rule simD(1-4) [OF sim] idle)+
qed

text \<open>A command that writes \<open>v\<close>, empty for a deletion, to a key that is locked.\<close>

definition update_db :: "nat \<Rightarrow> string \<Rightarrow> string \<Rightarrow> kv_db \<Rightarrow> kv_db" where
  "update_db a k v db =
     (log_db a (update_rec (rec_lsn (db_rec db) + 1) (tx_last_lsn (tx_of db a)) (tx_id (tx_of db a)) k
        (str_of (kv_ht_get (db_ht db) k)) v) db)
     \<lparr>db_ht := ht.apply_write (k, val_of v) (db_ht db)\<rparr>"

lemma tx_of_ht [simp]: "tx_of (db\<lparr>db_ht := ht\<rparr>) b = tx_of db b"
  by (simp add: tx_of_def)

lemma db_inv_ht: "db_inv c as rs db \<Longrightarrow> ht_inv ht \<Longrightarrow> db_inv c as rs (db\<lparr>db_ht := ht\<rparr>)"
  unfolding db_inv_def tx_of_ht by simp

lemma sim_update:
  assumes sim: "sim s c as rs db" and u: "c u = Some a" and ops: "running s u = Some ops"
    and k: "command_key cmd = Some k" "k \<in> set (tx_locks (tx_of db a))" "small_str k" "small_str v"
    and wr: "data_writes cmd (tx_view (committed s) ops) = [(k, val_of v)]"
    and eff: "kv_ht_get (db_ht db) k \<noteq> None \<or> v \<noteq> []"
    and room: "length rs + 1 < 2 ^ 32"
  shows "\<exists>r. log_tx_id r = tx_id (tx_of db a) \<and> log_type r = KV_REC_UPDATE \<and>
     tx_of (update_db a k v db) = (tx_of db)(a := kv_tx_set_last_lsn (tx_of db a) (log_lsn r)) \<and>
     sim (add_op u ops cmd s) c as (rs @ [r]) (update_db a k v db)"
proof -
  have inv: "db_inv c as rs db" by (rule simD [OF sim])
  have a: "a \<in> set as" using db_invD(6) [OF inv u] .
  let ?h = "kv_ht_get (db_ht db)"
  let ?old = "str_of (?h k)"
  let ?r = "update_rec (rec_lsn (db_rec db) + 1) (tx_last_lsn (tx_of db a)) (tx_id (tx_of db a)) k ?old v"
  let ?h' = "kv_ht_get (db_ht (update_db a k v db))"
  let ?ops = "ops @ [(cmd, data_reply cmd (tx_view (committed s) ops))]"
  have vals: "vals_ok ?h" by (rule simD [OF sim])
  have old: "val_of ?old = ?h k" "small_str ?old"
    using vals by (auto simp: vals_ok_def val_of_def str_of_def split: option.split)
  have h': "?h' = ?h(k := val_of v)"
    using ht.get_write [OF db_invD(3) [OF inv], of "(k, val_of v)"] by (simp add: update_db_def)
  have r: "line_ok ?r" "log_lsn ?r = rec_lsn (db_rec db) + 1"
    using k(3,4) old(2) by (simp_all add: line_ok_def update_rec_def)
  have lsn: "unat (log_lsn ?r) = length rs + 1" using lsn_nat [OF db_invD(4) [OF inv] room] r(2) by simp
  have inv': "db_inv c as (rs @ [?r]) (update_db a k v db)"
    unfolding update_db_def by (rule db_inv_ht [OF db_inv_log [OF inv a r room]])
      (use ht.invar_write [OF db_invD(3) [OF inv]] in simp)
  have txs: "tx_of (update_db a k v db) b = tx_of (log_db a ?r db) b" for b by (simp add: update_db_def tx_of_def)
  have own: "tx_sim rs (committed s) ?h (tx_of db a) ops" using sim u ops unfolding sim_def by fastforce
  then obtain us where us: "chain rs (unat (tx_last_lsn (tx_of db a))) us"
    "map upd_write us = tx_writes (committed s) ops" "consistent us (committed s)" unfolding tx_sim_def by blast
  have view: "?h k = tx_view (committed s) ops k" using own k(2) unfolding tx_sim_def by blast
  have ch: "chain (rs @ [?r]) (length rs + 1) (us @ [rec_upd ?r])"
    by (rule chain_snoc_update [OF us(1)]) (simp_all add: update_rec_def)
  have up: "rec_upd ?r = \<lparr>upd_key = k, upd_old = ?old, upd_new = v\<rparr>" by (simp add: rec_upd_def update_rec_def)
  have w: "map upd_write (us @ [rec_upd ?r]) = tx_writes (committed s) ?ops"
    using us(2) wr by (simp add: up upd_write_def)
  have eff': "?old \<noteq> [] \<or> v \<noteq> []" using eff vals by (auto simp: str_of_def vals_ok_def split: option.splits)
  have cons: "consistent (us @ [rec_upd ?r]) (committed s)"
  proof -
    have "map_writes (tx_writes (committed s) ops) (committed s) k = val_of ?old"
      unfolding old(1) using view by (simp add: tx_view_def)
    then show ?thesis unfolding consistent_append up us(2) using us(3) eff' by (simp del: val_str)
  qed
  have own': "tx_sim (rs @ [?r]) (committed s) ?h' (tx_of (update_db a k v db) a) ?ops"
  proof -
    have "tx_keys ?ops \<subseteq> set (tx_locks (tx_of db a))" using own k(1,2) by (simp add: tx_sim_def)
    moreover have "\<forall>k' \<in> set (tx_locks (tx_of db a)). ?h' k' = tx_view (committed s) ?ops k'"
      using own wr unfolding tx_sim_def h' by simp
    moreover have "fst (serial (map fst ?ops) (committed s)) = map snd ?ops"
      using own by (intro serial_snoc) (simp add: tx_sim_def)
    ultimately show ?thesis using ch w cons lsn unfolding tx_sim_def txs by auto
  qed
  have tx: "\<exists>ops'. running (add_op u ops cmd s) w = Some ops' \<and>
      tx_sim (rs @ [?r]) (committed s) ?h' (tx_of (update_db a k v db) b) ops'" if w: "c w = Some b" for w b
  proof (cases "w = u")
    case True
    then show ?thesis using own' u w by auto
  next
    case False
    then have b: "b \<noteq> a" using db_invD(7) [OF inv u, of w] w by auto
    have "k \<notin> set (tx_locks (tx_of db b))" using locks_disjoint [OF inv u w _ k(2)] False by blast
    moreover obtain ops' where "running s w = Some ops'" "tx_sim rs (committed s) ?h (tx_of db b) ops'"
      using sim_opsE [OF sim w] .
    ultimately show ?thesis
      using False b tx_sim_chain [of rs "committed s" ?h "tx_of db b" ops' "[?r]"]
      unfolding txs h' by (auto simp: tx_sim_def)
  qed
  have unlocked: "?h' k' = committed s k'"
    if k': "\<And>w b. c w = Some b \<Longrightarrow> k' \<notin> set (tx_locks (tx_of (update_db a k v db) b))" for k'
  proof -
    have nl: "k' \<notin> set (tx_locks (tx_of db b))" if "c w = Some b" for w b
      using k' [OF that] unfolding txs tx_locks_log_db .
    then have "k' \<noteq> k" using u k(2) by blast
    then show ?thesis using simD(5) [OF sim nl] unfolding h' by simp
  qed
  have vals': "vals_ok ?h'" using vals k(3,4) unfolding h' by (auto simp: vals_ok_def val_of_def split: if_splits)
  have com: "committed (add_op u ops cmd s) = committed s" by simp
  have idle: "\<forall>w. c w = None \<longrightarrow> running (add_op u ops cmd s) w = None" using sim u unfolding sim_def by auto
  have rp: "?h' = replay (rs @ [?r]) Map.empty"
    unfolding h' simD(4) [OF sim] by (simp add: replay_rec_def update_rec_def)
  have "sim (add_op u ops cmd s) c as (rs @ [?r]) (update_db a k v db)"
  proof (rule simI, unfold com)
    show "?h' k' = committed s k'"
      if "\<And>w b. c w = Some b \<Longrightarrow> k' \<notin> set (tx_locks (tx_of (update_db a k v db) b))" for k'
      using unlocked [OF that] .
  qed (erule tx | rule inv' vals' rp idle simD(3) [OF sim])+
  moreover have "tx_of (update_db a k v db) = (tx_of db)(a := kv_tx_set_last_lsn (tx_of db a) (log_lsn ?r))"
    by (intro ext) (simp add: txs)
  moreover have "log_tx_id ?r = tx_id (tx_of db a)" "log_type ?r = KV_REC_UPDATE" by (simp_all add: update_rec_def)
  ultimately show ?thesis by blast
qed

subsection \<open>Ending a transaction\<close>

lemma db_inv_end:
  assumes inv: "db_inv c (a # as) rs db" and u: "c u = Some a"
  shows "\<exists>db'. end_tx u a db = Inr db' \<and> db_inv (c(u := None)) as rs db' \<and> db_ht db' = db_ht db \<and>
     db_rec db' = db_rec db \<and> (\<forall>b. b \<noteq> a \<longrightarrow> tx_of db' b = tx_of db b) \<and>
     transaction_id (db_txm db') = transaction_id (db_txm db) \<and>
     lm_held (db_lm db') u = (\<lambda>_. 0) \<and> (\<forall>v. v \<noteq> u \<longrightarrow> lm_held (db_lm db') v = lm_held (db_lm db) v)"
proof -
  have u0: "0 < u" using db_invD(5) [OF inv u] .
  obtain tx where tx: "txm_mem (db_txm db) a = Some tx" using txm_rep_live [OF db_invD(1) [OF inv], of a] by auto
  then have txa: "tx_of db a = tx" by (simp add: tx_of_def)
  obtain ll where ll: "ll_rep ll as" "kv_txm_end_transaction u (db_lm db) a (db_txm db) =
     Inr (fst (kv_tx_unlock_all u (db_lm db) tx),
          (db_txm db)\<lparr>tx_list := ll, txm_mem := (txm_mem (db_txm db))(a := None)\<rparr>)"
    using end_oldest [OF db_invD(1) [OF inv] tx, of u "db_lm db"] by blast
  let ?lm = "fst (kv_tx_unlock_all u (db_lm db) tx)"
  let ?txm = "(db_txm db)\<lparr>tx_list := ll, txm_mem := (txm_mem (db_txm db))(a := None)\<rparr>"
  let ?db = "db\<lparr>db_lm := ?lm, db_txm := ?txm\<rparr>"
  have sel: "db_ht ?db = db_ht db" "db_lm ?db = ?lm" "db_rec ?db = db_rec db" "db_txm ?db = ?txm" by simp_all
  have ended: "end_tx u a db = Inr ?db" by (simp add: end_tx_def ll(2))
  have txb: "tx_of ?db b = tx_of db b" if "b \<noteq> a" for b using that by (simp add: tx_of_def)
  have "lm.holds_exactly (db_lm db) u (tx_locks tx)" using db_invD(8) [OF inv, of u] u txa by simp
  note un = kv_tx_unlock_all_correct [OF db_invD(2) [OF inv] u0 this]
  have other: "b \<noteq> a" if "c v = Some b" "v \<noteq> u" for v b using db_invD(7) [OF inv u, of v] that by auto
  have locks: "\<forall>v. lm.holds_exactly ?lm v (case (c(u := None)) v of None \<Rightarrow> [] | Some b \<Rightarrow> tx_locks (tx_of ?db b))"
  proof
    fix v
    show "lm.holds_exactly ?lm v (case (c(u := None)) v of None \<Rightarrow> [] | Some b \<Rightarrow> tx_locks (tx_of ?db b))"
    proof (cases "v = u")
      case True
      then show ?thesis using un(2) by simp
    next
      case False
      then have "(case (c(u := None)) v of None \<Rightarrow> [] | Some b \<Rightarrow> tx_locks (tx_of ?db b)) =
          (case c v of None \<Rightarrow> [] | Some b \<Rightarrow> tx_locks (tx_of db b))"
        using other txb by (auto split: option.split)
      then show ?thesis using db_invD(8) [OF inv, of v] un(3) [OF False] by (simp add: lm.holds_exactly_def)
    qed
  qed
  have rep: "txm_rep ?txm as" by (rule end_oldest_rep [OF db_invD(1) [OF inv] ll(1)])
  have dist: "a \<notin> set as" using txm_repD(2) [OF db_invD(1) [OF inv]] by simp
  have ok: "\<forall>b \<in> set as. tx_ok (tx_of ?db b)"
  proof
    fix b assume b: "b \<in> set as"
    then have ba: "b \<noteq> a" using dist by blast
    show "tx_ok (tx_of ?db b)" unfolding txb [OF ba] by (rule db_invD(9) [OF inv]) (simp add: b)
  qed
  have own: "\<forall>v b. (c(u := None)) v = Some b \<longrightarrow> 0 < v \<and> b \<in> set as"
  proof (intro allI impI)
    fix v b assume "(c(u := None)) v = Some b"
    then have cv: "c v = Some b" "v \<noteq> u" by (auto split: if_splits)
    show "0 < v \<and> b \<in> set as" using db_invD(5,6) [OF inv cv(1)] other [OF cv] by simp
  qed
  have owner: "\<forall>b \<in> set as. \<exists>v. (c(u := None)) v = Some b"
  proof
    fix b assume b: "b \<in> set as"
    then obtain v where v: "c v = Some b" using db_invD(10) [OF inv, of b] by auto
    have "v \<noteq> u" using v u b dist by auto
    then show "\<exists>v. (c(u := None)) v = Some b" using v by (intro exI [of _ v]) simp
  qed
  have inj: "\<forall>v w b. (c(u := None)) v = Some b \<longrightarrow> (c(u := None)) w = Some b \<longrightarrow> v = w"
    using db_invD(7) [OF inv] by (auto split: if_splits)
  have "db_inv (c(u := None)) as rs ?db"
    unfolding db_inv_def sel using rep un(1) db_invD(3,4) [OF inv] own inj owner locks ok by blast
  moreover have "lm_held ?lm u = (\<lambda>_. 0)" using un(2) by (simp add: lm.holds_exactly_def fun_eq_iff)
  moreover have "lm_held ?lm v = lm_held (db_lm db) v" if "v \<noteq> u" for v using un(3) [OF that] by (rule ext)
  ultimately show ?thesis using ended txb by (intro exI [of _ ?db]) simp
qed

lemma end_tx_younger:
  assumes inv: "db_inv c (b # as) rs db" and a: "a \<in> set as"
  shows "end_tx u a db = Inl Uninit"
  using end_younger [OF db_invD(1) [OF inv] a] by (simp add: end_tx_def)

lemma consistent_local:
  "\<forall>k \<in> upd_key ` set us. m k = m' k \<Longrightarrow> consistent us m = consistent us m'"
proof (induction us arbitrary: m m')
  case (Cons x us)
  have "consistent us (map_write (upd_write x) m) = consistent us (map_write (upd_write x) m')"
    using Cons.prems by (intro Cons.IH) (auto simp: upd_write_def)
  then show ?case using Cons.prems by simp
qed simp

lemma upd_keys: "map upd_write us = ws \<Longrightarrow> upd_key ` set us = fst ` set ws"
  by (induction us arbitrary: ws) (auto simp: upd_write_def)

lemma tx_sim_local:
  assumes sim: "tx_sim rs m h tx ops" and m: "\<forall>k \<in> set (tx_locks tx). m' k = m k \<and> h' k = h k"
  shows "tx_sim rs m' h' tx ops"
proof -
  have keys: "tx_keys ops \<subseteq> set (tx_locks tx)" using sim by (simp add: tx_sim_def)
  then have agree: "\<forall>k \<in> tx_keys ops. m k = m' k" using m by auto
  have w: "tx_writes m ops = tx_writes m' ops" by (rule tx_writes_local [OF agree])
  have ser: "serial (map fst ops) m = serial (map fst ops) m'"
  proof (intro serial_local ballI)
    fix c k assume "c \<in> set (map fst ops)" "k \<in> set_option (command_key c)"
    then have "k \<in> tx_keys ops" by (force simp: tx_keys_def)
    then show "m k = m' k" using agree by blast
  qed
  have cons: "consistent us m'" if us: "consistent us m" "map upd_write us = tx_writes m ops" for us
  proof -
    have "upd_key ` set us \<subseteq> tx_keys ops" using upd_keys [OF us(2)] tx_writes_keys by simp
    then show ?thesis using us(1) consistent_local [of us m m'] agree by blast
  qed
  have view: "tx_view m' ops k = tx_view m ops k" if "k \<in> set (tx_locks tx)" for k
    unfolding tx_view_def w using m that by (intro map_writes_key) simp
  show ?thesis using sim cons view m unfolding tx_sim_def w ser by fastforce
qed

text \<open>
  What is left when one transaction has gone: the others do not notice, if the contents
  changed on its keys only.
\<close>

lemma sim_forget:
  assumes sim: "sim s c as0 rs db" and u: "c u = Some a"
    and inv': "db_inv (c(u := None)) as (rs @ qs) db'"
    and txs: "\<And>b. b \<noteq> a \<Longrightarrow> tx_of db' b = tx_of db b"
    and out: "\<And>k. k \<notin> set (tx_locks (tx_of db a)) \<Longrightarrow>
       m' k = committed s k \<and> kv_ht_get (db_ht db') k = kv_ht_get (db_ht db) k"
    and ins: "\<And>k. k \<in> set (tx_locks (tx_of db a)) \<Longrightarrow> kv_ht_get (db_ht db') k = m' k"
    and vals: "vals_ok (kv_ht_get (db_ht db'))" "vals_ok m'"
    and rp: "kv_ht_get (db_ht db') = replay (rs @ qs) Map.empty"
  shows "sim (s\<lparr>committed := m', running := (running s)(u := None)\<rparr>) (c(u := None)) as (rs @ qs) db'"
proof -
  have inv: "db_inv c as0 rs db" by (rule simD [OF sim])
  have tx: "\<exists>ops. ((running s)(u := None)) v = Some ops \<and>
      tx_sim (rs @ qs) m' (kv_ht_get (db_ht db')) (tx_of db' b) ops" if v: "(c(u := None)) v = Some b" for v b
  proof -
    have cv: "c v = Some b" "v \<noteq> u" using v by (auto split: if_splits)
    have b: "b \<noteq> a" using db_invD(7) [OF inv u, of v] cv by auto
    obtain ops where ops: "running s v = Some ops" "tx_sim rs (committed s) (kv_ht_get (db_ht db)) (tx_of db b) ops"
      using sim_opsE [OF sim cv(1)] .
    have "k \<notin> set (tx_locks (tx_of db a))" if "k \<in> set (tx_locks (tx_of db b))" for k
      using locks_disjoint [OF inv cv(1) u cv(2) that] .
    then have "tx_sim (rs @ qs) m' (kv_ht_get (db_ht db')) (tx_of db b) ops"
      using out by (intro tx_sim_local [OF tx_sim_chain [OF ops(2)]]) blast
    then show ?thesis using ops(1) cv(2) txs [OF b] by simp
  qed
  have unlocked: "kv_ht_get (db_ht db') k = m' k"
    if k: "\<And>v b. (c(u := None)) v = Some b \<Longrightarrow> k \<notin> set (tx_locks (tx_of db' b))" for k
  proof (cases "k \<in> set (tx_locks (tx_of db a))")
    case False
    have "k \<notin> set (tx_locks (tx_of db b))" if cv: "c v = Some b" for v b
    proof (cases "v = u")
      case True
      then show ?thesis using cv u False by simp
    next
      case v: False
      then have "b \<noteq> a" using db_invD(7) [OF inv u, of v] cv by auto
      then show ?thesis using k [of v b] cv v txs by simp
    qed
    then have "kv_ht_get (db_ht db) k = committed s k" using sim unfolding sim_def by blast
    then show ?thesis using out [OF False] by simp
  qed (rule ins)
  have idle: "\<forall>v. (c(u := None)) v = None \<longrightarrow> ((running s)(u := None)) v = None" using sim unfolding sim_def by auto
  show ?thesis using inv' vals rp tx unlocked idle unfolding sim_def by simp
qed

lemma vals_ok_view:
  assumes "sim s c as rs db" "c u = Some a" "running s u = Some ops"
  shows "vals_ok (tx_view (committed s) ops)"
proof -
  have ts: "tx_sim rs (committed s) (kv_ht_get (db_ht db)) (tx_of db a) ops" using sim_opsE [OF assms(1,2)] assms(3) by auto
  have "tx_view (committed s) ops k = (if k \<in> set (tx_locks (tx_of db a)) then kv_ht_get (db_ht db) k else committed s k)" for k
  proof (cases "k \<in> set (tx_locks (tx_of db a))")
    case False
    then have "k \<notin> fst ` set (tx_writes (committed s) ops)"
      using ts tx_writes_keys unfolding tx_sim_def by blast
    then show ?thesis using False by (simp add: tx_view_def map_writes_other)
  qed (use ts in \<open>simp add: tx_sim_def\<close>)
  moreover have "vals_ok (kv_ht_get (db_ht db))" "vals_ok (committed s)" by (rule simD [OF assms(1)])+
  ultimately show ?thesis by (simp add: vals_ok_def)
qed

lemma view_out:
  assumes "tx_sim rs m h tx ops" "k \<notin> set (tx_locks tx)"
  shows "tx_view m ops k = m k"
proof -
  have "k \<notin> fst ` set (tx_writes m ops)" using assms tx_writes_keys unfolding tx_sim_def by blast
  then show ?thesis by (simp add: tx_view_def map_writes_other)
qed

text \<open>The second half of a commit: the transaction leaves the list and its locks are released.\<close>

lemma end_sim:
  assumes sim: "sim s c (a # as) rs db" and u: "c u = Some a" and ops: "running s u = Some ops"
  shows "\<exists>db'. end_tx u a db = Inr db' \<and> db_ht db' = db_ht db \<and> db_rec db' = db_rec db \<and>
     transaction_id (db_txm db') = transaction_id (db_txm db) \<and> (\<forall>b. b \<noteq> a \<longrightarrow> tx_of db' b = tx_of db b) \<and>
     lm_held (db_lm db') u = (\<lambda>_. 0) \<and> (\<forall>v. v \<noteq> u \<longrightarrow> lm_held (db_lm db') v = lm_held (db_lm db) v) \<and>
     sim (s\<lparr>committed := tx_view (committed s) ops, running := (running s)(u := None)\<rparr>) (c(u := None)) as rs db'"
proof -
  obtain db' where d: "end_tx u a db = Inr db'" "db_inv (c(u := None)) as rs db'"
     "db_ht db' = db_ht db" "db_rec db' = db_rec db" "\<And>b. b \<noteq> a \<Longrightarrow> tx_of db' b = tx_of db b"
     "transaction_id (db_txm db') = transaction_id (db_txm db)"
     "lm_held (db_lm db') u = (\<lambda>_. 0)" "\<forall>v. v \<noteq> u \<longrightarrow> lm_held (db_lm db') v = lm_held (db_lm db) v"
    using db_inv_end [OF simD(1) [OF sim] u] by auto
  have ts: "tx_sim rs (committed s) (kv_ht_get (db_ht db)) (tx_of db a) ops" using sim_opsE [OF sim u] ops by auto
  have "sim (s\<lparr>committed := tx_view (committed s) ops, running := (running s)(u := None)\<rparr>) (c(u := None)) as (rs @ []) db'"
  proof (rule sim_forget [OF sim u])
    show "db_inv (c(u := None)) as (rs @ []) db'" using d(2) by simp
    show "vals_ok (tx_view (committed s) ops)" by (rule vals_ok_view [OF sim u ops])
    show "vals_ok (kv_ht_get (db_ht db'))" unfolding d(3) by (rule simD [OF sim])
    show "kv_ht_get (db_ht db') = replay (rs @ []) Map.empty" using simD(4) [OF sim] d(3) by simp
    show "tx_view (committed s) ops k = committed s k \<and> kv_ht_get (db_ht db') k = kv_ht_get (db_ht db) k"
      if "k \<notin> set (tx_locks (tx_of db a))" for k
      using view_out [OF ts that] d(3) by simp
    show "kv_ht_get (db_ht db') k = tx_view (committed s) ops k" if "k \<in> set (tx_locks (tx_of db a))" for k
      using ts that d(3) unfolding tx_sim_def by simp
  qed (rule d(5))
  then show ?thesis using d by (intro exI [of _ db']) simp
qed

text \<open>The first half: the COMMIT record.\<close>

abbreviation commit_rec :: "nat \<Rightarrow> kv_db \<Rightarrow> kv_recovery_log_line" where
  "commit_rec a db \<equiv> short_rec KV_REC_COMMIT (rec_lsn (db_rec db) + 1) (tx_last_lsn (tx_of db a)) (tx_id (tx_of db a))"

abbreviation abort_rec :: "nat \<Rightarrow> kv_db \<Rightarrow> kv_recovery_log_line" where
  "abort_rec a db \<equiv> short_rec KV_REC_ABORT (rec_lsn (db_rec db) + 1) (tx_last_lsn (tx_of db a)) (tx_id (tx_of db a))"

lemma ending_log_sim:
  assumes sim: "sim s c as rs db" and u: "c u = Some a" and room: "length rs + 1 < 2 ^ 32"
  shows "tx_log (\<lambda>prev t st. Inr (kv_recovery_commit_log prev t st)) a db = Inr (log_db a (commit_rec a db) db)"
    "sim s c as (rs @ [commit_rec a db]) (log_db a (commit_rec a db) db)"
    "tx_log (\<lambda>prev t st. Inr (kv_recovery_abort_log prev t st)) a db = Inr (log_db a (abort_rec a db) db)"
    "sim s c as (rs @ [abort_rec a db]) (log_db a (abort_rec a db) db)"
  using tx_log_eq [OF simD(1) [OF sim] db_invD(6) [OF simD(1) [OF sim] u]] sim_log_skip [OF sim u] room
  by (simp_all add: simple_logs commit_rec_ok)

lemma commit_tx_sim:
  assumes sim: "sim s c (a # as) rs db" and u: "c u = Some a" and ops: "running s u = Some ops"
    and room: "length rs + 1 < 2 ^ 32"
  shows "\<exists>r db'. commit_tx u a db = Inr db' \<and> db_ht db' = db_ht db \<and> rec_lsn (db_rec db') = rec_lsn (db_rec db) + 1 \<and>
     transaction_id (db_txm db') = transaction_id (db_txm db) \<and>
     log_tx_id r = tx_id (tx_of db a) \<and> log_type r = KV_REC_COMMIT \<and> (\<forall>b. b \<noteq> a \<longrightarrow> tx_of db' b = tx_of db b) \<and>
     lm_held (db_lm db') u = (\<lambda>_. 0) \<and> (\<forall>v. v \<noteq> u \<longrightarrow> lm_held (db_lm db') v = lm_held (db_lm db) v) \<and>
     sim (s\<lparr>committed := tx_view (committed s) ops, running := (running s)(u := None)\<rparr>) (c(u := None)) as (rs @ [r]) db'"
proof -
  let ?r = "commit_rec a db"
  note log = ending_log_sim [OF sim u room]
  obtain db' where "end_tx u a (log_db a ?r db) = Inr db'" "db_ht db' = db_ht db" "db_rec db' = append_rec ?r (db_rec db)"
    "transaction_id (db_txm db') = transaction_id (db_txm (log_db a ?r db))" "\<forall>b. b \<noteq> a \<longrightarrow> tx_of db' b = tx_of (log_db a ?r db) b"
    "lm_held (db_lm db') u = (\<lambda>_. 0)" "\<forall>v. v \<noteq> u \<longrightarrow> lm_held (db_lm db') v = lm_held (db_lm db) v"
    "sim (s\<lparr>committed := tx_view (committed s) ops, running := (running s)(u := None)\<rparr>) (c(u := None)) as (rs @ [?r]) db'"
    using end_sim [OF log(2) u ops] by auto
  moreover have "transaction_id (db_txm (log_db a ?r db)) = transaction_id (db_txm db)" by (simp add: log_db_def)
  ultimately show ?thesis
    by (intro exI [of _ ?r] exI [of _ db']) (simp add: commit_tx_def log(1) append_rec_def short_rec_def)
qed

lemma db_inv_tx:
  assumes inv: "db_inv c as rs db" and a: "a \<in> set as"
    and tx: "tx_id tx = tx_id (tx_of db a)" "tx_locks tx = tx_locks (tx_of db a)" "tx_head_null tx = tx_head_null (tx_of db a)"
    and rec: "log_rep st rs'" and ht: "ht_inv ht"
  shows "db_inv c as rs' (db\<lparr>db_ht := ht, db_rec := st, db_txm := tx_update (db_txm db) a tx\<rparr>)"
proof -
  let ?db = "db\<lparr>db_ht := ht, db_rec := st, db_txm := tx_update (db_txm db) a tx\<rparr>"
  obtain tx0 where tx0: "txm_mem (db_txm db) a = Some tx0" using txm_rep_live [OF db_invD(1) [OF inv]] a by blast
  have sel: "db_ht ?db = ht" "db_lm ?db = db_lm db" "db_rec ?db = st" "db_txm ?db = tx_update (db_txm db) a tx"
    by simp_all
  have txs: "tx_of ?db b = (if b = a then tx else tx_of db b)" for b by (simp add: tx_of_def)
  have locks: "tx_locks (tx_of ?db b) = tx_locks (tx_of db b)" for b unfolding txs using tx(2) by simp
  have rep: "txm_rep (tx_update (db_txm db) a tx) as"
    using txm_rep_update [OF db_invD(1) [OF inv] tx0] tx0 tx(1) by (simp add: tx_of_def)
  have ok: "\<forall>b \<in> set as. tx_ok (tx_of ?db b)"
    unfolding txs using db_invD(9) [OF inv] tx(2,3) by (simp add: tx_ok_def)
  show ?thesis
    unfolding db_inv_def sel locks using rep ok rec ht db_invD(2,8) [OF inv] inv unfolding db_inv_def by blast
qed

text \<open>Undoing the updates of a transaction gives back the committed contents of its keys.\<close>

lemma undo_locked:
  assumes ts: "tx_sim rs m h tx ops" and us: "map upd_write us = tx_writes m ops" "consistent us m"
  shows "fold undo_upd (rev us) h = (\<lambda>k. if k \<in> set (tx_locks tx) then m k else h k)"
proof -
  have keys: "upd_key ` set us = fst ` set (tx_writes m ops)" by (rule upd_keys [OF us(1)])
  then have kl: "upd_key ` set us \<subseteq> set (tx_locks tx)" using ts tx_writes_keys unfolding tx_sim_def by blast
  have h: "fold undo_upd (rev us) h = (\<lambda>k. if k \<in> upd_key ` set us then m k else h k)"
  proof (rule undo_consistent_on [OF us(2)], rule ballI)
    fix k assume "k \<in> upd_key ` set us"
    then have "k \<in> set (tx_locks tx)" using kl by blast
    then show "h k = map_writes (map upd_write us) m k" using ts unfolding us(1) tx_sim_def tx_view_def by blast
  qed
  have "(if k \<in> upd_key ` set us then m k else h k) = (if k \<in> set (tx_locks tx) then m k else h k)" for k
  proof (cases "k \<in> upd_key ` set us")
    case False
    then have "tx_view m ops k = m k" using keys by (simp add: tx_view_def map_writes_other)
    moreover have "k \<in> set (tx_locks tx) \<Longrightarrow> h k = tx_view m ops k" using ts unfolding tx_sim_def by blast
    ultimately show ?thesis using False by simp
  qed (use kl in auto)
  then show ?thesis unfolding h by simp
qed

text \<open>
  The rollback restores the committed contents on the keys of the transaction.  \<open>hv\<close> is the table
  the log stands for; on other keys the table may be behind it.
\<close>

lemma db_ht_same: "db\<lparr>db_ht := db_ht db\<rparr> = db"
  by (cases db) simp

lemma rollback_sim:
  assumes sim: "sim s c as rs (db\<lparr>db_ht := hv\<rparr>)" and act: "ht_inv (db_ht db)" and u: "c u = Some a"
    and ops: "running s u = Some ops" and room: "2 * length rs + 1 < 2 ^ 32"
  shows "\<exists>cs e db' hv'. rollback_tx a db = Inr db' \<and> length cs \<le> length rs \<and> log_type e = KV_REC_END \<and>
     (\<forall>q \<in> set (cs @ [e]). log_tx_id q = tx_id (tx_of db a)) \<and> db_inv c as (rs @ cs @ [e]) (db'\<lparr>db_ht := hv'\<rparr>) \<and>
     transaction_id (db_txm db') = transaction_id (db_txm db) \<and> db_lm db' = db_lm db \<and>
     (\<forall>b. b \<noteq> a \<longrightarrow> tx_of db' b = tx_of db b) \<and> ht_inv (db_ht db') \<and>
     kv_ht_get hv' = (\<lambda>k. if k \<in> set (tx_locks (tx_of db a)) then committed s k else kv_ht_get hv k) \<and>
     kv_ht_get hv' = replay (rs @ cs @ [e]) Map.empty \<and>
     (\<forall>k. k \<notin> set (tx_locks (tx_of db a)) \<longrightarrow> kv_ht_get (db_ht db') k = kv_ht_get (db_ht db) k) \<and>
     (\<forall>k. kv_ht_get (db_ht db) k = kv_ht_get hv k \<longrightarrow> kv_ht_get (db_ht db') k = kv_ht_get hv' k)"
proof -
  note inv = simD(1) [OF sim]
  have a: "a \<in> set as" using db_invD(6) [OF inv u] .
  have ts: "tx_sim rs (committed s) (kv_ht_get hv) (tx_of db a) ops" using sim_opsE [OF sim u] ops by auto
  then obtain us where us: "chain rs (unat (tx_last_lsn (tx_of db a))) us"
    "map upd_write us = tx_writes (committed s) ops" "consistent us (committed s)" unfolding tx_sim_def by blast
  have len: "length us \<le> length rs" using chain_bounds [OF us(1)] by simp
  have rep: "log_rep (db_rec db) rs" and ihv: "ht_inv hv" using db_invD(3,4) [OF inv] by simp_all
  have rm: "length rs + length us + 1 < 2 ^ 32" using room len by simp
  let ?e = "\<lambda>p. short_rec KV_REC_END (of_nat (length rs + length us + 1)) p (tx_id (tx_of db a))"
  obtain tx' ht' st' cs p where rb: "kv_tx_rollback (tx_of db a) (db_ht db) (db_rec db) = Inr (tx', ht', st')"
    "log_rep st' (rs @ cs @ [?e p])" "clr_records (tx_id (tx_of db a)) (rev us) cs" "ht_inv ht'"
    "kv_ht_get ht' = fold undo_upd (rev us) (kv_ht_get (db_ht db))"
    "tx_id tx' = tx_id (tx_of db a)" "tx_locks tx' = tx_locks (tx_of db a)" "tx_head_null tx' = tx_head_null (tx_of db a)"
    using kv_tx_rollback_correct [OF us(1) rep rm act] by auto
  obtain hv' where hv': "ht_inv hv'" "kv_ht_get hv' = fold undo_upd (rev us) (kv_ht_get hv)"
    using kv_tx_rollback_correct [OF us(1) rep rm ihv] by auto
  let ?db = "db\<lparr>db_ht := ht', db_rec := st', db_txm := tx_update (db_txm db) a tx'\<rparr>"
  have rbt: "rollback_tx a db = Inr ?db"
    using tx_read_of [OF inv a] rb(1) by (simp add: rollback_tx_def del: tx_read_Inr)
  have "db_inv c as (rs @ cs @ [?e p]) ((db\<lparr>db_ht := hv\<rparr>)\<lparr>db_ht := hv', db_rec := st', db_txm := tx_update (db_txm (db\<lparr>db_ht := hv\<rparr>)) a tx'\<rparr>)"
    using rb(2,6-8) hv'(1) by (intro db_inv_tx [OF inv a]) simp_all
  moreover have "(db\<lparr>db_ht := hv\<rparr>)\<lparr>db_ht := hv', db_rec := st', db_txm := tx_update (db_txm (db\<lparr>db_ht := hv\<rparr>)) a tx'\<rparr> =
     ?db\<lparr>db_ht := hv'\<rparr>" by (rule kv_db.equality) simp_all
  ultimately have inv2: "db_inv c as (rs @ cs @ [?e p]) (?db\<lparr>db_ht := hv'\<rparr>)" by metis
  have keys: "upd_key ` set us \<subseteq> set (tx_locks (tx_of db a))"
    using upd_keys [OF us(2)] ts tx_writes_keys unfolding tx_sim_def by blast
  have h2: "kv_ht_get hv' = (\<lambda>k. if k \<in> set (tx_locks (tx_of db a)) then committed s k else kv_ht_get hv k)"
    using undo_locked [OF ts us(2,3)] hv'(2) by simp
  have out: "kv_ht_get ht' k = kv_ht_get (db_ht db) k" if "k \<notin> set (tx_locks (tx_of db a))" for k
    using undo_upd_other [of k "rev us"] that keys rb(5) by auto
  have same: "kv_ht_get ht' k = kv_ht_get hv' k" if "kv_ht_get (db_ht db) k = kv_ht_get hv k" for k
    using undo_upd_key [of "kv_ht_get (db_ht db)" k "kv_ht_get hv"] that rb(5) hv'(2) by simp
  have rp: "kv_ht_get hv' = replay (rs @ cs @ [?e p]) Map.empty"
  proof -
    have eff: "\<forall>x \<in> set (rev us). upd_old x \<noteq> [] \<or> upd_new x \<noteq> []" using consistent_effective [OF us(3)] by auto
    have "kv_ht_get hv = replay rs Map.empty" using simD(4) [OF sim] by simp
    then show ?thesis using hv'(2) replay_clr [OF rb(3) eff] replay_skip [of "?e p"] commit_rec_ok(4) by simp
  qed
  have ids: "\<forall>q \<in> set (cs @ [?e p]). log_tx_id q = tx_id (tx_of db a)"
    using rb(3) by (auto simp: clr_records_def in_set_conv_nth short_rec_def)
  have "length cs \<le> length rs" using rb(3) len by (simp add: clr_records_def)
  moreover have "log_type (?e p) = KV_REC_END" by (simp add: short_rec_def)
  ultimately show ?thesis using rbt inv2 h2 rp ids out same rb(4)
    by (intro exI [of _ cs] exI [of _ "?e p"] exI [of _ ?db] exI [of _ hv'] conjI) (simp_all add: tx_of_def)
qed

lemma abort_rollback:
  assumes sim: "sim s c as rs db" and u: "c u = Some a" and ops: "running s u = Some ops"
    and room: "2 * length rs + 4 < 2 ^ 32"
  shows "\<exists>qs db'. bind_res (tx_log (\<lambda>prev t st. Inr (kv_recovery_abort_log prev t st)) a db) (rollback_tx a) = Inr db' \<and>
     length qs \<le> length rs + 3 \<and> db_inv c as (rs @ qs) db' \<and>
     (\<forall>q \<in> set qs. log_tx_id q = tx_id (tx_of db a)) \<and> tx_ended (tx_id (tx_of db a)) qs \<and>
     transaction_id (db_txm db') = transaction_id (db_txm db) \<and> db_lm db' = db_lm db \<and>
     (\<forall>b. b \<noteq> a \<longrightarrow> tx_of db' b = tx_of db b) \<and>
     kv_ht_get (db_ht db') =
       (\<lambda>k. if k \<in> set (tx_locks (tx_of db a)) then committed s k else kv_ht_get (db_ht db) k) \<and>
     kv_ht_get (db_ht db') = replay (rs @ qs) Map.empty"
proof -
  let ?r = "abort_rec a db" and ?db1 = "log_db a (abort_rec a db) db" and ?t = "tx_id (tx_of db a)"
  have rm: "length rs + 1 < 2 ^ 32" using room by simp
  note log = ending_log_sim(3,4) [OF sim u rm]
  have sim1: "sim s c as (rs @ [?r]) (?db1\<lparr>db_ht := db_ht ?db1\<rparr>)"
    using log(2) by (simp only: db_ht_same)
  have rm1: "2 * length (rs @ [?r]) + 1 < 2 ^ 32" using room by simp
  obtain cs e db' hv' where r: "rollback_tx a ?db1 = Inr db'" "length cs \<le> length (rs @ [?r])" "log_type e = KV_REC_END"
    "\<forall>q \<in> set (cs @ [e]). log_tx_id q = tx_id (tx_of ?db1 a)" "db_inv c as ((rs @ [?r]) @ cs @ [e]) (db'\<lparr>db_ht := hv'\<rparr>)"
    "transaction_id (db_txm db') = transaction_id (db_txm ?db1)" "db_lm db' = db_lm ?db1" "\<forall>b. b \<noteq> a \<longrightarrow> tx_of db' b = tx_of ?db1 b"
    "ht_inv (db_ht db')"
    "kv_ht_get hv' = (\<lambda>k. if k \<in> set (tx_locks (tx_of ?db1 a)) then committed s k else kv_ht_get (db_ht ?db1) k)"
    "kv_ht_get hv' = replay ((rs @ [?r]) @ cs @ [e]) Map.empty"
    "\<forall>k. kv_ht_get (db_ht ?db1) k = kv_ht_get (db_ht ?db1) k \<longrightarrow> kv_ht_get (db_ht db') k = kv_ht_get hv' k"
    using rollback_sim [OF sim1 db_invD(3) [OF simD(1) [OF log(2)]] u ops rm1] by blast
  have same: "kv_ht_get (db_ht db') = kv_ht_get hv'" using r(12) by (simp add: fun_eq_iff)
  have "db_inv c as (rs @ [?r] @ cs @ [e]) db'" using db_inv_ht [OF r(5,9)] by simp
  moreover have "tx_ended ?t ([?r] @ cs @ [e])"
    unfolding tx_ended_def using r(3,4)
    by (intro disjI2 exI [of _ "[]"] exI [of _ ?r] exI [of _ "cs @ [e]"]) (auto simp: short_rec_def)
  moreover have "\<forall>q \<in> set ([?r] @ cs @ [e]). log_tx_id q = ?t" using r(4) by (auto simp: short_rec_def)
  moreover have "length ([?r] @ cs @ [e]) \<le> length rs + 3" using r(2) by simp
  moreover have "transaction_id (db_txm db') = transaction_id (db_txm db)" "db_lm db' = db_lm db" "\<forall>b. b \<noteq> a \<longrightarrow> tx_of db' b = tx_of db b"
    using r(6-8) by (simp_all add: log_db_def tx_of_def)
  moreover have "kv_ht_get (db_ht db') = (\<lambda>k. if k \<in> set (tx_locks (tx_of db a)) then committed s k else kv_ht_get (db_ht db) k)"
    using r(10) by (simp add: same fun_eq_iff)
  moreover have "kv_ht_get (db_ht db') = replay (rs @ [?r] @ cs @ [e]) Map.empty" using r(11) by (simp add: same)
  moreover have "bind_res (tx_log (\<lambda>prev t st. Inr (kv_recovery_abort_log prev t st)) a db) (rollback_tx a) = Inr db'"
    by (simp only: log(1) r(1) bind_res.simps)
  ultimately show ?thesis by blast
qed

lemma abort_tx_eq:
  "abort_tx self a db =
     bind_res (bind_res (tx_log (\<lambda>prev t st. Inr (kv_recovery_abort_log prev t st)) a db) (rollback_tx a)) (end_tx self a)"
  by (simp add: abort_tx_def bind_res_assoc)

lemma abort_tx_sim:
  assumes sim: "sim s c (a # as) rs db" and u: "c u = Some a" and ops: "running s u = Some ops"
    and room: "2 * length rs + 4 < 2 ^ 32"
  shows "\<exists>qs db'. abort_tx u a db = Inr db' \<and> length qs \<le> length rs + 3 \<and>
     transaction_id (db_txm db') = transaction_id (db_txm db) \<and>
     (\<forall>q \<in> set qs. log_tx_id q = tx_id (tx_of db a)) \<and> tx_ended (tx_id (tx_of db a)) qs \<and>
     (\<forall>b. b \<noteq> a \<longrightarrow> tx_of db' b = tx_of db b) \<and>
     sim (s\<lparr>running := (running s)(u := None)\<rparr>) (c(u := None)) as (rs @ qs) db'"
proof -
  let ?locks = "set (tx_locks (tx_of db a))"
  obtain qs db2 where q: "bind_res (tx_log (\<lambda>prev t st. Inr (kv_recovery_abort_log prev t st)) a db) (rollback_tx a) = Inr db2"
    "length qs \<le> length rs + 3" "db_inv c (a # as) (rs @ qs) db2" "transaction_id (db_txm db2) = transaction_id (db_txm db)"
    "\<forall>b. b \<noteq> a \<longrightarrow> tx_of db2 b = tx_of db b"
    "kv_ht_get (db_ht db2) = (\<lambda>k. if k \<in> ?locks then committed s k else kv_ht_get (db_ht db) k)"
    "kv_ht_get (db_ht db2) = replay (rs @ qs) Map.empty"
    "\<forall>q \<in> set qs. log_tx_id q = tx_id (tx_of db a)" "tx_ended (tx_id (tx_of db a)) qs"
    using abort_rollback [OF sim u ops room] by blast
  have others: "\<forall>b. b \<noteq> a \<longrightarrow> tx_of db' b = tx_of db b" if "\<And>b. b \<noteq> a \<Longrightarrow> tx_of db' b = tx_of db2 b" for db'
    using that q(5) by simp
  obtain db' where d: "end_tx u a db2 = Inr db'" "db_inv (c(u := None)) as (rs @ qs) db'"
     "db_ht db' = db_ht db2" "\<And>b. b \<noteq> a \<Longrightarrow> tx_of db' b = tx_of db2 b"
     "transaction_id (db_txm db') = transaction_id (db_txm db2)"
    using db_inv_end [OF q(3) u] by auto
  have "sim (s\<lparr>committed := committed s, running := (running s)(u := None)\<rparr>) (c(u := None)) as (rs @ qs) db'"
  proof (rule sim_forget [OF sim u d(2)])
    show "tx_of db' b = tx_of db b" if "b \<noteq> a" for b using d(4) [OF that] q(5) that by simp
    show "committed s k = committed s k \<and> kv_ht_get (db_ht db') k = kv_ht_get (db_ht db) k" if "k \<notin> ?locks" for k
      using that by (simp add: d(3) q(6))
    show "kv_ht_get (db_ht db') k = committed s k" if "k \<in> ?locks" for k using that by (simp add: d(3) q(6))
    show "vals_ok (kv_ht_get (db_ht db'))"
      using sim unfolding d(3) q(6) by (auto simp: sim_def vals_ok_def split: if_splits)
    show "vals_ok (committed s)" by (rule simD [OF sim])
    show "kv_ht_get (db_ht db') = replay (rs @ qs) Map.empty" using q(7) d(3) by simp
  qed
  moreover have "s\<lparr>committed := committed s, running := (running s)(u := None)\<rparr> = s\<lparr>running := (running s)(u := None)\<rparr>" by simp
  moreover have "abort_tx u a db = Inr db'" unfolding abort_tx_eq q(1) by (simp add: d(1))
  ultimately show ?thesis using q(2,4,8,9) d(5) others [OF d(4)] by auto
qed

lemma abort_tx_younger:
  assumes sim: "sim s c (b # as) rs db" and u: "c u = Some a" "b \<noteq> a" and ops: "running s u = Some ops"
    and room: "2 * length rs + 4 < 2 ^ 32"
  shows "abort_tx u a db = Inl Uninit"
proof -
  obtain qs db2 where q: "bind_res (tx_log (\<lambda>prev t st. Inr (kv_recovery_abort_log prev t st)) a db) (rollback_tx a) = Inr db2"
    "db_inv c (b # as) (rs @ qs) db2"
    using abort_rollback [OF sim u(1) ops room] by blast
  have "a \<in> set as" using db_invD(6) [OF q(2) u(1)] u(2) by simp
  then show ?thesis unfolding abort_tx_eq q(1) using end_tx_younger [OF q(2)] by simp
qed

lemma commit_tx_younger:
  assumes sim: "sim s c (b # as) rs db" and u: "c u = Some a" "b \<noteq> a" and room: "length rs + 1 < 2 ^ 32"
  shows "commit_tx u a db = Inl Uninit"
proof -
  have inv: "db_inv c (b # as) rs db" by (rule simD [OF sim])
  have a: "a \<in> set (b # as)" using db_invD(6) [OF inv u(1)] .
  let ?r = "short_rec KV_REC_COMMIT (rec_lsn (db_rec db) + 1) (tx_last_lsn (tx_of db a)) (tx_id (tx_of db a))"
  have log: "tx_log (\<lambda>prev t st. Inr (kv_recovery_commit_log prev t st)) a db = Inr (log_db a ?r db)"
    by (rule tx_log_eq [OF inv a]) (simp_all add: simple_logs commit_rec_ok)
  have "db_inv c (b # as) (rs @ [?r]) (log_db a ?r db)"
    using room by (intro db_inv_log [OF inv a]) (simp_all add: commit_rec_ok)
  then have "end_tx u a (log_db a ?r db) = Inl Uninit" using a u(2) by (intro end_tx_younger) auto
  then show ?thesis by (simp add: commit_tx_def log)
qed

end
