(* ===== verification/Client_Handler.thy ===== *)
theory Client_Handler
  imports Kv_Command
begin

text \<open>
  \<open>kv_client_handler.c\<close>: the loop of a client's thread.  It collects what it reads in a 128 byte
  buffer, runs the complete commands in it and writes one reply for each.

  The lemmas show that the way a client's bytes are divided over the reads does not matter: the
  commands run are those of the whole stream, in order, with the same replies, as long as
  the unfinished command and the bytes read next fit the buffer together.
\<close>

section \<open>Definitions\<close>

abbreviation COMMAND_SIZE :: nat where "COMMAND_SIZE \<equiv> 128"
abbreviation BUFFER_SIZE :: nat where "BUFFER_SIZE \<equiv> 128"
abbreviation RESULT_SIZE :: nat where "RESULT_SIZE \<equiv> 64"

text \<open>The variables of the thread.\<close>

record kv_client =
  cl_command :: string
  cl_command_cur :: nat
  cl_result :: string
  cl_tx :: "nat option"
  cl_disconnected :: bool

text \<open>
  The reply: \<open>\r\n\<close> behind a result that is not empty, and the zero byte is sent too.
\<close>

definition reply :: "string \<Rightarrow> (string \<times> string) res" where
  "reply result =
     bind_res (buf_read result 0 1) (\<lambda>b.
     bind_res (if hd b \<noteq> NUL
               then bind_res (c_strlen result) (\<lambda>n. buf_write result n [CR, LF, NUL])
               else Inr result) (\<lambda>result.
     bind_res (c_strlen result) (\<lambda>n.
     bind_res (buf_read result 0 (n + 1)) (\<lambda>out. Inr (out, result)))))"

text \<open>
  The result of \<open>write\<close> is compared with a \<open>size_t\<close>, so -1 counts as a large number.
\<close>

definition write_failed :: "int \<Rightarrow> nat \<Rightarrow> bool" where
  "write_failed ret result_len \<longleftrightarrow> (word_of_int ret :: u64) < of_nat result_len"

text \<open>
  The inner loop.  \<open>sent\<close> is what \<open>write\<close> returns for each reply; a command shortens the
  buffer by at least two bytes, which bounds the fuel.
\<close>

fun consume_loop ::
  "nat \<Rightarrow> (string \<Rightarrow> int) \<Rightarrow> thread \<Rightarrow> string \<Rightarrow> kv_client \<Rightarrow> kv_db \<Rightarrow> (string list \<times> kv_client \<times> kv_db) res" where
  "consume_loop 0 sent self junk cl db = Inl Out_Of_Fuel"
| "consume_loop (Suc fuel) sent self junk cl db =
     bind_res (consume_command self junk (cl_command cl) (cl_result cl) (cl_tx cl) db)
       (\<lambda>(consume_count, command, result, c_tx, db).
     let cl = cl\<lparr>cl_command := command, cl_result := result, cl_tx := c_tx\<rparr> in
     if consume_count = 0 then Inr ([], cl, db)
     else
       bind_res (c_strlen command) (\<lambda>command_cur.
       bind_res (reply result) (\<lambda>(out, result).
       let cl = cl\<lparr>cl_command_cur := command_cur, cl_result := result\<rparr> in
       if write_failed (sent out) (length out) then Inr ([out], cl\<lparr>cl_disconnected := True\<rparr>, db)
       else
         bind_res (consume_loop fuel sent self junk cl db) (\<lambda>(outs, cl, db). Inr (out # outs, cl, db)))))"

text \<open>
  One round of the outer loop, with the bytes \<open>read\<close> delivered, none at the end of the stream
  or on an error.
\<close>

definition handle_read ::
  "(string \<Rightarrow> int) \<Rightarrow> thread \<Rightarrow> string \<Rightarrow> string \<Rightarrow> kv_client \<Rightarrow> kv_db \<Rightarrow> (string list \<times> kv_client \<times> kv_db) res" where
  "handle_read sent self junk bytes cl db =
     (if bytes = [] then Inr ([], cl\<lparr>cl_disconnected := True\<rparr>, db)
      else
        bind_res (buf_write (cl_command cl) (cl_command_cur cl) bytes) (\<lambda>command.
        consume_loop (COMMAND_SIZE div 2 + 1) sent self junk
          (cl\<lparr>cl_command := command, cl_command_cur := cl_command_cur cl + length bytes\<rparr>) db))"

fun kv_handle_client ::
  "(string \<Rightarrow> int) \<Rightarrow> thread \<Rightarrow> string \<Rightarrow> string list \<Rightarrow> kv_client \<Rightarrow> kv_db \<Rightarrow> (string list \<times> kv_client \<times> kv_db) res" where
  "kv_handle_client sent self junk [] cl db = Inr ([], cl, db)"
| "kv_handle_client sent self junk (bytes # reads) cl db =
     (if cl_disconnected cl then Inr ([], cl, db)
      else
        bind_res (handle_read sent self junk bytes cl db) (\<lambda>(outs, cl, db).
        bind_res (kv_handle_client sent self junk reads cl db) (\<lambda>(outs', cl, db).
        Inr (outs @ outs', cl, db))))"

text \<open>The arrays are not initialised; \<open>garbage\<close> and \<open>garbage'\<close> is what they hold.\<close>

definition new_client :: "string \<Rightarrow> string \<Rightarrow> kv_client" where
  "new_client garbage garbage' =
     \<lparr>cl_command = garbage, cl_command_cur = 0, cl_result = garbage', cl_tx = None, cl_disconnected = False\<rparr>"

section \<open>Streams\<close>

text \<open>The complete lines of a string and what is left.\<close>

function lines :: "string \<Rightarrow> string list \<times> string" where
  "lines s = (case split_crlf s of
      None \<Rightarrow> ([], s)
    | Some (l, r) \<Rightarrow> (let (ls, rest) = lines r in (l # ls, rest)))"
  by pat_completeness auto
termination
  by (relation "measure length") (auto dest!: split_crlf_SomeD)

declare lines.simps [simp del]

lemma lines_None: "split_crlf s = None \<Longrightarrow> lines s = ([], s)"
  by (simp add: lines.simps)

lemma lines_Some: "split_crlf s = Some (l, r) \<Longrightarrow> lines s = (l # fst (lines r), snd (lines r))"
  by (subst lines.simps) (simp add: case_prod_unfold Let_def)

lemma split_crlf_append: "split_crlf s = Some (l, r) \<Longrightarrow> split_crlf (s @ t) = Some (l, r @ t)"
  by (induction s arbitrary: l r rule: split_crlf.induct) (auto split: if_splits)

text \<open>More input does not change the lines already complete.\<close>

lemma lines_append:
  "lines (s @ t) = (fst (lines s) @ fst (lines (snd (lines s) @ t)), snd (lines (snd (lines s) @ t)))"
proof (induction s rule: lines.induct)
  case (1 s)
  show ?case
  proof (cases "split_crlf s")
    case None
    then show ?thesis by (simp add: lines_None)
  next
    case (Some lr)
    then obtain l r where lr: "split_crlf s = Some (l, r)" by (cases lr) simp
    then show ?thesis
      using 1 [OF lr] by (simp add: lines_Some [OF lr] lines_Some [OF split_crlf_append [OF lr]])
  qed
qed

lemma lines_rest: "split_crlf (snd (lines s)) = None"
proof (induction s rule: lines.induct)
  case (1 s)
  then show ?case by (cases "split_crlf s") (auto simp: lines_None lines_Some)
qed

lemma lines_length: "length (snd (lines s)) + 2 * length (fst (lines s)) \<le> length s"
proof (induction s rule: lines.induct)
  case (1 s)
  show ?case
  proof (cases "split_crlf s")
    case (Some lr)
    then obtain l r where lr: "split_crlf s = Some (l, r)" by (cases lr) simp
    have "length s = length l + 2 + length r" using arg_cong [OF split_crlf_SomeD [OF lr], of length] by simp
    then show ?thesis using 1 [OF lr] by (simp add: lines_Some [OF lr])
  qed (simp add: lines_None)
qed

lemma set_lines: "set (snd (lines s)) \<subseteq> set s"
proof (induction s rule: lines.induct)
  case (1 s)
  show ?case
  proof (cases "split_crlf s")
    case (Some lr)
    then obtain l r where lr: "split_crlf s = Some (l, r)" by (cases lr) simp
    have "set r \<subseteq> set s" using arg_cong [OF split_crlf_SomeD [OF lr], of set] by auto
    then show ?thesis using 1 [OF lr] by (auto simp: lines_Some [OF lr])
  qed (simp add: lines_None)
qed

text \<open>A command with its line end, and the lines of a sequence of commands.\<close>

definition command_line :: "command \<Rightarrow> string" where
  "command_line c = command_text c @ [CR, LF]"

lemma command_text_clean: "command_ok c \<Longrightarrow> clean (command_text c)"
  by (cases c) (auto simp: clean_def)

lemma lines_commands:
  "\<forall>c \<in> set cs. command_ok c \<Longrightarrow> split_crlf p = None \<Longrightarrow>
     lines (concat (map command_line cs) @ p) = (map command_text cs, p)"
proof (induction cs)
  case (Cons c cs)
  then have "split_crlf (concat (map command_line (c # cs)) @ p) =
      Some (command_text c, concat (map command_line cs) @ p)"
    using split_crlf_text [OF command_text_clean, of c] by (simp add: command_line_def)
  then show ?case using Cons by (simp add: lines_Some)
qed (simp add: lines_None)

section \<open>Running a stream\<close>

text \<open>The commands one after the other, each with its reply.\<close>

fun exec_commands ::
  "thread \<Rightarrow> string \<Rightarrow> command list \<Rightarrow> string \<Rightarrow> nat option \<Rightarrow> kv_db \<Rightarrow>
   (string list \<times> string \<times> nat option \<times> kv_db) res" where
  "exec_commands self junk [] result c_tx db = Inr ([], result, c_tx, db)"
| "exec_commands self junk (c # cs) result c_tx db =
     bind_res (exec_command self junk c result c_tx db) (\<lambda>(result, c_tx, db).
     bind_res (reply result) (\<lambda>(out, result).
     bind_res (exec_commands self junk cs result c_tx db) (\<lambda>(outs, result, c_tx, db).
     Inr (out # outs, result, c_tx, db))))"

text \<open>A connection on which every byte written is taken.\<close>

definition all_sent :: "string \<Rightarrow> int" where
  "all_sent out = int (length out)"

lemma not_write_failed [simp]: "\<not> write_failed (all_sent out) (length out)"
  by (simp add: write_failed_def all_sent_def)

text \<open>A client between two reads, with the bytes \<open>p\<close> of an unfinished command.\<close>

definition client_at :: "string \<Rightarrow> string \<Rightarrow> nat option \<Rightarrow> kv_client" where
  "client_at p result c_tx = \<lparr>cl_command = pending p, cl_command_cur = length p, cl_result = result,
     cl_tx = c_tx, cl_disconnected = False\<rparr>"

lemma consume_loop_commands:
  assumes "lines s = (map command_text cs, p)" "\<forall>c \<in> set cs. command_ok c" "NUL \<notin> set s" "length s < 128"
    "length cs < fuel" "cs = [] \<Longrightarrow> n = length s"
  shows "consume_loop fuel all_sent self junk
      \<lparr>cl_command = pending s, cl_command_cur = n, cl_result = result, cl_tx = c_tx, cl_disconnected = False\<rparr> db =
    bind_res (exec_commands self junk cs result c_tx db) (\<lambda>(outs, result, c_tx, db).
      Inr (outs, client_at p result c_tx, db))"
  using assms
proof (induction cs arbitrary: fuel s n result c_tx db)
  case Nil
  then obtain f where f: "fuel = Suc f" by (cases fuel) auto
  have "split_crlf s = None"
    using Nil.prems(1) by (cases "split_crlf s") (auto simp: lines_Some)
  moreover from this have "p = s" using Nil.prems(1) by (simp add: lines_None)
  ultimately show ?case
    using Nil.prems consume_none [of s self junk result c_tx db] by (simp add: f client_at_def)
next
  case (Cons c cs)
  then obtain f where f: "fuel = Suc f" by (cases fuel) auto
  obtain l r where lr: "split_crlf s = Some (l, r)"
    using Cons.prems(1) by (cases "split_crlf s") (auto simp: lines_None)
  note s = split_crlf_SomeD [OF lr]
  have l: "l = command_text c" "lines r = (map command_text cs, p)"
    using Cons.prems(1) lines_Some [OF lr] by (auto simp: prod_eq_iff)
  have r: "NUL \<notin> set r" "length r < 128" "length (command_text c) < 126"
    using Cons.prems(3,4) s l(1) by auto
  have ok: "command_ok c" using Cons.prems(2) by simp
  have step: "consume_command self junk (pending s) result c_tx db =
     bind_res (exec_command self junk c result c_tx db) (\<lambda>(result, c_tx, db). Inr (1, pending r, result, c_tx, db))"
    using consume_some [OF Cons.prems(3,4) lr] run_command_text [OF ok r(3)] by (simp add: l(1))
  have IH: "consume_loop f all_sent self junk
      \<lparr>cl_command = pending r, cl_command_cur = length r, cl_result = result', cl_tx = c_tx', cl_disconnected = False\<rparr> db' =
    bind_res (exec_commands self junk cs result' c_tx' db') (\<lambda>(outs, result, c_tx, db).
      Inr (outs, client_at p result c_tx, db))" for result' c_tx' db'
    using Cons.prems(2,5) f r l by (intro Cons.IH) auto
  show ?case
  proof (cases "exec_command self junk c result c_tx db")
    case (Inl e)
    then show ?thesis by (simp add: f step)
  next
    case (Inr x)
    then obtain result' c_tx' db' where x: "exec_command self junk c result c_tx db = Inr (result', c_tx', db')"
      by (cases x) auto
    show ?thesis
    proof (cases "reply result'")
      case (Inl e)
      then show ?thesis using pending_simps(2) [OF r(1,2)] by (simp add: f step x)
    next
      case (Inr y)
      then obtain out result'' where y: "reply result' = Inr (out, result'')" by (cases y) auto
      show ?thesis
        using pending_simps(2) [OF r(1,2)] IH [of result'' c_tx' db']
        by (cases "exec_commands self junk cs result'' c_tx' db'") (auto simp: f step x y)
    qed
  qed
qed

text \<open>Every read finds room behind the unfinished command.\<close>

fun fits :: "string \<Rightarrow> string list \<Rightarrow> bool" where
  "fits p [] = True"
| "fits p (d # ds) = (d \<noteq> [] \<and> length p + length d < COMMAND_SIZE \<and> fits (snd (lines (p @ d))) ds)"

lemma handle_read_commands:
  assumes "lines (p @ d) = (map command_text cs, p')" "\<forall>c \<in> set cs. command_ok c" "NUL \<notin> set (p @ d)"
    "length p + length d < COMMAND_SIZE" "d \<noteq> []"
  shows "handle_read all_sent self junk d (client_at p result c_tx) db =
    bind_res (exec_commands self junk cs result c_tx db) (\<lambda>(outs, result, c_tx, db).
      Inr (outs, client_at p' result c_tx, db))"
proof -
  have "buf_write (pending p) (length p) d = Inr (pending (p @ d))"
    using assms(4) by (simp add: buf_write_def pending_def)
  moreover have "length cs < COMMAND_SIZE div 2 + 1"
    using lines_length [of "p @ d"] assms(1,4) by simp
  ultimately show ?thesis
    using assms consume_loop_commands [of "p @ d" cs p' "COMMAND_SIZE div 2 + 1" "length (p @ d)" self junk result c_tx db]
    by (simp add: handle_read_def client_at_def del: consume_loop.simps)
qed

lemma exec_commands_append:
  "exec_commands self junk (cs @ ds) result c_tx db =
     bind_res (exec_commands self junk cs result c_tx db) (\<lambda>(outs, result, c_tx, db).
     bind_res (exec_commands self junk ds result c_tx db) (\<lambda>(outs', result, c_tx, db).
     Inr (outs @ outs', result, c_tx, db)))"
proof (induction cs arbitrary: result c_tx db)
  case Nil
  show ?case by (cases "exec_commands self junk ds result c_tx db") auto
next
  case (Cons c cs)
  then show ?case by (simp add: bind_res_assoc case_prod_unfold)
qed

lemma map_eq_appendE:
  assumes "map f cs = xs @ ys"
  obtains as bs where "cs = as @ bs" "map f as = xs" "map f bs = ys"
  using assms by (metis map_eq_append_conv)

lemma handle_client_commands:
  assumes "lines (p @ concat reads) = (map command_text cs, p')" "\<forall>c \<in> set cs. command_ok c"
    "NUL \<notin> set (p @ concat reads)" "fits p reads" "split_crlf p = None"
  shows "kv_handle_client all_sent self junk reads (client_at p result c_tx) db =
    bind_res (exec_commands self junk cs result c_tx db) (\<lambda>(outs, result, c_tx, db).
      Inr (outs, client_at p' result c_tx, db))"
  using assms
proof (induction reads arbitrary: p cs result c_tx db)
  case Nil
  then show ?case by (simp add: lines_None)
next
  case (Cons d reads)
  let ?q = "snd (lines (p @ d))"
  have la: "lines (p @ concat (d # reads)) =
      (fst (lines (p @ d)) @ fst (lines (?q @ concat reads)), snd (lines (?q @ concat reads)))"
    using lines_append [of "p @ d" "concat reads"] by simp
  obtain as bs where ab: "cs = as @ bs" "map command_text as = fst (lines (p @ d))"
    "map command_text bs = fst (lines (?q @ concat reads))"
    using la Cons.prems(1) map_eq_appendE [of command_text cs "fst (lines (p @ d))" "fst (lines (?q @ concat reads))"]
    by (metis fst_conv)
  have 1: "lines (p @ d) = (map command_text as, ?q)" using ab(2) by simp
  have 2: "lines (?q @ concat reads) = (map command_text bs, p')"
    using ab(3) la Cons.prems(1) by (simp add: prod_eq_iff)
  have q: "NUL \<notin> set (?q @ concat reads)" using Cons.prems(3) set_lines [of "p @ d"] by auto
  have hd: "handle_read all_sent self junk d (client_at p result c_tx) db =
    bind_res (exec_commands self junk as result c_tx db) (\<lambda>(outs, result, c_tx, db).
      Inr (outs, client_at ?q result c_tx, db))"
    using Cons.prems ab by (intro handle_read_commands 1) auto
  have tl: "kv_handle_client all_sent self junk reads (client_at ?q result' c_tx') db' =
    bind_res (exec_commands self junk bs result' c_tx' db') (\<lambda>(outs, result, c_tx, db).
      Inr (outs, client_at p' result c_tx, db))" for result' c_tx' db'
    using Cons.prems ab q lines_rest by (intro Cons.IH 2) auto
  have conn: "\<not> cl_disconnected (client_at p result c_tx)" by (simp add: client_at_def)
  show ?case
    unfolding ab(1) exec_commands_append
    by (simp add: conn hd tl bind_res_assoc case_prod_unfold)
qed

text \<open>A connection just opened, its arrays zeroed by chance.\<close>

lemma new_client_at: "new_client (replicate 128 NUL) r = client_at [] r None"
  by (simp add: new_client_def client_at_def pending_def)

section \<open>Properties\<close>

text \<open>
  C24. Framing: a client that sends the commands \<open>cs\<close>, divided over its reads in any way that lets
  what is left over and the next read fit the 128 byte buffer together, gets exactly the replies,
  and leaves exactly the state, of running \<open>cs\<close> one after the other, and its buffer holds the
  bytes \<open>p\<close> of a command still incomplete.  Every reply is sent in full, and the command buffer,
  which the code does not initialise, is zeroed at the start.
\<close>

theorem handle_client_framing:
  assumes "\<forall>c \<in> set cs. command_ok c" "concat reads = concat (map command_line cs) @ p"
    "clean p" "fits [] reads"
  shows "kv_handle_client all_sent self junk reads (new_client (replicate 128 NUL) result) db =
    bind_res (exec_commands self junk cs result None db) (\<lambda>(outs, result, c_tx, db).
      Inr (outs, \<lparr>cl_command = p @ replicate (128 - length p) NUL, cl_command_cur = length p,
        cl_result = result, cl_tx = c_tx, cl_disconnected = False\<rparr>, db))"
proof -
  have none: "split_crlf s = None" if "CR \<notin> set s" for s
    using that by (induction s rule: split_crlf.induct) auto
  have p: "split_crlf p = None" "NUL \<notin> set p" using assms(3) none by (auto simp: clean_def)
  have nul: "NUL \<notin> set (command_line c)" if "c \<in> set cs" for c
    using command_text_clean [of c] that assms(1) by (auto simp: command_line_def clean_def)
  show ?thesis
    using handle_client_commands [of "[]" reads cs p self junk result None db] lines_commands [OF assms(1) p(1)]
      assms p nul
    by (simp add: new_client_at) (auto simp: client_at_def pending_def)
qed

theorem handle_client_framing_witness:
  "kv_handle_client all_sent 1 [] [''beg'', ''in'' @ [CR], [LF] @ ''set a b'', [CR, LF] @ ''ge'']
     (new_client (replicate 128 NUL) (replicate 64 NUL)) fresh_db =
   bind_res (exec_commands 1 [] [C_Begin, C_Set ''a'' ''b''] (replicate 64 NUL) None fresh_db) (\<lambda>(outs, result, c_tx, db).
      Inr (outs, \<lparr>cl_command = ''ge'' @ replicate (128 - length ''ge'') NUL, cl_command_cur = length ''ge'',
        cl_result = result, cl_tx = c_tx, cl_disconnected = False\<rparr>, db))"
  by (rule handle_client_framing)
    (simp_all add: command_line_def clean_def lines.simps)

text \<open>
  When it does not fit, the read writes past the buffer: pipelined or long input of 128 bytes or
  more without a complete command in between overruns \<open>command\<close>.
\<close>

theorem handle_read_overflow:
  "length bytes < BUFFER_SIZE \<and> length p < COMMAND_SIZE \<and> COMMAND_SIZE < length p + length bytes \<longrightarrow>
     handle_read sent self junk bytes (client_at p result c_tx) db = Inl Out_Of_Bounds"
  by (auto simp: handle_read_def client_at_def buf_write_def pending_def)

theorem handle_read_overflow_witness:
  "handle_read all_sent 1 [] (replicate 100 (CHR ''x'')) (client_at (replicate 29 (CHR ''x'')) [] None) fresh_db
     = Inl Out_Of_Bounds"
  using handle_read_overflow [of "replicate 100 (CHR ''x'')" "replicate 29 (CHR ''x'')" all_sent 1 "[]" "[]" None fresh_db]
  by simp

text \<open>
  A failed \<open>write\<close> is not noticed: its result, -1, is compared as an unsigned number, so the
  thread goes on serving a dead connection; only a short write ends it.
\<close>

lemma write_failure_unnoticed:
  "n < 2 ^ 63 \<longrightarrow> \<not> write_failed (-1) n \<and> (\<forall>k < n. write_failed (int k) n)"
proof (intro impI conjI allI)
  assume n: "n < 2 ^ 63"
  have "(of_nat n :: u64) \<le> - 1" by simp
  then show "\<not> write_failed (-1) n" by (simp add: write_failed_def)
  fix k assume k: "k < n"
  have "(word_of_int (int k) :: u64) = of_nat k" by simp
  moreover have "(of_nat k :: u64) < of_nat n"
    using k n by (simp add: word_less_nat_alt unat_of_nat take_bit_nat_eq_self)
  ultimately show "write_failed (int k) n" by (simp add: write_failed_def)
qed

end
