(* ===== verification/Refinement.thy ===== *)
theory Refinement
  imports Kv_Store Client_Handler
begin

text \<open>
  Every command, run by any thread beside any others, does what the abstract store of
  Kv_Store says, waits for a lock another thread holds, or fails at the list of
  transactions, which can only happen while another transaction is open.
\<close>


subsection \<open>Commands\<close>

text \<open>What the log can hold: short keys, short values, none of them empty.\<close>

fun command_small :: "command \<Rightarrow> bool" where
  "command_small (C_Set k v) = (small_str k \<and> small_str v \<and> v \<noteq> [])"
| "command_small c = True"

text \<open>A data command from the lock to the reply.\<close>

fun data_step :: "thread \<Rightarrow> command \<Rightarrow> string \<Rightarrow> nat \<Rightarrow> kv_db \<Rightarrow> (string \<times> kv_db) res" where
  "data_step self (C_Get key) result a db =
     bind_res (lock_key self True key a db) (\<lambda>db.
     bind_res (get_reply result (kv_ht_get (db_ht db) key)) (\<lambda>result. Inr (result, db)))"
| "data_step self (C_Set key val) result a db =
     bind_res (set_log self key val a db) (\<lambda>db.
     let db = set_apply key val db in
     bind_res (strcpy result set_success) (\<lambda>result. Inr (result, db)))"
| "data_step self (C_Del key) result a db =
     bind_res (del_log self key a db) (\<lambda>(found, db).
     let (deleted, db) = del_apply found key db in
     bind_res (strcpy result (if deleted then del_success else del_not_found)) (\<lambda>result. Inr (result, db)))"
| "data_step self c result a db = Inr (result, db)"

fun unlock_arg :: "string \<Rightarrow> command \<Rightarrow> string" where
  "unlock_arg junk (C_Set key val) = key"
| "unlock_arg junk c = junk"

text \<open>What is left of a data command once it has a transaction: a thread that waits for its lock waits here.\<close>

definition rest_of_data ::
  "thread \<Rightarrow> string \<Rightarrow> command \<Rightarrow> string \<Rightarrow> nat \<Rightarrow> bool \<Rightarrow> kv_db \<Rightarrow> (string \<times> nat option \<times> kv_db) res" where
  "rest_of_data self junk cmd result a is_single_command db =
     bind_res (data_step self cmd result a db) (\<lambda>(result, db).
     bind_res (finish_command self is_single_command (unlock_arg junk cmd) a db) (\<lambda>(c_tx, db).
     Inr (result, c_tx, db)))"

lemma exec_data:
  assumes "command_key cmd = Some k"
  shows "exec_command self junk cmd result c_tx db =
     bind_res (ensure_tx c_tx db) (\<lambda>(a, is_single_command, db). rest_of_data self junk cmd result a is_single_command db)"
  using assms
  by (cases cmd)
    (simp_all add: rest_of_data_def run_get_def run_set_def run_del_def bind_res_assoc case_prod_unfold Let_def)

lemma strcpy_ok:
  assumes "NUL \<notin> set t" "length t < length result"
  shows "\<exists>result'. strcpy result t = Inr result' \<and> cstr result' = t \<and> length result' = length result"
  using assms by (simp add: strcpy_def buf_write_def)

lemma get_reply_ok:
  assumes "vals_ok h" "length result = RESULT_SIZE"
  shows "\<exists>result'. get_reply result (h k) = Inr result' \<and> cstr result' = data_reply (C_Get k) h \<and>
     length result' = length result"
proof (cases "h k")
  case None
  then show ?thesis using strcpy_ok [of get_notfound result] assms(2) by (simp add: get_reply_def)
next
  case (Some v)
  then have v: "NUL \<notin> set v" "length v < 16" using assms(1) by (auto simp: vals_ok_def small_str_def)
  have "buf_set (v @ drop (length v) result) (length v) NUL = Inr (v @ NUL # drop (length v + 1) result)"
    using v(2) assms(2) by (simp add: buf_set_def list_update_append upd_conv_take_nth_drop)
  then show ?thesis using Some v assms(2) by (simp add: get_reply_def buf_write_def)
qed

text \<open>
  One data command inside a transaction: it waits for another holder of the lock, or it is
  answered and the relation holds with the command added.
\<close>

lemma set_log_eq:
  assumes inv: "db_inv c as rs db" and a: "a \<in> set as"
  shows "set_log self key val a db =
     bind_res (kv_lm_wlock self (db_lm db) key) (\<lambda>lm.
     tx_log (\<lambda>prev t. kv_recovery_update_log prev t key (str_of (kv_ht_get (db_ht db) key)) val) a
       (lock_db a key lm db))"
  unfolding set_log_def lock_key_eq [OF inv a]
  by (cases "kv_lm_wlock self (db_lm db) key") (simp_all add: str_of_def)

lemma tx_log_update:
  assumes inv: "db_inv c as rs db" and a: "a \<in> set as"
    and s: "small_str key" "small_str old" "small_str val"
  shows "tx_log (\<lambda>prev t. kv_recovery_update_log prev t key old val) a db =
     Inr (log_db a (update_rec (rec_lsn (db_rec db) + 1) (tx_last_lsn (tx_of db a)) (tx_id (tx_of db a)) key old val) db)"
  by (rule tx_log_eq [OF inv a]) (simp add: data_change_log_update [OF s], simp add: update_rec_def)

lemma small_old: "vals_ok h \<Longrightarrow> small_str (str_of (h k))"
  by (auto simp: vals_ok_def str_of_def split: option.split)

text \<open>What a step of transaction \<open>a\<close> adds to the log: its own records, and it stays open.\<close>

definition tx_logged :: "nat \<Rightarrow> kv_db \<Rightarrow> kv_recovery_log_line list \<Rightarrow> kv_db \<Rightarrow> bool" where
  "tx_logged a db qs db' \<longleftrightarrow>
     (\<forall>b. b \<noteq> a \<longrightarrow> tx_of db' b = tx_of db b) \<and> tx_id (tx_of db' a) = tx_id (tx_of db a) \<and>
     transaction_id (db_txm db') = transaction_id (db_txm db) \<and>
     (\<forall>q \<in> set qs. log_tx_id q = tx_id (tx_of db a)) \<and> tx_open (tx_id (tx_of db a)) qs \<and>
     last_of (tx_id (tx_of db a)) qs (tx_last_lsn (tx_of db a)) = tx_last_lsn (tx_of db' a)"

lemma tx_logged_lock: "tx_logged a db [] (lock_db a k lm db)"
  by (simp add: tx_logged_def) (simp add: lock_db_def)

lemma tx_logged_update:
  assumes "log_tx_id r = tx_id (tx_of (lock_db a k lm db) a)" "log_type r = KV_REC_UPDATE"
    "tx_of db' = (tx_of (lock_db a k lm db))(a := kv_tx_set_last_lsn (tx_of (lock_db a k lm db) a) (log_lsn r))"
    "transaction_id (db_txm db') = transaction_id (db_txm db)"
  shows "tx_logged a db [r] db'"
  using assms by (simp add: tx_logged_def tx_open_def)

lemma data_step_sim:
  assumes sim: "sim s c as rs db" and u: "c u = Some a" and ops: "running s u = Some ops"
    and k: "command_key cmd = Some k" and small: "command_small cmd" and len: "length result = RESULT_SIZE"
    and room: "length rs + 1 < 2 ^ 32"
    and lm: "kv_lm_wlock u (db_lm db) k = Inr lm"
  shows "\<exists>result' db' qs. data_step u cmd result a db = Inr (result', db') \<and> length result' = RESULT_SIZE \<and>
     cstr result' = data_reply cmd (tx_view (committed s) ops) \<and>
     length qs = length (data_writes cmd (tx_view (committed s) ops)) \<and>
     tx_logged a db qs db' \<and> db_lm db' = lm \<and> sim (add_op u ops cmd s) c as (rs @ qs) db'"
proof -
  have inv: "db_inv c as rs db" by (rule simD [OF sim])
  have a: "a \<in> set as" using db_invD(6) [OF inv u] .
  let ?db = "lock_db a k lm db"
  have sim1: "sim s c as rs ?db" by (rule sim_lock(1) [OF sim u lm])
  have inv1: "db_inv c as rs ?db" by (rule simD [OF sim1])
  have locked: "k \<in> set (tx_locks (tx_of ?db a))" by simp
  have view: "kv_ht_get (db_ht db) k = tx_view (committed s) ops k"
    using sim_view [OF sim u ops sim_lock(2) [OF sim u lm]] by simp
  have vals: "vals_ok (kv_ht_get (db_ht db))" by (rule simD [OF sim])
  have lk: "lock_key u b k a db = Inr ?db" for b using lock_key_eq [OF inv a] lm by simp
  have tid: "transaction_id (db_txm ?db) = transaction_id (db_txm db)" by (simp add: lock_db_def)
  have upd: "update_db a k v ?db = (log_db a (update_rec (rec_lsn (db_rec ?db) + 1) (tx_last_lsn (tx_of ?db a))
      (tx_id (tx_of ?db a)) k (str_of (kv_ht_get (db_ht db) k)) v) ?db)\<lparr>db_ht := ht.apply_write (k, val_of v) (db_ht db)\<rparr>" for v
    by (simp add: update_db_def del: tx_of_log_db)
  have utid: "transaction_id (db_txm (update_db a k v ?db)) = transaction_id (db_txm db)" "db_lm (update_db a k v ?db) = lm" for v
    by (simp_all add: update_db_def log_db_def lock_db_def)
  have tl: "tx_log (\<lambda>prev t. kv_recovery_update_log prev t k (str_of (kv_ht_get (db_ht db) k)) v) a ?db =
      Inr (log_db a (update_rec (rec_lsn (db_rec ?db) + 1) (tx_last_lsn (tx_of ?db a)) (tx_id (tx_of ?db a)) k
         (str_of (kv_ht_get (db_ht db) k)) v) ?db)" if "small_str k" "small_str v" for v
    using that by (intro tx_log_update [OF inv1 a] small_old [OF vals])
  consider (get) "cmd = C_Get k" | (set) v where "cmd = C_Set k v" | (del) "cmd = C_Del k"
    using k by (cases cmd) auto
  then show ?thesis
  proof cases
    case get
    obtain result' where r: "get_reply result (kv_ht_get (db_ht db) k) = Inr result'"
      "cstr result' = data_reply cmd (kv_ht_get (db_ht db))" "length result' = length result"
      using get_reply_ok [OF vals len] get by blast
    have "sim (add_op u ops cmd s) c as rs ?db"
      by (rule sim_read [OF sim1 u ops k locked]) (simp add: get)
    moreover have "data_reply cmd (kv_ht_get (db_ht db)) = data_reply cmd (tx_view (committed s) ops)"
      using data_local [of cmd "kv_ht_get (db_ht db)" "tx_view (committed s) ops"] view k by simp
    ultimately show ?thesis using r len get lk tx_logged_lock
      by (intro exI [of _ result'] exI [of _ ?db] exI [of _ "[]"]) simp
  next
    case (set v)
    obtain result' where r: "strcpy result set_success = Inr result'" "cstr result' = set_success" "length result' = length result"
      using strcpy_ok [of set_success result] len by auto
    have sm: "small_str k" "small_str v" "v \<noteq> []" using small set by auto
    obtain q where q: "sim (add_op u ops cmd s) c as (rs @ [q]) (update_db a k v ?db)" "log_tx_id q = tx_id (tx_of ?db a)"
      "log_type q = KV_REC_UPDATE" "tx_of (update_db a k v ?db) = (tx_of ?db)(a := kv_tx_set_last_lsn (tx_of ?db a) (log_lsn q))"
      using sim_update [OF sim1 u ops k locked sm(1,2) _ _ room] sm(3) set by (auto simp: val_of_def)
    have "data_step u cmd result a db = Inr (result', update_db a k v ?db)"
      using r(1) lm tl [OF sm(1,2)] upd [of v] sm(3)
      by (simp add: set set_log_eq [OF inv a] set_apply_def ht.apply_write_def val_of_def Let_def
          del: tx_of_log_db lock_db_simps(4))
    then show ?thesis using r q(1) len set utid tx_logged_update [OF q(2-4)]
      by (intro exI [of _ result'] exI [of _ "update_db a k v ?db"] exI [of _ "[q]"]) simp
  next
    case del
    show ?thesis
    proof (cases "kv_ht_get (db_ht db) k")
      case None
      obtain result' where r: "strcpy result del_not_found = Inr result'" "cstr result' = del_not_found" "length result' = length result"
        using strcpy_ok [of del_not_found result] len by auto
      have "sim (add_op u ops cmd s) c as rs ?db"
        by (rule sim_read [OF sim1 u ops k locked]) (use view None in \<open>simp add: del\<close>)
      moreover have "data_step u cmd result a db = Inr (result', ?db)"
        using r(1) lk None by (simp add: del del_log_def del_apply_def)
      ultimately show ?thesis using r len view None del tx_logged_lock
        by (intro exI [of _ result'] exI [of _ ?db] exI [of _ "[]"]) simp
    next
      case (Some old)
      obtain result' where r: "strcpy result del_success = Inr result'" "cstr result' = del_success" "length result' = length result"
        using strcpy_ok [of del_success result] len by auto
      have sm: "small_str k" using vals Some by (auto simp: vals_ok_def)
      have tv: "tx_view (committed s) ops k = Some old" using view Some by simp
      have "data_writes cmd (tx_view (committed s) ops) = [(k, val_of [])]" by (simp add: del tv val_of_def)
      moreover have "kv_ht_get (db_ht ?db) k \<noteq> None \<or> [] \<noteq> ([] :: string)" using Some by simp
      ultimately obtain q where q: "sim (add_op u ops cmd s) c as (rs @ [q]) (update_db a k [] ?db)"
        "log_tx_id q = tx_id (tx_of ?db a)" "log_type q = KV_REC_UPDATE"
        "tx_of (update_db a k [] ?db) = (tx_of ?db)(a := kv_tx_set_last_lsn (tx_of ?db a) (log_lsn q))"
        using sim_update [OF sim1 u ops k locked sm small_str_Nil _ _ room] by blast
      have "kv_ht_del (db_ht db) k = (Some (k, old), snd (kv_ht_del (db_ht db) k))"
        using kv_ht_del_correct(3) [OF db_invD(3) [OF inv], of k] Some by (cases "kv_ht_del (db_ht db) k") simp
      then have "data_step u cmd result a db = Inr (result', update_db a k [] ?db)"
        using r(1) lk Some tl [OF sm small_str_Nil] upd [of "[]"]
        by (auto simp: del del_log_def del_apply_def str_of_def ht.apply_write_def val_of_def
            simp del: tx_of_log_db lock_db_simps(4) split: prod.split)
      then show ?thesis using r q(1) len tv del utid tx_logged_update [OF q(2-4)]
        by (intro exI [of _ result'] exI [of _ "update_db a k [] ?db"] exI [of _ "[q]"]) simp
    qed
  qed
qed

subsection \<open>A whole command\<close>

text \<open>Room for the numbers: the counters are far from wrapping around.\<close>

definition room :: "kv_db \<Rightarrow> bool" where
  "room db \<longleftrightarrow> unat (rec_lsn (db_rec db)) < 2 ^ 30 \<and> unat (transaction_id (db_txm db)) < 2 ^ 30"

lemma log_rep_length: "log_rep st rs \<Longrightarrow> unat (rec_lsn st) = length rs"
  by (simp add: log_rep_def unat_of_nat take_bit_nat_eq_self)

lemma room_length: "sim s c as rs db \<Longrightarrow> room db \<Longrightarrow> length rs < 2 ^ 30"
  using log_rep_length [OF db_invD(4)] by (fastforce simp: sim_def room_def)

lemma sim_lm:
  assumes sim: "sim s c as rs db" and lm: "lm_inv lm" "lm_held lm = lm_held (db_lm db)"
  shows "sim s c as rs (db\<lparr>db_lm := lm\<rparr>)"
proof -
  have tx: "tx_of (db\<lparr>db_lm := lm\<rparr>) b = tx_of db b" for b by (simp add: tx_of_def)
  have "lm.holds_exactly lm u ks = lm.holds_exactly (db_lm db) u ks" for u ks
    using lm(2) by (simp add: lm.holds_exactly_def)
  then have "db_inv c as rs (db\<lparr>db_lm := lm\<rparr>)" using sim lm(1) unfolding sim_def db_inv_def tx by simp
  moreover have "db_ht (db\<lparr>db_lm := lm\<rparr>) = db_ht db" by simp
  ultimately show ?thesis using sim unfolding sim_def tx by metis
qed

text \<open>
  What a command adds to the log: records of its transaction only, which end it when the client
  has no transaction afterwards; the number of the last one is kept in the transaction.
\<close>

definition tx_number :: "thread \<Rightarrow> (thread \<Rightarrow> nat option) \<Rightarrow> kv_db \<Rightarrow> u32" where
  "tx_number u c db = (case c u of None \<Rightarrow> transaction_id (db_txm db) + 1 | Some a \<Rightarrow> tx_id (tx_of db a))"

definition log_step ::
  "thread \<Rightarrow> (thread \<Rightarrow> nat option) \<Rightarrow> kv_db \<Rightarrow> nat option \<Rightarrow> kv_recovery_log_line list \<Rightarrow> kv_db \<Rightarrow> bool" where
  "log_step u c db c_tx qs db' \<longleftrightarrow>
     (\<forall>v b. v \<noteq> u \<longrightarrow> c v = Some b \<longrightarrow> tx_of db' b = tx_of db b) \<and>
     (\<forall>q \<in> set qs. log_tx_id q = tx_number u c db) \<and>
     transaction_id (db_txm db') = transaction_id (db_txm db) + (if c u = None \<and> qs \<noteq> [] then 1 else 0) \<and>
     (case c_tx of
        None \<Rightarrow> c u = None \<and> qs = [] \<or> tx_ended (tx_number u c db) qs
      | Some a' \<Rightarrow> tx_id (tx_of db' a') = tx_number u c db \<and> tx_open (tx_number u c db) qs \<and> (c u = None \<longrightarrow> qs \<noteq> []) \<and>
          last_of (tx_number u c db) qs (case c u of None \<Rightarrow> 0 | Some a \<Rightarrow> tx_last_lsn (tx_of db a)) = tx_last_lsn (tx_of db' a'))"

lemma log_step_refl [simp]: "log_step u c db (c u) [] db"
  by (auto simp: log_step_def tx_number_def split: option.split)

lemma log_step_logged:
  assumes inv: "db_inv c as rs db" and u: "c u = Some a" and l: "tx_logged a db qs db'"
  shows "log_step u c db (Some a) qs db'"
proof -
  have "tx_of db' b = tx_of db b" if "v \<noteq> u" "c v = Some b" for v b
  proof -
    have "b \<noteq> a" using db_invD(7) [OF inv u, of v] that by auto
    then show ?thesis using l by (simp add: tx_logged_def)
  qed
  then show ?thesis using l u by (simp add: tx_logged_def log_step_def tx_number_def)
qed

lemma tx_ended_commit: "log_tx_id r = t \<Longrightarrow> log_type r = KV_REC_COMMIT \<Longrightarrow> tx_ended t [r]"
  by (simp add: tx_ended_def)

lemma log_step_ended:
  assumes inv: "db_inv c as rs db" and u: "c u = Some a" and l: "tx_logged a db qs db1"
    and "\<forall>b. b \<noteq> a \<longrightarrow> tx_of db' b = tx_of db1 b" "\<forall>q \<in> set qs'. log_tx_id q = tx_id (tx_of db a)"
    "tx_ended (tx_id (tx_of db a)) qs'" "transaction_id (db_txm db') = transaction_id (db_txm db1)"
  shows "log_step u c db None (qs @ qs') db'"
proof -
  have "tx_of db' b = tx_of db b" if "v \<noteq> u" "c v = Some b" for v b
  proof -
    have "b \<noteq> a" using db_invD(7) [OF inv u, of v] that by auto
    then show ?thesis using l assms(4) by (simp add: tx_logged_def)
  qed
  moreover have "tx_ended (tx_id (tx_of db a)) (qs @ qs')" using assms(6) tx_ended_append by blast
  ultimately show ?thesis using l assms(5,7) u by (simp add: tx_logged_def log_step_def tx_number_def ball_Un)
qed

lemma tx_logged_refl [simp]: "tx_logged a db [] db"
  by (simp add: tx_logged_def)

lemma log_step_begin:
  assumes u: "c u = None" and a: "tx_id (tx_of db1 a) = transaction_id (db_txm db) + 1" "tx_last_lsn (tx_of db1 a) = log_lsn (begin_rec db)"
    "\<forall>b. b \<noteq> a \<longrightarrow> tx_of db1 b = tx_of db b" "transaction_id (db_txm db1) = transaction_id (db_txm db) + 1" "\<And>v. c v \<noteq> Some a"
    and l: "log_step u (c(u \<mapsto> a)) db1 c_tx qs db'"
  shows "log_step u c db c_tx (begin_rec db # qs) db'"
proof -
  let ?t = "transaction_id (db_txm db) + 1"
  have t: "tx_number u (c(u \<mapsto> a)) db1 = ?t" "tx_number u c db = ?t" using u a(1) by (simp_all add: tx_number_def)
  have r: "log_tx_id (begin_rec db) = ?t" "log_type (begin_rec db) = KV_REC_BEGIN" by (simp_all add: begin_rec_def short_rec_def)
  have op: "tx_open ?t [begin_rec db]" using r by (simp add: tx_open_def)
  have ended: "tx_ended ?t (begin_rec db # qs)" if "tx_ended ?t qs"
    using tx_ended_append [of ?t "[begin_rec db]" qs] that by simp
  have "tx_open ?t (begin_rec db # qs)" if "tx_open ?t qs" using op that tx_records_append(1) [of ?t "[begin_rec db]" qs] by simp
  moreover have "tx_of db1 b = tx_of db b" if "c v = Some b" for v b
  proof -
    have "b \<noteq> a" using a(5) [of v] that by auto
    then show ?thesis using a(3) by simp
  qed
  ultimately show ?thesis using l a(2,4) u r(1) ended unfolding log_step_def t by (auto split: option.splits)
qed

text \<open>
  How a command can end: answered as the abstract store answers, with the relation kept; waiting
  for a lock another thread holds; or at the unwritten pointer of the list of transactions,
  when another transaction is still open that began earlier.
\<close>

definition refines ::
  "thread \<Rightarrow> command \<Rightarrow> store \<Rightarrow> (thread \<Rightarrow> nat option) \<Rightarrow> kv_recovery_log_line list \<Rightarrow> kv_db \<Rightarrow>
   (string \<times> nat option \<times> kv_db) res \<Rightarrow> bool" where
  "refines u cmd s c rs db r \<longleftrightarrow>
     (\<exists>result c_tx db' as qs. r = Inr (result, c_tx, db') \<and> length result = RESULT_SIZE \<and>
        cstr result = fst (spec_command u cmd s) \<and>
        sim (snd (spec_command u cmd s)) (c(u := c_tx)) as (rs @ qs) db' \<and> log_step u c db c_tx qs db') \<or>
     (r = Inl Blocked \<and> (\<exists>k v. command_key cmd = Some k \<and> v \<noteq> u \<and> 0 < lm_held (db_lm db) v (slot k))) \<or>
     (r = Inl Uninit \<and> (\<exists>v. v \<noteq> u \<and> c v \<noteq> None))"

lemma refines_answer:
  assumes "r = Inr (result, c_tx, db')" "length result = RESULT_SIZE" "cstr result = t"
    "sim s' (c(u := c_tx)) as (rs @ qs) db'" "log_step u c db c_tx qs db'" "spec_command u cmd s = (t, s')"
  shows "refines u cmd s c rs db r"
  using assms unfolding refines_def by auto

lemma wlock_cases:
  assumes inv: "db_inv c as rs db" and u: "0 < u"
  obtains lm where "kv_lm_wlock u (db_lm db) k = Inr lm"
    | v where "kv_lm_wlock u (db_lm db) k = Inl Blocked" "v \<noteq> u" "0 < lm_held (db_lm db) v (slot k)"
  using lm_wlock_cases [OF db_invD(2) [OF inv] u, of k] by (cases "kv_lm_wlock u (db_lm db) k") fastforce+

lemma data_step_blocked:
  assumes "db_inv c as rs db" "a \<in> set as" "kv_lm_wlock u (db_lm db) k = Inl Blocked" "command_key cmd = Some k"
  shows "data_step u cmd result a db = Inl Blocked"
  using assms(3,4) lock_key_eq [OF assms(1,2)] by (cases cmd) (simp_all add: set_log_def del_log_def)

lemma spec_data:
  assumes "command_key cmd = Some k"
  shows "spec_command u cmd s =
     (case running s u of
        None \<Rightarrow> (data_reply cmd (committed s), s\<lparr>committed := map_writes (data_writes cmd (committed s)) (committed s)\<rparr>)
      | Some ops \<Rightarrow> (data_reply cmd (tx_view (committed s) ops), add_op u ops cmd s))"
  using assms by (cases cmd) (auto simp: Let_def split: option.split)

text \<open>The rest of a data command in a transaction of the client.\<close>

lemma rest_in_tx:
  assumes sim: "sim s c as rs db" and u: "c u = Some a" and ops: "running s u = Some ops" and room: "length rs + 1 < 2 ^ 32"
    and k: "command_key cmd = Some k" and small: "command_small cmd" and len: "length result = RESULT_SIZE"
    and lm: "kv_lm_wlock u (db_lm db) k = Inr lm"
  shows "\<exists>result' db' qs. rest_of_data u junk cmd result a False db = Inr (result', Some a, db') \<and>
     length result' = RESULT_SIZE \<and> cstr result' = data_reply cmd (tx_view (committed s) ops) \<and>
     sim (add_op u ops cmd s) c as (rs @ qs) db' \<and> log_step u c db (Some a) qs db' \<and> db_lm db' = lm \<and>
     length qs = length (data_writes cmd (tx_view (committed s) ops))"
proof -
  obtain result' db' qs where d: "data_step u cmd result a db = Inr (result', db')" "length result' = RESULT_SIZE"
    "cstr result' = data_reply cmd (tx_view (committed s) ops)" "sim (add_op u ops cmd s) c as (rs @ qs) db'"
    "tx_logged a db qs db'" "db_lm db' = lm" "length qs = length (data_writes cmd (tx_view (committed s) ops))"
    using data_step_sim [OF sim u ops k small len room lm] by auto
  then show ?thesis using log_step_logged [OF simD(1) [OF sim] u d(5)]
    by (intro exI [of _ result'] exI [of _ db'] exI [of _ qs]) (auto simp: rest_of_data_def finish_command_def)
qed

text \<open>The rest of a single command: its transaction is committed, if it is the oldest.\<close>

lemma rest_single_data:
  assumes sim: "sim s c as rs db" and u: "c u = Some a" and ops: "running s u = Some []" and room: "length rs + 2 < 2 ^ 32"
    and k: "command_key cmd = Some k" and small: "command_small cmd" and len: "length result = RESULT_SIZE"
    and lm: "kv_lm_wlock u (db_lm db) k = Inr lm"
  obtains result' db2 qs where "rest_of_data u junk cmd result a True db =
      bind_res (commit_tx u a db2) (\<lambda>db. Inr (result', None, db\<lparr>db_lm := kv_lm_unlock u (db_lm db) (unlock_arg junk cmd)\<rparr>))"
    "length result' = RESULT_SIZE" "cstr result' = data_reply cmd (committed s)"
    "sim (add_op u [] cmd s) c as (rs @ qs) db2" "length (rs @ qs) + 1 < 2 ^ 32" "tx_logged a db qs db2"
proof -
  have r1: "length rs + 1 < 2 ^ 32" using room by simp
  obtain result' db2 qs where "data_step u cmd result a db = Inr (result', db2)" "length result' = RESULT_SIZE"
    "cstr result' = data_reply cmd (tx_view (committed s) [])" "length qs = length (data_writes cmd (committed s))"
    "sim (add_op u [] cmd s) c as (rs @ qs) db2" "tx_logged a db qs db2"
    using data_step_sim [OF sim u ops k small len r1 lm] by auto
  moreover have "length (data_writes cmd (committed s)) \<le> 1" by (cases cmd) simp_all
  ultimately show thesis using room
    by (intro that [of db2 result' qs]) (simp_all add: rest_of_data_def finish_command_def bind_res_assoc)
qed

lemma rest_single:
  assumes sim: "sim s c (a # as) rs db" and u: "c u = Some a" and ops: "running s u = Some []" and room: "length rs + 2 < 2 ^ 32"
    and k: "command_key cmd = Some k" and small: "command_small cmd" and len: "length result = RESULT_SIZE"
    and lm: "kv_lm_wlock u (db_lm db) k = Inr lm"
  shows "\<exists>result' db' qs. rest_of_data u junk cmd result a True db = Inr (result', None, db') \<and>
     length result' = RESULT_SIZE \<and> cstr result' = data_reply cmd (committed s) \<and>
     sim (s\<lparr>committed := map_writes (data_writes cmd (committed s)) (committed s), running := (running s)(u := None)\<rparr>)
       (c(u := None)) as (rs @ qs) db' \<and> log_step u c db None qs db'"
proof -
  let ?key = "unlock_arg junk cmd"
  obtain result' db2 qs where d: "rest_of_data u junk cmd result a True db =
      bind_res (commit_tx u a db2) (\<lambda>db. Inr (result', None, db\<lparr>db_lm := kv_lm_unlock u (db_lm db) ?key\<rparr>))"
    "length result' = RESULT_SIZE" "cstr result' = data_reply cmd (committed s)"
    "sim (add_op u [] cmd s) c (a # as) (rs @ qs) db2" "length (rs @ qs) + 1 < 2 ^ 32" "tx_logged a db qs db2"
    using rest_single_data [OF sim u ops room k small len lm] .
  let ?s2 = "add_op u [] cmd s"
  let ?ops = "[] @ [(cmd, data_reply cmd (tx_view (committed s) []))]"
  let ?s3 = "?s2\<lparr>committed := tx_view (committed ?s2) ?ops, running := (running ?s2)(u := None)\<rparr>"
  have ops2: "running ?s2 u = Some ?ops" by simp
  from commit_tx_sim [OF d(4) u ops2 d(5)] obtain r db3 where e: "commit_tx u a db2 = Inr db3"
    "lm_held (db_lm db3) u = (\<lambda>_. 0)" "sim ?s3 (c(u := None)) as ((rs @ qs) @ [r]) db3"
    "log_tx_id r = tx_id (tx_of db2 a)" "log_type r = KV_REC_COMMIT" "\<forall>b. b \<noteq> a \<longrightarrow> tx_of db3 b = tx_of db2 b"
    "transaction_id (db_txm db3) = transaction_id (db_txm db2)" by blast
  let ?db = "db3\<lparr>db_lm := kv_lm_unlock u (db_lm db3) ?key\<rparr>"
  have id2: "tx_id (tx_of db2 a) = tx_id (tx_of db a)" using d(6) by (simp add: tx_logged_def)
  have ls: "log_step u c db None (qs @ [r]) ?db"
    using e(4-7) tx_ended_commit [of r] id2
    by (intro log_step_ended [OF simD(1) [OF sim] u d(6)]) (simp_all add: tx_of_def)
  have lm3: "lm_inv (db_lm db3)" by (rule db_invD(2) [OF simD(1) [OF e(3)]])
  have u0: "0 < u" by (rule db_invD(5) [OF simD(1) [OF sim] u])
  have lmh: "lm_held (kv_lm_unlock u (db_lm db3) ?key) = lm_held (db_lm db3)"
    using lm.release_nothing [OF lm3 u0] e(2) by (simp add: lm.holds_exactly_def)
  from sim_lm [OF e(3) lm.release_inv [OF lm3 u0] lmh]
  have s3: "sim ?s3 (c(u := None)) as (rs @ qs @ [r]) (db3\<lparr>db_lm := kv_lm_unlock u (db_lm db3) ?key\<rparr>)" by simp
  have "?s3 = s\<lparr>committed := map_writes (data_writes cmd (committed s)) (committed s), running := (running s)(u := None)\<rparr>"
    unfolding tx_view_simps by simp
  then show ?thesis using s3 d(1-3) e(1) ls
    by (intro exI [of _ result'] exI [of _ "db3\<lparr>db_lm := kv_lm_unlock u (db_lm db3) ?key\<rparr>"] exI [of _ "qs @ [r]"]) auto
qed

lemma rest_single_younger:
  assumes sim: "sim s c (b # as) rs db" and u: "c u = Some a" "b \<noteq> a" and ops: "running s u = Some []" and room: "length rs + 2 < 2 ^ 32"
    and k: "command_key cmd = Some k" and small: "command_small cmd" and len: "length result = RESULT_SIZE"
    and lm: "kv_lm_wlock u (db_lm db) k = Inr lm"
  shows "rest_of_data u junk cmd result a True db = Inl Uninit"
proof -
  obtain result' db2 qs where d: "rest_of_data u junk cmd result a True db =
      bind_res (commit_tx u a db2) (\<lambda>db. Inr (result', None, db\<lparr>db_lm := kv_lm_unlock u (db_lm db) (unlock_arg junk cmd)\<rparr>))"
    "sim (add_op u [] cmd s) c (b # as) (rs @ qs) db2" "length (rs @ qs) + 1 < 2 ^ 32"
    using rest_single_data [OF sim u(1) ops room k small len lm] .
  show ?thesis unfolding d(1) using commit_tx_younger [OF d(2) u d(3)] by simp
qed

text \<open>The two kinds of data commands from their start.\<close>

lemma rest_blocked:
  assumes "db_inv c as rs db" "a \<in> set as" "kv_lm_wlock u (db_lm db) k = Inl Blocked" "command_key cmd = Some k"
  shows "rest_of_data u junk cmd result a single db = Inl Blocked"
  using data_step_blocked [OF assms] by (simp add: rest_of_data_def)

lemma other_owner:
  assumes inv: "db_inv c as rs db" and e: "c u = Some a" "e \<noteq> a" "e \<in> set as"
  shows "\<exists>v. v \<noteq> u \<and> c v \<noteq> None"
proof -
  obtain v where v: "c v = Some e" using db_invD(10) [OF inv e(3)] by blast
  then show ?thesis using e(1,2) by (intro exI [of _ v]) auto
qed

lemma exec_data_in_tx:
  assumes sim: "sim s c as rs db" and u: "c u = Some a" and rm: "room db"
    and k: "command_key cmd = Some k" and small: "command_small cmd" and len: "length result = RESULT_SIZE"
  shows "refines u cmd s c rs db (exec_command u junk cmd result (c u) db)"
proof -
  have inv: "db_inv c as rs db" by (rule simD [OF sim])
  have a: "a \<in> set as" "0 < u" using db_invD(5,6) [OF inv u] by auto
  have rl: "length rs + 1 < 2 ^ 32" using room_length [OF sim rm] by simp
  obtain ops where ops: "running s u = Some ops" using sim_opsE [OF sim u] .
  have ex: "exec_command u junk cmd result (c u) db = rest_of_data u junk cmd result a False db"
    unfolding exec_data [OF k] by (simp add: u ensure_tx_def)
  consider (granted) lm where "kv_lm_wlock u (db_lm db) k = Inr lm"
    | (waits) v where "kv_lm_wlock u (db_lm db) k = Inl Blocked" "v \<noteq> u" "0 < lm_held (db_lm db) v (slot k)"
    using wlock_cases [OF inv a(2), of k] by blast
  then show ?thesis
  proof cases
    case (granted lm)
    obtain result' db' qs where r: "rest_of_data u junk cmd result a False db = Inr (result', Some a, db')"
      "length result' = RESULT_SIZE" "cstr result' = data_reply cmd (tx_view (committed s) ops)"
      "sim (add_op u ops cmd s) c as (rs @ qs) db'" "log_step u c db (Some a) qs db'"
      using rest_in_tx [OF sim u ops rl k small len granted, of junk] by blast
    have "c(u := Some a) = c" using u by auto
    then show ?thesis unfolding ex using r(4)
      by (intro refines_answer [OF r(1-3) _ r(5)]) (auto simp: spec_data [OF k] ops)
  next
    case (waits v)
    then show ?thesis unfolding refines_def ex using rest_blocked [OF inv a(1) waits(1) k] k by auto
  qed
qed

text \<open>Starting a transaction, for the client or for one command.\<close>

lemma begin_step:
  assumes sim: "sim s c as rs db" and u: "c u = None" "0 < u" and rm: "room db"
  obtains a db1 where "begin_tx db = Inr (a, db1)" "a \<notin> set as" "db_lm db1 = db_lm db"
    "sim (s\<lparr>running := (running s)(u \<mapsto> [])\<rparr>) (c(u \<mapsto> a)) (as @ [a]) (rs @ [begin_rec db]) db1"
    "\<forall>c_tx qs db'. log_step u (c(u \<mapsto> a)) db1 c_tx qs db' \<longrightarrow> log_step u c db c_tx (begin_rec db # qs) db'"
    "log_step u c db (Some a) [begin_rec db] db1"
proof -
  have rl: "length rs < 2 ^ 30" by (rule room_length [OF sim rm])
  obtain a db1 where b: "begin_tx db = Inr (a, db1)" "a \<notin> set as" "db_lm db1 = db_lm db"
    "sim (s\<lparr>running := (running s)(u \<mapsto> [])\<rparr>) (c(u \<mapsto> a)) (as @ [a]) (rs @ [begin_rec db]) db1"
    "tx_id (tx_of db1 a) = transaction_id (db_txm db) + 1" "tx_last_lsn (tx_of db1 a) = log_lsn (begin_rec db)"
    "\<forall>b. b \<noteq> a \<longrightarrow> tx_of db1 b = tx_of db b" "transaction_id (db_txm db1) = transaction_id (db_txm db) + 1"
    using begin_tx_sim [OF sim u] rm rl by (auto simp: room_def)
  have new: "c v \<noteq> Some a" for v using db_invD(6) [OF simD(1) [OF sim], of v a] b(2) by auto
  have step: "log_step u c db c_tx (begin_rec db # qs) db'" if l: "log_step u (c(u \<mapsto> a)) db1 c_tx qs db'" for c_tx qs db'
    by (rule log_step_begin [of c u db1 a, OF u(1) b(5-8) new l])
  have "log_step u (c(u \<mapsto> a)) db1 (Some a) [] db1" using log_step_refl [of u "c(u \<mapsto> a)" db1] by simp
  note one = step [OF this]
  have all: "\<forall>c_tx qs db'. log_step u (c(u \<mapsto> a)) db1 c_tx qs db' \<longrightarrow> log_step u c db c_tx (begin_rec db # qs) db'"
    using step by simp
  show thesis by (rule that [OF b(1-4) all one])
qed

lemma exec_data_single:
  assumes sim: "sim s c as rs db" and u: "c u = None" "0 < u" and rm: "room db"
    and k: "command_key cmd = Some k" and small: "command_small cmd" and len: "length result = RESULT_SIZE"
  shows "refines u cmd s c rs db (exec_command u junk cmd result (c u) db)"
proof -
  let ?s1 = "s\<lparr>running := (running s)(u \<mapsto> [])\<rparr>"
  have rl: "length rs < 2 ^ 30" by (rule room_length [OF sim rm])
  have idle: "running s u = None" using sim u(1) unfolding sim_def by blast
  obtain a db1 where b: "begin_tx db = Inr (a, db1)" "a \<notin> set as" "db_lm db1 = db_lm db"
    "sim ?s1 (c(u \<mapsto> a)) (as @ [a]) (rs @ [begin_rec db]) db1"
    "\<forall>c_tx qs db'. log_step u (c(u \<mapsto> a)) db1 c_tx qs db' \<longrightarrow> log_step u c db c_tx (begin_rec db # qs) db'"
    "log_step u c db (Some a) [begin_rec db] db1"
    by (rule begin_step [OF sim u rm]) (rule that)
  have inv1: "db_inv (c(u \<mapsto> a)) (as @ [a]) (rs @ [begin_rec db]) db1" by (rule simD [OF b(4)])
  have cu: "(c(u \<mapsto> a)) u = Some a" "running ?s1 u = Some []" by simp_all
  have rl1: "length (rs @ [begin_rec db]) + 2 < 2 ^ 32" using rl by simp
  have ex: "exec_command u junk cmd result (c u) db = rest_of_data u junk cmd result a True db1"
    unfolding exec_data [OF k] by (simp add: u(1) ensure_tx_def b(1))
  consider (granted) lm where "kv_lm_wlock u (db_lm db1) k = Inr lm"
    | (waits) v where "kv_lm_wlock u (db_lm db1) k = Inl Blocked" "v \<noteq> u" "0 < lm_held (db_lm db1) v (slot k)"
    using wlock_cases [OF inv1 u(2), of k] by blast
  then show ?thesis
  proof cases
    case (waits v)
    have "a \<in> set (as @ [a])" by simp
    then show ?thesis unfolding refines_def ex using rest_blocked [OF inv1 _ waits(1) k] waits(2,3) k b(3) by auto
  next
    case (granted lm)
    show ?thesis
    proof (cases as)
      case (Cons e es)
      have "e \<noteq> a" using b(2) Cons by auto
      have b4: "sim ?s1 (c(u \<mapsto> a)) (e # es @ [a]) (rs @ [begin_rec db]) db1" using b(4) Cons by simp
      have "rest_of_data u junk cmd result a True db1 = Inl Uninit"
        by (rule rest_single_younger [OF b4 cu(1) \<open>e \<noteq> a\<close> cu(2) rl1 k small len granted])
      moreover have "\<exists>v. v \<noteq> u \<and> (c(u \<mapsto> a)) v \<noteq> None" by (rule other_owner [OF inv1 cu(1) \<open>e \<noteq> a\<close>]) (simp add: Cons)
      ultimately show ?thesis unfolding refines_def ex by auto
    next
      case Nil
      have run: "(running ?s1)(u := None) = running s" using idle by (simp add: fun_upd_idem_iff)
      have "c(u := None) = c" using u(1) by (simp add: fun_upd_idem_iff)
      moreover have "?s1\<lparr>committed := map_writes (data_writes cmd (committed ?s1)) (committed ?s1), running := (running ?s1)(u := None)\<rparr>
          = snd (spec_command u cmd s)"
        unfolding run by (simp add: spec_data [OF k] idle)
      moreover have c1: "(c(u \<mapsto> a))(u := None) = c(u := None)" by simp
      moreover have b4: "sim ?s1 (c(u \<mapsto> a)) (a # []) (rs @ [begin_rec db]) db1" using b(4) Nil by simp
      moreover obtain result' db' qs where r: "rest_of_data u junk cmd result a True db1 = Inr (result', None, db')"
        "length result' = RESULT_SIZE" "cstr result' = data_reply cmd (committed ?s1)"
        "sim (?s1\<lparr>committed := map_writes (data_writes cmd (committed ?s1)) (committed ?s1),
           running := (running ?s1)(u := None)\<rparr>) ((c(u \<mapsto> a))(u := None)) [] ((rs @ [begin_rec db]) @ qs) db'"
        "log_step u (c(u \<mapsto> a)) db1 None qs db'"
        using rest_single [OF b4 cu rl1 k small len granted, of junk] by blast
      ultimately show ?thesis unfolding ex
        by (intro refines_answer [OF r(1-3) _ b(5) [rule_format, OF r(5)], where s' = "snd (spec_command u cmd s)"])
          (simp_all add: spec_data [OF k] idle)
    qed
  qed
qed

lemma strcpy_reply:
  assumes "length result = RESULT_SIZE" "NUL \<notin> set t" "length t < 64"
  obtains result' where "strcpy result t = Inr result'" "length result' = RESULT_SIZE" "cstr result' = t"
  using strcpy_ok [of t result] assms by auto

text \<open>A command that only replies.\<close>

lemma refines_stay:
  assumes sim: "sim s c as rs db" and len: "length result = RESULT_SIZE"
    and sp: "spec_command u cmd s = (t, s)" "NUL \<notin> set t" "length t < 64"
    and ex: "r = bind_res (strcpy result t) (\<lambda>result. Inr (result, c u, db))"
  shows "refines u cmd s c rs db r"
proof -
  obtain result' where r: "strcpy result t = Inr result'" "length result' = RESULT_SIZE" "cstr result' = t"
    using strcpy_reply [OF len sp(2,3)] .
  have s0: "sim s (c(u := c u)) as (rs @ []) db" using sim by simp
  show ?thesis by (rule refines_answer [OF _ r(2,3) s0 log_step_refl sp(1)]) (simp add: ex r(1))
qed

lemma exec_begin:
  assumes sim: "sim s c as rs db" and u: "0 < u" and rm: "room db" and len: "length result = RESULT_SIZE"
  shows "refines u C_Begin s c rs db (exec_command u junk C_Begin result (c u) db)"
proof (cases "c u")
  case None
  have idle: "running s u = None" using sim None unfolding sim_def by blast
  obtain a db1 where b: "begin_tx db = Inr (a, db1)" "a \<notin> set as" "db_lm db1 = db_lm db"
    "sim (s\<lparr>running := (running s)(u \<mapsto> [])\<rparr>) (c(u := Some a)) (as @ [a]) (rs @ [begin_rec db]) db1"
    "\<forall>c_tx qs db'. log_step u (c(u \<mapsto> a)) db1 c_tx qs db' \<longrightarrow> log_step u c db c_tx (begin_rec db # qs) db'"
    "log_step u c db (Some a) [begin_rec db] db1"
    by (rule begin_step [OF sim None u rm]) (rule that)
  obtain result' where r: "strcpy result transaction_started = Inr result'" "length result' = RESULT_SIZE"
    "cstr result' = transaction_started" using strcpy_reply [OF len, of transaction_started] by auto
  show ?thesis by (rule refines_answer [OF _ r(2,3) b(4,6)]) (simp_all add: None idle run_begin_def b(1) r(1))
next
  case (Some a)
  obtain ops where "running s u = Some ops" using sim_opsE [OF sim Some] .
  then show ?thesis using Some
    by (intro refines_stay [OF sim len, where t = transaction_already_started]) (simp_all add: run_begin_def)
qed

lemma exec_commit:
  assumes sim: "sim s c as rs db" and rm: "room db" and len: "length result = RESULT_SIZE"
  shows "refines u C_Commit s c rs db (exec_command u junk C_Commit result (c u) db)"
proof (cases "c u")
  case None
  then have "running s u = None" using sim unfolding sim_def by blast
  then show ?thesis using None
    by (intro refines_stay [OF sim len, where t = transaction_not_started]) (simp_all add: run_commit_def)
next
  case (Some a)
  have inv: "db_inv c as rs db" by (rule simD [OF sim])
  have rl: "length rs + 1 < 2 ^ 32" using room_length [OF sim rm] by simp
  obtain ops where ops: "running s u = Some ops" using sim_opsE [OF sim Some] .
  obtain e es where as: "as = e # es" using db_invD(6) [OF inv Some] by (cases as) auto
  have sm: "sim s c (e # es) rs db" using sim as by simp
  show ?thesis
  proof (cases "e = a")
    case True
    obtain r db' where d: "commit_tx u a db = Inr db'"
      "sim (s\<lparr>committed := tx_view (committed s) ops, running := (running s)(u := None)\<rparr>) (c(u := None)) es (rs @ [r]) db'"
      "log_tx_id r = tx_id (tx_of db a)" "log_type r = KV_REC_COMMIT" "\<forall>b. b \<noteq> a \<longrightarrow> tx_of db' b = tx_of db b"
      "transaction_id (db_txm db') = transaction_id (db_txm db)"
      using commit_tx_sim [of s c a es rs db u ops] sm True Some ops rl by blast
    have ls: "log_step u c db None ([] @ [r]) db'"
      using d(3-6) tx_ended_commit [of r] by (intro log_step_ended [OF inv Some tx_logged_refl]) simp_all
    obtain result' where r: "strcpy result transaction_committed = Inr result'" "length result' = RESULT_SIZE"
      "cstr result' = transaction_committed" using strcpy_reply [OF len, of transaction_committed] by auto
    show ?thesis
      by (rule refines_answer [OF _ r(2,3) d(2) ls [simplified]]) (simp_all add: Some ops run_commit_def d(1) r(1))
  next
    case False
    then have "commit_tx u a db = Inl Uninit" using commit_tx_younger [OF sm Some _ rl] by simp
    then show ?thesis unfolding refines_def using other_owner [OF inv Some False] Some as by (simp add: run_commit_def)
  qed
qed

lemma exec_abort:
  assumes sim: "sim s c as rs db" and rm: "room db" and len: "length result = RESULT_SIZE"
  shows "refines u C_Abort s c rs db (exec_command u junk C_Abort result (c u) db)"
proof (cases "c u")
  case None
  then have "running s u = None" using sim unfolding sim_def by blast
  then show ?thesis using None
    by (intro refines_stay [OF sim len, where t = transaction_not_started]) (simp_all add: run_abort_def)
next
  case (Some a)
  have inv: "db_inv c as rs db" by (rule simD [OF sim])
  have rl: "2 * length rs + 4 < 2 ^ 32" using room_length [OF sim rm] by simp
  obtain ops where ops: "running s u = Some ops" using sim_opsE [OF sim Some] .
  obtain e es where as: "as = e # es" using db_invD(6) [OF inv Some] by (cases as) auto
  have sm: "sim s c (e # es) rs db" using sim as by simp
  show ?thesis
  proof (cases "e = a")
    case True
    obtain qs db' where d: "abort_tx u a db = Inr db'"
      "sim (s\<lparr>running := (running s)(u := None)\<rparr>) (c(u := None)) es (rs @ qs) db'"
      "\<forall>q \<in> set qs. log_tx_id q = tx_id (tx_of db a)" "tx_ended (tx_id (tx_of db a)) qs" "\<forall>b. b \<noteq> a \<longrightarrow> tx_of db' b = tx_of db b"
      "transaction_id (db_txm db') = transaction_id (db_txm db)"
      using abort_tx_sim [of s c a es rs db u ops] sm True Some ops rl by blast
    have ls: "log_step u c db None ([] @ qs) db'"
      using d(3-6) by (intro log_step_ended [OF inv Some tx_logged_refl]) simp_all
    obtain result' where r: "strcpy result transaction_aborted = Inr result'" "length result' = RESULT_SIZE"
      "cstr result' = transaction_aborted" using strcpy_reply [OF len, of transaction_aborted] by auto
    show ?thesis
      by (rule refines_answer [OF _ r(2,3) d(2) ls [simplified]]) (simp_all add: Some ops run_abort_def d(1) r(1))
  next
    case False
    then have "abort_tx u a db = Inl Uninit" using abort_tx_younger [OF sm Some _ ops rl] by simp
    then show ?thesis unfolding refines_def using other_owner [OF inv Some False] Some as by (simp add: run_abort_def)
  qed
qed

theorem exec_command_refines:
  assumes "sim s c as rs db" "0 < u" "room db" "command_small cmd" "length result = RESULT_SIZE"
  shows "refines u cmd s c rs db (exec_command u junk cmd result (c u) db)"
proof (cases "command_key cmd")
  case None
  then consider "cmd = C_Empty" | "cmd = C_Begin" | "cmd = C_Commit" | "cmd = C_Abort" by (cases cmd) auto
  then show ?thesis
  proof cases
    case 1
    then show ?thesis using assms(5) by (intro refines_stay [OF assms(1,5), where t = "[]"]) simp_all
  next
    case 2
    then show ?thesis using exec_begin [OF assms(1-3,5)] by simp
  next
    case 3
    then show ?thesis using exec_commit [OF assms(1,3,5)] by simp
  next
    case 4
    then show ?thesis using exec_abort [OF assms(1,3,5)] by simp
  qed
next
  case (Some k)
  then show ?thesis using assms exec_data_in_tx exec_data_single by (cases "c u") metis+
qed

end
