(* ===== verification/Kv_Snapshot.thy ===== *)
theory Kv_Snapshot
  imports Kv_Command
begin

text \<open>
  The checkpoint of \<open>kv_recovery_snapshot.c\<close>: under the locks of the transaction manager, the
  log and the table, a CHECK record with the running transactions is logged and the process is
  forked; the child, which has its own copy of the table, writes it to a snapshot file named
  after the number of the record and puts that number into \<open>last_checked_lsn.kvdb\<close>.  Also the
  part of \<open>kv_recovery_redo\<close> that reads a snapshot file back.

  The parent waits for the child, and a checkpoint is one step here.  The code makes it one for
  the starts of transactions, the records of the log and the changes of the table, whose locks it
  holds.  It does not hold the lock under which a transaction is taken out of the list: one
  that ends between the two looks at the list (\<open>ongoing_stale\<close> in Tx_Manager) or while the list is
  gone through is not in the model.  The files are a record of
  their contents, the directory a map from names to contents.
\<close>

section \<open>Definitions\<close>

record kv_files =
  last_lsn_file :: "string option"
  snapshot_dir :: "string \<rightharpoonup> string"

text \<open>One line for one binding, put together in an array of 128 bytes.\<close>

definition kv_hashtable_foreach :: "key_data \<times> val_data \<Rightarrow> string res \<Rightarrow> string res" where
  "kv_hashtable_foreach kv param =
     bind_res param (\<lambda>snapshot_file.
     let line_buff = fst kv @ '' '' @ snd kv @ [LF] @ [NUL] in
     if length line_buff \<le> KV_RECOVERY_MAX_LINE_LEN
     then Inr (snapshot_file @ cstr line_buff) else Inl Out_Of_Bounds)"

definition snapshot_file_name :: "string \<Rightarrow> string" where
  "snapshot_file_name lsn_hex = ''snapshot_'' @ lsn_hex @ ''.kvdb''"

text \<open>
  \<open>last_checked_lsn.kvdb\<close> is created when it is missing and otherwise written over from its
  beginning.
\<close>

definition write_last_lsn :: "u32 \<Rightarrow> string option \<Rightarrow> string" where
  "write_last_lsn check_lsn old =
     (let last_lsn_hex = snprintf 10 (fmt_08X check_lsn @ [LF])
      in last_lsn_hex @ drop (length last_lsn_hex) (case old of None \<Rightarrow> [] | Some text \<Rightarrow> text))"

text \<open>What the child does; the file it opens with mode \<open>w+\<close> starts empty.\<close>

definition snapshot_child :: "u32 \<Rightarrow> kv_table \<Rightarrow> kv_files \<Rightarrow> kv_files res" where
  "snapshot_child check_lsn ht files =
     bind_res (kv_ht_foreach ht kv_hashtable_foreach (Inr [])) (\<lambda>snapshot_file.
     Inr (files\<lparr>snapshot_dir := (snapshot_dir files)(snapshot_file_name (fmt_08X check_lsn) \<mapsto> snapshot_file),
       last_lsn_file := Some (write_last_lsn check_lsn (last_lsn_file files))\<rparr>))"

text \<open>What the parent does before it forks.\<close>

definition snapshot_check :: "(nat \<Rightarrow> nat) \<Rightarrow> kv_db \<Rightarrow> (u32 \<times> kv_db) res" where
  "snapshot_check usable db =
     bind_res (kv_txm_ongoing_transaction_ids usable (db_txm db)) (\<lambda>tx_list.
     bind_res (kv_recovery_check_log tx_list (db_rec db)) (\<lambda>(check_lsn, st).
     Inr (check_lsn, db\<lparr>db_rec := st\<rparr>)))"

definition take_snapshot :: "(nat \<Rightarrow> nat) \<Rightarrow> kv_db \<Rightarrow> kv_files \<Rightarrow> (kv_db \<times> kv_files) res" where
  "take_snapshot usable db files =
     bind_res (snapshot_check usable db) (\<lambda>(check_lsn, db).
     bind_res (snapshot_child check_lsn (db_ht db) files) (\<lambda>files.
     Inr (db, files)))"

text \<open>
  Reading a line back: the last space before the newline ends the key.  \<open>s\<close> is the array from
  index \<open>i\<close> on; the loop ends at the end of the array.
\<close>

fun scan_snapshot_line :: "nat \<Rightarrow> nat \<Rightarrow> string \<Rightarrow> (nat \<times> nat) res" where
  "scan_snapshot_line i key_len [] =
     (if i < KV_RECOVERY_MAX_LINE_LEN then Inl Uninit else Inr (key_len, 0))"
| "scan_snapshot_line i key_len (ch # s) =
     (if ch = SP then scan_snapshot_line (i + 1) i s
      else if ch = LF then Inr (key_len, size_sub i (key_len + 1))
      else scan_snapshot_line (i + 1) key_len s)"

text \<open>The loop over the lines of a snapshot file; a key found twice ends the process.\<close>

function load_snapshot :: "string \<Rightarrow> string \<Rightarrow> kv_table \<Rightarrow> kv_table res" where
  "load_snapshot line_buf stream ht =
     (case fgets KV_RECOVERY_MAX_LINE_LEN stream of
        None \<Rightarrow> Inr ht
      | Some (chunk, rest) \<Rightarrow>
          bind_res (scan_snapshot_line 0 0 (fgets_into chunk line_buf)) (\<lambda>(key_len, val_len).
          bind_res (buf_read (fgets_into chunk line_buf) 0 key_len) (\<lambda>k_data.
          bind_res (buf_read (fgets_into chunk line_buf) (key_len + 1) val_len) (\<lambda>v_data.
          if fst (kv_ht_set ht k_data v_data) \<noteq> None then Inl Exit1
          else load_snapshot (fgets_into chunk line_buf) rest (snd (kv_ht_set ht k_data v_data))))))"
  by pat_completeness auto
termination
  by (relation "measure (\<lambda>(_, stream, _). length stream)") (auto simp: fgets_shorter)

declare load_snapshot.simps [simp del]

section \<open>Lemmas\<close>

subsection \<open>The text of a snapshot\<close>

definition snapshot_line :: "key_data \<times> val_data \<Rightarrow> string" where
  "snapshot_line kv = fst kv @ SP # snd kv @ [LF]"

text \<open>What a snapshot can hold: no zero, no newline, and a line of at most 127 bytes.\<close>

definition binding_ok :: "key_data \<times> val_data \<Rightarrow> bool" where
  "binding_ok kv \<longleftrightarrow> NUL \<notin> set (fst kv @ snd kv) \<and> LF \<notin> set (fst kv @ snd kv) \<and>
     length (fst kv) + length (snd kv) \<le> 125"

lemma kv_hashtable_foreach_ok:
  "binding_ok kv \<Longrightarrow> kv_hashtable_foreach kv (Inr t) = Inr (t @ snapshot_line kv)"
  using cstr_append_NUL [of "fst kv @ SP # snd kv @ [LF]" "[]"]
  by (simp add: kv_hashtable_foreach_def binding_ok_def snapshot_line_def)

lemma kv_hashtable_foreach_Inl: "fold kv_hashtable_foreach es (Inl e) = Inl e"
  by (induction es) (simp_all add: kv_hashtable_foreach_def)

lemma snapshot_text:
  "\<forall>kv \<in> set es. binding_ok kv \<Longrightarrow> fold kv_hashtable_foreach es (Inr t) = Inr (t @ concat (map snapshot_line es))"
  by (induction es arbitrary: t) (simp_all add: kv_hashtable_foreach_ok)

lemma snapshot_overflow:
  assumes "kv \<in> set es" "length (fst kv) + length (snd kv) > 125"
  shows "fold kv_hashtable_foreach es (Inr t) = Inl Out_Of_Bounds"
  using assms(1)
proof (induction es arbitrary: t)
  case (Cons e es)
  show ?case
  proof (cases "length (fst e) + length (snd e) > 125")
    case True
    then have "kv_hashtable_foreach e (Inr t) = Inl Out_Of_Bounds" by (simp add: kv_hashtable_foreach_def)
    then show ?thesis by (simp add: kv_hashtable_foreach_Inl)
  next
    case False
    then have "kv_hashtable_foreach e (Inr t) = Inr (t @ cstr (fst e @ '' '' @ snd e @ [LF] @ [NUL]))"
      by (simp add: kv_hashtable_foreach_def)
    then show ?thesis using Cons False assms(2) by auto
  qed
qed simp

text \<open>The file of the number begins with the digits of the last checkpoint.\<close>

lemma write_last_lsn_prefix: "\<exists>t. write_last_lsn n old = fmt_08X n @ t"
proof -
  have "snprintf 10 (fmt_08X n @ [LF]) = fmt_08X n @ [LF]" by (simp add: snprintf_def)
  then show ?thesis by (simp add: write_last_lsn_def)
qed

subsection \<open>Reading it back\<close>

lemma scan_word: "SP \<notin> set s \<Longrightarrow> LF \<notin> set s \<Longrightarrow>
  scan_snapshot_line i kl (s @ t) = scan_snapshot_line (i + length s) kl t"
  by (induction s arbitrary: i) auto

lemma scan_to_space: "LF \<notin> set s \<Longrightarrow>
  scan_snapshot_line i kl (s @ SP # t) = scan_snapshot_line (i + length s + 1) (i + length s) t"
  by (induction s arbitrary: i kl) auto

text \<open>The key may hold spaces; it ends at the last one.\<close>

lemma scan_line_eq:
  assumes "LF \<notin> set k" "SP \<notin> set v" "LF \<notin> set v" "length k + length v \<le> 125"
  shows "scan_snapshot_line 0 0 (k @ SP # v @ LF # t) = Inr (length k, length v)"
  using assms scan_to_space [of k 0 0 "v @ LF # t"] scan_word [of v "length k + 1" "length k" "LF # t"]
  by (simp add: size_sub_eq)

text \<open>
  A line is read back as it was written when the value has no space, and a new key is entered.
\<close>

lemma load_snapshot_step:
  assumes "binding_ok (k, v)" "SP \<notin> set v"
  shows "\<exists>buf. load_snapshot line_buf (snapshot_line (k, v) @ rest) ht =
     (if fst (kv_ht_set ht k v) \<noteq> None then Inl Exit1 else load_snapshot buf rest (snd (kv_ht_set ht k v)))"
proof -
  have clean: "LF \<notin> set k" "LF \<notin> set v" "length k + length v \<le> 125" using assms by (auto simp: binding_ok_def)
  have "fgets KV_RECOVERY_MAX_LINE_LEN (snapshot_line (k, v) @ rest) = Some (snapshot_line (k, v), rest)"
    using clean fgets_take_line [of "k @ SP # v" 127 rest] by (simp add: fgets_def snapshot_line_def)
  moreover have "fgets_into (snapshot_line (k, v)) line_buf = k @ SP # v @ LF # NUL # drop (length k + length v + 3) line_buf"
    by (simp add: fgets_into_def snapshot_line_def numeral_3_eq_3)
  ultimately show ?thesis
    using scan_line_eq [OF clean(1) assms(2) clean(2,3)]
    by (subst load_snapshot.simps) (auto simp: buf_read_def)
qed

lemma load_snapshot_eq:
  assumes "\<forall>(k, v) \<in> set es. binding_ok (k, v) \<and> SP \<notin> set k \<and> SP \<notin> set v"
    "distinct (map fst es)" "ht_inv ht" "\<forall>k \<in> fst ` set es. kv_ht_get ht k = None"
  shows "\<exists>ht'. load_snapshot line_buf (concat (map snapshot_line es)) ht = Inr ht' \<and> ht_inv ht' \<and>
     kv_ht_get ht' = kv_ht_get ht ++ map_of (rev es)"
  using assms
proof (induction es arbitrary: line_buf ht)
  case Nil
  then show ?case by (subst load_snapshot.simps) (simp add: fgets_def)
next
  case (Cons e es)
  obtain k v where e: "e = (k, v)" by (cases e)
  let ?ht = "snd (kv_ht_set ht k v)"
  have old: "fst (kv_ht_set ht k v) = None" using ht.set_old [OF Cons.prems(3)] Cons.prems(4) by (simp add: e)
  have get: "kv_ht_get ?ht = (kv_ht_get ht)(k \<mapsto> v)" by (rule ht.get_set [OF Cons.prems(3)])
  obtain buf where step: "load_snapshot line_buf (snapshot_line (k, v) @ concat (map snapshot_line es)) ht =
     load_snapshot buf (concat (map snapshot_line es)) ?ht"
    using load_snapshot_step [of k v line_buf "concat (map snapshot_line es)" ht] Cons.prems(1) old by (auto simp: e)
  have new: "\<forall>j \<in> fst ` set es. kv_ht_get ?ht j = None" using Cons.prems(2,4) by (auto simp: get e)
  obtain ht' where IH: "load_snapshot buf (concat (map snapshot_line es)) ?ht = Inr ht'" "ht_inv ht'"
    "kv_ht_get ht' = kv_ht_get ?ht ++ map_of (rev es)"
    using Cons.IH [OF _ _ ht.invar_set [OF Cons.prems(3)] new, of buf] Cons.prems(1,2)
    unfolding ht.apply_write_def by auto
  have "k \<notin> dom (map_of (rev es))" using Cons.prems(2) by (auto simp: e dom_map_of_conv_image_fst)
  then have "kv_ht_get ht' = kv_ht_get ht ++ map_of (rev (e # es))"
    unfolding IH(3) get by (auto simp: e map_add_def map_of_append fun_eq_iff split: option.splits)
  then show ?case using step IH(1,2) by (simp add: e)
qed

text \<open>A snapshot of a table, read back into an empty one, has the same contents.\<close>

definition table_ok :: "kv_table \<Rightarrow> bool" where
  "table_ok ht \<longleftrightarrow> (\<forall>k v. kv_ht_get ht k = Some v \<longrightarrow> binding_ok (k, v) \<and> SP \<notin> set k \<and> SP \<notin> set v)"

lemma ht_entries_get: "ht_inv ht \<Longrightarrow> (k, v) \<in> set (ht_entries ht) \<Longrightarrow> kv_ht_get ht k = Some v"
  by (simp add: kv_ht_get_eq ht_inv_def)

lemma snapshot_load:
  assumes inv: "ht_inv ht" and ok: "table_ok ht" and ht0: "ht_inv ht0" "kv_ht_get ht0 = Map.empty"
  shows "\<exists>text ht'. kv_ht_foreach ht kv_hashtable_foreach (Inr []) = Inr text \<and>
     load_snapshot line_buf text ht0 = Inr ht' \<and> ht_inv ht' \<and> kv_ht_get ht' = kv_ht_get ht"
proof -
  let ?es = "ht_entries ht"
  have es: "\<forall>(k, v) \<in> set ?es. binding_ok (k, v) \<and> SP \<notin> set k \<and> SP \<notin> set v"
    using ok ht_entries_get [OF inv] unfolding table_ok_def by blast
  then have "\<forall>kv \<in> set ?es. binding_ok kv" by auto
  then have wr: "kv_ht_foreach ht kv_hashtable_foreach (Inr []) = Inr (concat (map snapshot_line ?es))"
    using snapshot_text [of ?es "[]"] by (simp add: kv_ht_foreach_eq)
  have d: "distinct (map fst ?es)" using inv by (simp add: ht_inv_def)
  obtain ht' where "load_snapshot line_buf (concat (map snapshot_line ?es)) ht0 = Inr ht'" "ht_inv ht'"
    "kv_ht_get ht' = kv_ht_get ht0 ++ map_of (rev ?es)"
    using load_snapshot_eq [OF es d ht0(1)] ht0(2) by auto
  moreover have "map_of (rev ?es) = kv_ht_get ht"
  proof -
    have "map_of (rev ?es) = map_of ?es" using d by (intro map_of_mset_eq) simp_all
    also have "\<dots> = kv_ht_get ht" using kv_ht_get_eq [OF inv] by (simp add: fun_eq_iff)
    finally show ?thesis .
  qed
  ultimately show ?thesis using wr ht0(2) by auto
qed

section \<open>Properties\<close>

text \<open>
  C25. A snapshot file holds the table: written by the checkpoint and read back into an empty table
  by the next start, it gives the same contents, as long as keys and values have no spaces, no
  newlines, no zero bytes and fit a line of 127 bytes.
\<close>

theorem snapshot_roundtrip:
  assumes "ht_inv ht" "ht_inv ht0" "kv_ht_get ht0 = Map.empty"
    "\<forall>k v. kv_ht_get ht k = Some v \<longrightarrow> binding_ok (k, v) \<and> SP \<notin> set k \<and> SP \<notin> set v"
  shows "\<exists>content ht'. kv_ht_foreach ht kv_hashtable_foreach (Inr []) = Inr content \<and>
    load_snapshot line_buf content ht0 = Inr ht' \<and> kv_ht_get ht' = kv_ht_get ht"
  using snapshot_load [OF assms(1) _ assms(2,3)] assms(4) unfolding table_ok_def by blast

theorem snapshot_roundtrip_witness:
  "\<exists>ht ht0 ht' content. kv_ht_create 2 str_hash_func str_cmp_func = Inr ht0 \<and> ht = snd (kv_ht_set ht0 ''key'' ''value'') \<and>
    kv_ht_foreach ht kv_hashtable_foreach (Inr []) = Inr content \<and>
    load_snapshot [] content ht0 = Inr ht' \<and> kv_ht_get ht' = [''key'' \<mapsto> ''value'']"
proof -
  obtain ht0 :: kv_table where ht0: "kv_ht_create 2 str_hash_func str_cmp_func = Inr ht0" "ht_inv ht0" "kv_ht_get ht0 = Map.empty"
    using kv_ht_create_correct [of 2 str_cmp_func str_hash_func] by auto
  let ?ht = "snd (kv_ht_set ht0 ''key'' ''value'')"
  have g: "kv_ht_get ?ht = [''key'' \<mapsto> ''value'']" "ht_inv ?ht" using kv_ht_set_correct [OF ht0(2)] ht0(3) by simp_all
  have "\<forall>k v. kv_ht_get ?ht k = Some v \<longrightarrow> binding_ok (k, v) \<and> SP \<notin> set k \<and> SP \<notin> set v"
    unfolding g(1) by (auto simp: binding_ok_def split: if_splits)
  from snapshot_roundtrip [OF g(2) ht0(2,3) this, of "[]"] show ?thesis using ht0(1) g(1) by auto
qed

text \<open>
  C30. A value with a space does not survive a checkpoint: what follows its last space is taken as
  the value and the rest becomes part of the key.
\<close>

theorem snapshot_space_misread:
  assumes "ht_inv ht0" "kv_ht_get ht0 = Map.empty" "binding_ok (k, v @ SP # w)" "SP \<notin> set w"
  shows "\<exists>content ht'. kv_hashtable_foreach (k, v @ SP # w) (Inr []) = Inr content \<and>
    load_snapshot line_buf content ht0 = Inr ht' \<and> kv_ht_get ht' = [k @ SP # v \<mapsto> w]"
proof -
  let ?line = "snapshot_line (k, v @ SP # w)"
  have same: "?line = snapshot_line (k @ SP # v, w)" by (simp add: snapshot_line_def)
  have b: "binding_ok (k @ SP # v, w)" "NUL \<notin> set (k @ SP # v @ SP # w)" using assms(3) by (auto simp: binding_ok_def)
  have n: "kv_ht_get ht0 (k @ SP # v) = None" using assms(2) by simp
  have old: "fst (kv_ht_set ht0 (k @ SP # v) w) = None" using ht.set_old [OF assms(1)] n by simp
  have nil: "load_snapshot buf [] ht = Inr ht" for buf ht by (subst load_snapshot.simps) (simp add: fgets_def)
  obtain buf where "load_snapshot line_buf (?line @ []) ht0 = load_snapshot buf [] (snd (kv_ht_set ht0 (k @ SP # v) w))"
    unfolding same using load_snapshot_step [OF b(1) assms(4), of line_buf "[]" ht0] old by auto
  moreover have "kv_ht_get (snd (kv_ht_set ht0 (k @ SP # v) w)) = [k @ SP # v \<mapsto> w]"
    using ht.get_set [OF assms(1)] assms(2) by simp
  ultimately show ?thesis using kv_hashtable_foreach_ok [OF assms(3), of "[]"] nil by simp
qed

theorem snapshot_space_misread_witness:
  "\<exists>ht0 ht' content. kv_ht_create 2 str_hash_func str_cmp_func = Inr ht0 \<and>
    kv_hashtable_foreach (''k'', ''one two'') (Inr []) = Inr content \<and>
    load_snapshot [] content ht0 = Inr ht' \<and> kv_ht_get ht' = [''k one'' \<mapsto> ''two'']"
proof -
  obtain ht0 :: kv_table where ht0: "kv_ht_create 2 str_hash_func str_cmp_func = Inr ht0" "ht_inv ht0" "kv_ht_get ht0 = Map.empty"
    using kv_ht_create_correct [of 2 str_cmp_func str_hash_func] by auto
  have "binding_ok (''k'', ''one'' @ SP # ''two'')" "SP \<notin> set ''two''" by (simp_all add: binding_ok_def)
  from snapshot_space_misread [OF ht0(2,3) this, of "[]"] show ?thesis using ht0(1) by auto
qed

end
