(* ===== verification/Kv_Recovery.thy ===== *)
theory Kv_Recovery
  imports Kv_Snapshot
begin

text \<open>
  What a server does before it takes clients: \<open>kv_recovery_recover\<close> finds the last record
  number in the log and rolls back, in the log, the transactions the last checkpoint lists and
  no later record ends; \<open>kv_recovery_redo\<close> then loads the snapshot of that checkpoint and
  replays the log behind it into the table.

  The lemmas show that redo computes \<open>replay\<close>, that the loops of recover return, and that a
  transaction left open is undone in the log.
\<close>

section \<open>Definitions\<close>

subsection \<open>recover\<close>

text \<open>
  The number in \<open>last_checked_lsn.kvdb\<close>; -1, as an unsigned number, when there is none.
\<close>

definition last_checked :: "string option \<Rightarrow> u32 res" where
  "last_checked content =
     (case content of
        None \<Rightarrow> Inr (-1)
      | Some text \<Rightarrow> if length text < 8 then Inr (-1) else hex_to_uint32 (take 8 text))"

text \<open>
  The search for the beginning of the last line: the character before \<open>pos\<close> is read until it
  is a newline.
\<close>

fun last_line_loop :: "nat \<Rightarrow> string \<Rightarrow> nat" where
  "last_line_loop 0 content = 0"
| "last_line_loop (Suc pos) content =
     (if content ! pos = LF then Suc pos else last_line_loop pos content)"

definition read_last_lsn :: "string \<Rightarrow> u32 res" where
  "read_last_lsn content =
     (let pos = last_line_loop (length content - 1) content in
      if pos = 0 then Inr 0
      else
        (case fgets 9 (drop pos content) of
           None \<Rightarrow> Inl Exit1
         | Some (last_lsn_hex, _) \<Rightarrow> hex_to_uint32 last_lsn_hex))"

text \<open>What the search through the records of one transaction has found.\<close>

record tx_analysis =
  last_tx_lsn :: u32
  is_abort_started :: bool
  is_abort_end :: bool
  is_committed :: bool

text \<open>
  The search from record \<open>temp_lsn\<close>, exclusive, to the end of the log or of the transaction.
  Numbers go up, so the fuel bounds the records of the log.
\<close>

fun analyze_tx :: "nat \<Rightarrow> u32 \<Rightarrow> u32 \<Rightarrow> tx_analysis \<Rightarrow> string \<Rightarrow> tx_analysis res" where
  "analyze_tx 0 temp_lsn txid an content = Inl Out_Of_Fuel"
| "analyze_tx (Suc fuel) temp_lsn txid an content =
     bind_res (kv_recovery_get_log (temp_lsn + 1) content) (\<lambda>log_line.
     case log_line of
       None \<Rightarrow> Inr an
     | Some l \<Rightarrow>
         if log_tx_id l = txid then
           let an = an\<lparr>last_tx_lsn := temp_lsn + 1\<rparr>;
               an = (if \<not> is_abort_started an \<and> log_type l = KV_REC_ABORT
                     then an\<lparr>is_abort_started := True, is_abort_end := False\<rparr> else an)
           in if log_type l = KV_REC_COMMIT then Inr (an\<lparr>is_committed := True\<rparr>)
              else if is_abort_started an \<and> log_type l = KV_REC_END then Inr (an\<lparr>is_abort_end := True\<rparr>)
              else analyze_tx fuel (temp_lsn + 1) txid an content
         else analyze_tx fuel (temp_lsn + 1) txid an content)"

text \<open>
  Where the undo of an open transaction begins: behind a new ABORT record, or where an abort
  broken off had come to.  A record that is missing is read through a null pointer.
\<close>

definition undo_start :: "u32 \<Rightarrow> tx_analysis \<Rightarrow> kv_rec \<Rightarrow> (u32 \<times> kv_rec) res" where
  "undo_start txid an st =
     (if \<not> is_abort_started an then Inr (kv_recovery_abort_log (last_tx_lsn an) txid st)
      else
        bind_res (kv_recovery_get_log (last_tx_lsn an) (recovery_file st)) (\<lambda>log_line.
        case log_line of
          None \<Rightarrow> Inl Null_Deref
        | Some l \<Rightarrow>
            Inr (if log_type l = KV_REC_ABORT then log_prev_lsn l else log_undo_next_lsn l, st)))"

fun undo_tx :: "nat \<Rightarrow> u32 \<Rightarrow> u32 \<Rightarrow> u32 \<Rightarrow> kv_rec \<Rightarrow> kv_rec res" where
  "undo_tx 0 temp_lsn txid last_lsn st = Inl Out_Of_Fuel"
| "undo_tx (Suc fuel) temp_lsn txid last_lsn st =
     bind_res (kv_recovery_get_log temp_lsn (recovery_file st)) (\<lambda>log_line.
     case log_line of
       None \<Rightarrow> Inl Null_Deref
     | Some l \<Rightarrow>
         if log_type l = KV_REC_BEGIN then Inr (snd (kv_recovery_end_log temp_lsn txid st))
         else if log_type l = KV_REC_UPDATE then
           bind_res (kv_recovery_clr_log last_lsn txid (log_prev_lsn l) (log_key l) (log_new_val l) (log_old_val l) st)
             (\<lambda>(last_lsn, st). undo_tx fuel (log_prev_lsn l) txid last_lsn st)
         else undo_tx fuel (log_prev_lsn l) txid last_lsn st)"

text \<open>One transaction of the checkpoint.  The fuel of both loops is the length of the file.\<close>

definition recover_tx :: "u32 \<Rightarrow> kv_recovery_tx \<Rightarrow> kv_rec \<Rightarrow> kv_rec res" where
  "recover_tx last_checked_lsn tx st =
     (let temp_lsn = (if last_checked_lsn > rtx_last_lsn tx then last_checked_lsn else rtx_last_lsn tx) in
      bind_res (analyze_tx (length (recovery_file st) + 1) temp_lsn (rtx_id tx)
          \<lparr>last_tx_lsn = rtx_last_lsn tx, is_abort_started = False, is_abort_end = False, is_committed = False\<rparr>
          (recovery_file st)) (\<lambda>an.
      if is_committed an \<or> is_abort_end an then Inr st
      else
        bind_res (undo_start (rtx_id tx) an st) (\<lambda>(temp_lsn, st).
        undo_tx (length (recovery_file st) + 1) temp_lsn (rtx_id tx) (last_tx_lsn an) st)))"

fun recover_list :: "u32 \<Rightarrow> kv_recovery_tx list \<Rightarrow> kv_rec \<Rightarrow> kv_rec res" where
  "recover_list last_checked_lsn [] st = Inr st"
| "recover_list last_checked_lsn (tx # txs) st =
     bind_res (recover_tx last_checked_lsn tx st) (recover_list last_checked_lsn txs)"

definition kv_recovery_recover :: "kv_files \<Rightarrow> string \<Rightarrow> kv_rec res" where
  "kv_recovery_recover files log_file =
     bind_res (last_checked (last_lsn_file files)) (\<lambda>last_checked_lsn.
     bind_res (read_last_lsn log_file) (\<lambda>lsn.
     let st = \<lparr>recovery_file = log_file, rec_lsn = lsn\<rparr> in
     if last_checked_lsn = -1 then Inr st
     else
       bind_res (kv_recovery_get_log last_checked_lsn log_file) (\<lambda>check_log_line.
       case check_log_line of
         None \<Rightarrow> Inr st
       | Some l \<Rightarrow> (case log_tx_list l of None \<Rightarrow> Inr st | Some txs \<Rightarrow> recover_list last_checked_lsn txs st))))"

subsection \<open>redo\<close>

text \<open>An UPDATE or CLR record with an empty new value deletes the key.\<close>

definition redo_line :: "kv_recovery_log_line \<Rightarrow> kv_table \<Rightarrow> kv_table" where
  "redo_line l ht =
     (if log_type l = KV_REC_UPDATE \<or> log_type l = KV_REC_CLR then
        (if length (log_new_val l) = 0 then snd (kv_ht_del ht (log_key l))
         else snd (kv_ht_set ht (log_key l) (log_new_val l)))
      else ht)"

fun redo_loop :: "nat \<Rightarrow> u32 \<Rightarrow> string \<Rightarrow> kv_table \<Rightarrow> kv_table res" where
  "redo_loop 0 lsn content ht = Inl Out_Of_Fuel"
| "redo_loop (Suc fuel) lsn content ht =
     bind_res (kv_recovery_get_log (lsn + 1) content) (\<lambda>log_line.
     case log_line of
       None \<Rightarrow> Inr ht
     | Some l \<Rightarrow> redo_loop fuel (lsn + 1) content (redo_line l ht))"

text \<open>
  The number of the last checkpoint, 0 without one, and its digits, which name the snapshot
  file.  \<open>line_buf\<close> starts with nothing written.
\<close>

definition redo_checked :: "string option \<Rightarrow> (u32 \<times> string) res" where
  "redo_checked content =
     (case content of
        None \<Rightarrow> Inr (0, ''00000000'')
      | Some text \<Rightarrow>
          (case fgets 9 text of
             None \<Rightarrow> Inl Exit1
           | Some (last_checked_lsn_hex, _) \<Rightarrow>
               bind_res (hex_to_uint32 last_checked_lsn_hex) (\<lambda>last_checked_lsn.
               Inr (last_checked_lsn, take 8 last_checked_lsn_hex))))"

definition kv_recovery_redo :: "kv_files \<Rightarrow> string \<Rightarrow> kv_table \<Rightarrow> kv_table res" where
  "kv_recovery_redo files log_file ht =
     bind_res (redo_checked (last_lsn_file files)) (\<lambda>(last_checked_lsn, last_checked_lsn_hex).
     bind_res
       (if last_checked_lsn > 0 then
          (case snapshot_dir files (snapshot_file_name last_checked_lsn_hex) of
             None \<Rightarrow> Inl Exit1
           | Some snapshot_file \<Rightarrow> load_snapshot [] snapshot_file ht)
        else Inr ht) (\<lambda>ht.
     redo_loop (length log_file + 1) last_checked_lsn log_file ht))"

section \<open>Reading the files\<close>

lemma last_line_loop_skip:
  "LF \<notin> set b \<Longrightarrow> last_line_loop (length a + length b) (a @ b @ c) = last_line_loop (length a) (a @ b @ c)"
proof (induction b arbitrary: c rule: rev_induct)
  case (snoc x b)
  have "(a @ (b @ [x]) @ c) ! (length a + length b) = x" by (simp add: nth_append)
  then show ?case using snoc.prems snoc.IH [of "x # c"] by auto
qed simp

lemma last_line_loop_found: "last_line_loop (length a + 1) (a @ LF # b) = length a + 1"
  by simp

lemma last_line_found:
  assumes "LF \<notin> set b"
  shows "last_line_loop (length ((a @ [LF]) @ b @ [LF]) - 1) ((a @ [LF]) @ b @ [LF]) = length (a @ [LF])"
proof -
  have "length ((a @ [LF]) @ b @ [LF]) - 1 = length (a @ [LF]) + length b" by simp
  then show ?thesis
    using last_line_loop_skip [OF assms, of "a @ [LF]" "[LF]"] last_line_loop_found [of a "b @ [LF]"]
    by (simp only:) simp
qed

lemma read_last_lsn_short: "read_last_lsn [] = Inr 0"
  by (simp add: read_last_lsn_def)

text \<open>In a log of one line the search runs to the beginning of the file and its number is not read.\<close>

lemma read_last_lsn_one:
  assumes "line_ok r"
  shows "read_last_lsn (line_text r) = Inr 0"
proof -
  have "last_line_loop (length (body_text r)) (body_text r @ [LF]) = 0"
    using last_line_loop_skip [of "body_text r" "[]" "[LF]"] body_text_clean [OF assms] by simp
  then show ?thesis by (simp add: read_last_lsn_def line_text_def)
qed

lemma fgets_take_prefix: "LF \<notin> set a \<Longrightarrow> fgets_take (length a) (a @ t) = (a, t)"
  by (induction a) auto

lemma fgets_hex: "fgets 9 (fmt_08X n @ t) = Some (fmt_08X n, t)"
proof -
  have "fmt_08X n @ t \<noteq> []" using length_fmt_08X [of n] by (metis append_is_Nil_conv length_0_conv zero_neq_numeral)
  then show ?thesis using fgets_take_prefix [of "fmt_08X n" t] by (simp add: fgets_def)
qed

lemma read_last_lsn_eq:
  assumes "line_ok r" "rs \<noteq> []"
  shows "read_last_lsn (log_text rs @ line_text r) = Inr (log_lsn r)"
proof -
  let ?a = "concat (map line_text (butlast rs)) @ body_text (last rs)"
  have rs: "log_text rs = ?a @ [LF]"
    using append_butlast_last_id [OF assms(2)] log_text_simps(3) [of "butlast rs" "[last rs]"]
    by (simp add: line_text_def log_text_def)
  have fl: "log_text rs @ line_text r = (?a @ [LF]) @ body_text r @ [LF]" by (simp add: rs line_text_def)
  have pos: "last_line_loop (length (log_text rs @ line_text r) - 1) (log_text rs @ line_text r) = length (?a @ [LF])"
    unfolding fl by (rule last_line_found) (rule body_text_clean [OF assms(1)])
  have "drop (length (?a @ [LF])) (log_text rs @ line_text r) = line_text r" unfolding rs by simp
  moreover have "fgets 9 (line_text r) =
     Some (fmt_08X (log_lsn r), drop 8 (line_text r))"
    using fgets_hex [of "log_lsn r"] by (simp add: line_text_def body_text_def)
  ultimately show ?thesis using pos by (simp add: read_last_lsn_def)
qed

lemma read_last_lsn_log:
  assumes "log_rep st rs" "2 \<le> length rs"
  shows "read_last_lsn (log_text rs) = Inr (rec_lsn st)"
proof -
  have ne: "rs \<noteq> []" using assms(2) by auto
  have "length (butlast rs) \<noteq> 0" using assms(2) by simp
  then have ne2: "butlast rs \<noteq> []" by blast
  have rs: "butlast rs @ [last rs] = rs" using ne by simp
  have i: "length rs - 1 < length rs" "length rs - 1 + 1 = length rs" using ne by (cases rs; simp)+
  then have "log_lsn (rs ! (length rs - 1)) = of_nat (length rs)" using assms(1) unfolding log_rep_def by metis
  then have "line_ok (last rs)" "log_lsn (last rs) = rec_lsn st"
    using assms(1) ne by (simp_all add: log_rep_def last_conv_nth)
  then show ?thesis using read_last_lsn_eq [OF _ ne2, of "last rs"] log_text_simps(3) [of "butlast rs" "[last rs]"] rs
    by simp
qed

lemma last_checked_hex [simp]: "last_checked (Some (fmt_08X n @ t)) = Inr n"
  by (simp add: last_checked_def)

lemma redo_checked_hex [simp]: "redo_checked (Some (fmt_08X n @ t)) = Inr (n, fmt_08X n)"
  by (simp add: redo_checked_def fgets_hex)

section \<open>Redo replays the log\<close>

lemma redo_line_correct:
  assumes "ht_inv ht"
  shows "ht_inv (redo_line l ht) \<and> kv_ht_get (redo_line l ht) = replay_rec l (kv_ht_get ht)"
  using assms ht.invar_set [OF assms] ht.invar_del [OF assms] ht.get_set [OF assms] ht.get_del [OF assms]
  by (simp add: redo_line_def replay_rec_def val_of_def)

lemma redo_loop_correct:
  assumes "log_rep st rs" "length rs + 1 < 2 ^ 32" "n \<le> length rs" "length rs - n < fuel" "ht_inv ht"
  shows "\<exists>ht'. redo_loop fuel (of_nat n) (recovery_file st) ht = Inr ht' \<and> ht_inv ht' \<and>
     kv_ht_get ht' = replay (drop n rs) (kv_ht_get ht)"
  using assms(3-5)
proof (induction fuel arbitrary: n ht)
  case (Suc fuel)
  show ?case
  proof (cases "n = length rs")
    case True
    then show ?thesis using log.get_out [OF assms(1), of "n + 1"] assms(2) Suc.prems by (simp add: add.commute)
  next
    case False
    then have n: "n < length rs" using Suc.prems by simp
    note l = redo_line_correct [OF Suc.prems(3), of "rs ! n"]
    have fuel: "length rs - (n + 1) < fuel" using Suc.prems(2) n by simp
    obtain ht' where "redo_loop fuel (of_nat (n + 1)) (recovery_file st) (redo_line (rs ! n) ht) = Inr ht'" "ht_inv ht'"
      "kv_ht_get ht' = replay (drop (n + 1) rs) (kv_ht_get (redo_line (rs ! n) ht))"
      using Suc.IH [OF _ fuel, of "redo_line (rs ! n) ht"] n l by auto
    then show ?thesis using log.get_in [OF assms(1) n] l Cons_nth_drop_Suc [OF n]
      by (simp add: add.commute) (metis replay_simps(2))
  qed
qed simp

lemma redo_whole_log:
  assumes "log_rep st rs" "length rs + 1 < 2 ^ 32" "ht_inv ht" "last_lsn_file files = None"
  shows "\<exists>ht'. kv_recovery_redo files (recovery_file st) ht = Inr ht' \<and> ht_inv ht' \<and>
     kv_ht_get ht' = replay rs (kv_ht_get ht)"
proof -
  have "length rs < length (recovery_file st) + 1" using assms(1) length_log_text [of rs] by (simp add: log_rep_def)
  then show ?thesis
    using redo_loop_correct [OF assms(1,2), of 0 "length (recovery_file st) + 1" ht] assms(3,4)
    by (simp add: kv_recovery_redo_def redo_checked_def)
qed

text \<open>With a checkpoint: the snapshot, then the records behind the checkpoint.\<close>

lemma redo_from_snapshot:
  assumes rep: "log_rep st rs" "length rs + 1 < 2 ^ 32" and n: "0 < n" "n \<le> length rs"
    and ht0: "ht_inv ht0" "kv_ht_get ht0 = Map.empty"
    and checked: "last_lsn_file files = Some (fmt_08X (of_nat n) @ t)"
    and snap: "snapshot_dir files (snapshot_file_name (fmt_08X (of_nat n))) = Some content"
      "kv_ht_foreach ht kv_hashtable_foreach (Inr []) = Inr content" "ht_inv ht" "table_ok ht"
  shows "\<exists>ht'. kv_recovery_redo files (recovery_file st) ht0 = Inr ht' \<and> ht_inv ht' \<and>
     kv_ht_get ht' = replay (drop n rs) (kv_ht_get ht)"
proof -
  obtain ht1 where ht1: "load_snapshot [] content ht0 = Inr ht1" "ht_inv ht1" "kv_ht_get ht1 = kv_ht_get ht"
    using snapshot_load [OF snap(3,4) ht0, of "[]"] snap(2) by auto
  have "(of_nat n :: u32) \<noteq> 0" using of_nat_u32_inj [of n 0] n rep(2) by auto
  then have pos: "(0 :: u32) < of_nat n" by (simp add: word_gt_0)
  have "length rs - n < length (recovery_file st) + 1" using rep(1) length_log_text [of rs] by (simp add: log_rep_def)
  then show ?thesis
    using redo_loop_correct [OF rep n(2) _ ht1(2), of "length (recovery_file st) + 1"] ht1 pos snap(1) checked
    by (simp add: kv_recovery_redo_def)
qed

section \<open>The search through a transaction\<close>

text \<open>The search on the list of records.\<close>

fun analyze_list :: "u32 \<Rightarrow> kv_recovery_log_line list \<Rightarrow> tx_analysis \<Rightarrow> tx_analysis" where
  "analyze_list t [] an = an"
| "analyze_list t (l # ls) an =
     (if log_tx_id l = t then
        let an = an\<lparr>last_tx_lsn := log_lsn l\<rparr>;
            an = (if \<not> is_abort_started an \<and> log_type l = KV_REC_ABORT
                  then an\<lparr>is_abort_started := True, is_abort_end := False\<rparr> else an)
        in if log_type l = KV_REC_COMMIT then an\<lparr>is_committed := True\<rparr>
           else if is_abort_started an \<and> log_type l = KV_REC_END then an\<lparr>is_abort_end := True\<rparr>
           else analyze_list t ls an
      else analyze_list t ls an)"

lemma analyze_tx_eq:
  assumes "log_rep st rs" "length rs + 1 < 2 ^ 32" "n \<le> length rs" "length rs - n < fuel"
  shows "analyze_tx fuel (of_nat n) t an (recovery_file st) = Inr (analyze_list t (drop n rs) an)"
  using assms(3,4)
proof (induction fuel arbitrary: n an)
  case (Suc fuel)
  show ?case
  proof (cases "n = length rs")
    case True
    then show ?thesis using log.get_out [OF assms(1), of "n + 1"] assms(2) Suc.prems by (simp add: add.commute)
  next
    case False
    then have n: "n < length rs" using Suc.prems by simp
    have fuel: "length rs - (n + 1) < fuel" "n + 1 \<le> length rs" using Suc.prems(2) n by simp_all
    have l: "log_lsn (rs ! n) = of_nat n + 1" using assms(1) n by (simp add: log_rep_def add.commute)
    show ?thesis
      using log.get_in [OF assms(1) n] Suc.IH [OF fuel(2,1)] l Cons_nth_drop_Suc [OF n, symmetric]
      by (simp add: add.commute Let_def)
  qed
qed simp

lemma analyze_none: "\<forall>l \<in> set ls. log_tx_id l \<noteq> t \<Longrightarrow> analyze_list t ls an = an"
  by (induction ls) auto

lemma analyze_open:
  "tx_open t ls \<Longrightarrow> \<not> is_abort_started an \<Longrightarrow>
   analyze_list t ls an = an\<lparr>last_tx_lsn := last_of t ls (last_tx_lsn an)\<rparr>"
  by (induction ls arbitrary: an) (auto simp: tx_open_def last_of_def Let_def)

lemma analyze_abort_started:
  "\<exists>e \<in> set ls. log_tx_id e = t \<and> log_type e = KV_REC_END \<Longrightarrow> is_abort_started an \<Longrightarrow>
   is_committed (analyze_list t ls an) \<or> is_abort_end (analyze_list t ls an)"
proof (induction ls arbitrary: an)
  case (Cons a ls)
  let ?an = "an\<lparr>last_tx_lsn := log_lsn a\<rparr>"
  consider "log_tx_id a = t" "log_type a = KV_REC_END \<or> log_type a = KV_REC_COMMIT"
    | "\<not> (log_tx_id a = t \<and> (log_type a = KV_REC_END \<or> log_type a = KV_REC_COMMIT))" by blast
  then show ?case
  proof cases
    case 2
    then have e: "\<exists>e \<in> set ls. log_tx_id e = t \<and> log_type e = KV_REC_END" using Cons.prems(1) by auto
    show ?thesis using 2 Cons.IH [OF e, of an] Cons.IH [OF e, of ?an] Cons.prems(2) by (simp add: Let_def)
  qed (use Cons.prems(2) in \<open>auto simp: Let_def\<close>)
qed simp

lemma analyze_committed:
  "\<exists>e \<in> set ls. log_tx_id e = t \<and> log_type e = KV_REC_COMMIT \<Longrightarrow>
   is_committed (analyze_list t ls an) \<or> is_abort_end (analyze_list t ls an)"
  by (induction ls arbitrary: an) (auto simp: Let_def)

lemma analyze_aborted:
  "log_tx_id l = t \<Longrightarrow> log_type l = KV_REC_ABORT \<Longrightarrow> \<exists>e \<in> set bs. log_tx_id e = t \<and> log_type e = KV_REC_END \<Longrightarrow>
   is_committed (analyze_list t (as @ l # bs) an) \<or> is_abort_end (analyze_list t (as @ l # bs) an)"
proof (induction as arbitrary: an)
  case Nil
  then show ?case using analyze_abort_started [of bs t] by (simp add: Let_def)
next
  case (Cons a as)
  then show ?case by (auto simp: Let_def)
qed

lemma analyze_ended:
  "tx_ended t ls \<Longrightarrow> is_committed (analyze_list t ls an) \<or> is_abort_end (analyze_list t ls an)"
  unfolding tx_ended_def by (elim disjE exE conjE) (simp_all add: analyze_committed analyze_aborted)

section \<open>Undoing a transaction in the log\<close>

lemma undo_tx_correct:
  assumes "chain rs n us" "log_rep st (rs @ qs)" "n < fuel" "length rs + length qs + length us + 1 < 2 ^ 32"
  shows "\<exists>st' cs p. undo_tx fuel (of_nat n) t lst st = Inr st' \<and> clr_records t (rev us) cs \<and>
     log_rep st' (rs @ qs @ cs @ [short_rec KV_REC_END (rec_lsn st') p t])"
  using assms
proof (induction arbitrary: fuel lst st qs rule: chain.induct)
  case (chain_begin n)
  then obtain f where f: "fuel = Suc f" by (cases fuel) auto
  have get: "kv_recovery_get_log (of_nat n) (recovery_file st) = Inr (Some (rs ! (n - 1)))"
    using log.get_in [OF chain_begin.prems(1), of "n - 1"] chain_begin.hyps nth_append_first [of n rs qs] by simp
  let ?e = "short_rec KV_REC_END (rec_lsn st + 1) (of_nat n) t"
  have "log_rep (append_rec ?e st) ((rs @ qs) @ [?e])"
    using chain_begin.prems by (intro log_rep_append) (simp_all add: short_line_eq(2), simp add: short_rec_def)
  then show ?case using get chain_begin.hyps f
    by (intro exI [of _ "append_rec ?e st"] exI [of _ "[]"] exI [of _ "of_nat n"])
      (simp add: simple_logs clr_records_def append_rec_def, simp add: short_rec_def)
next
  case (chain_skip n m us)
  then obtain f where f: "fuel = Suc f" by (cases fuel) auto
  have "kv_recovery_get_log (of_nat n) (recovery_file st) = Inr (Some (rs ! (n - 1)))"
    using log.get_in [OF chain_skip.prems(1), of "n - 1"] chain_skip.hyps nth_append_first [of n rs qs] by simp
  then show ?case using chain_skip f by simp
next
  case (chain_update n m us)
  then obtain f where f: "fuel = Suc f" by (cases fuel) auto
  let ?r = "rs ! (n - 1)"
  have get: "kv_recovery_get_log (of_nat n) (recovery_file st) = Inr (Some ?r)"
    using log.get_in [OF chain_update.prems(1), of "n - 1"] chain_update.hyps nth_append_first [of n rs qs] by simp
  have "?r \<in> set (rs @ qs)" using chain_update.hyps by simp
  note small = log_rep_small [OF chain_update.prems(1) this chain_update.hyps(3)]
  let ?c = "clr_rec (rec_lsn st + 1) lst t (log_prev_lsn ?r) (log_key ?r) (log_new_val ?r) (log_old_val ?r)"
  have ok: "line_ok ?c" using small by (simp add: line_ok_def clr_rec_def)
  have step: "undo_tx fuel (of_nat n) t lst st = undo_tx f (of_nat m) t (rec_lsn st + 1) (append_rec ?c st)"
    using get chain_update.hyps small by (simp add: f data_change_log_clr)
  have rep: "log_rep (append_rec ?c st) (rs @ (qs @ [?c]))"
    using log_rep_append [OF chain_update.prems(1) ok] chain_update.prems(3) by (simp add: clr_rec_def)
  obtain st' cs p where IH: "undo_tx f (of_nat m) t (rec_lsn st + 1) (append_rec ?c st) = Inr st'"
     "clr_records t (rev us) cs" "log_rep st' (rs @ (qs @ [?c]) @ cs @ [short_rec KV_REC_END (rec_lsn st') p t])"
    using chain_update.IH [OF rep, of f "rec_lsn st + 1"] chain_update.prems chain_update.hyps f by fastforce
  have "clr_records t (rev (us @ [rec_upd ?r])) (?c # cs)"
    using IH(2) by (simp add: clr_records_Cons clr_rec_def rec_upd_def)
  then show ?case using step IH(1,3) by (intro exI [of _ st'] exI [of _ "?c # cs"] exI [of _ p]) simp
qed

text \<open>
  What a transaction of the checkpoint must look like, and the updates that are undone: none
  when it has ended since, else those on the chain from its last record.
\<close>

definition recoverable :: "kv_recovery_log_line list \<Rightarrow> nat \<Rightarrow> kv_recovery_tx \<Rightarrow> upd list \<Rightarrow> bool" where
  "recoverable rs n tx us \<longleftrightarrow>
     (let ls = drop (max n (unat (rtx_last_lsn tx))) rs in
      unat (rtx_last_lsn tx) \<le> length rs \<and>
      (tx_ended (rtx_id tx) ls \<and> us = [] \<or>
       tx_open (rtx_id tx) ls \<and> chain rs (unat (last_of (rtx_id tx) ls (rtx_last_lsn tx))) us))"

lemma recoverable_append:
  assumes "recoverable rs n tx us" "n \<le> length rs" "\<forall>q \<in> set qs. log_tx_id q \<noteq> rtx_id tx"
  shows "recoverable (rs @ qs) n tx us"
proof -
  have "drop (max n (unat (rtx_last_lsn tx))) (rs @ qs) = drop (max n (unat (rtx_last_lsn tx))) rs @ qs"
    using assms(1,2) by (simp add: recoverable_def Let_def)
  then show ?thesis using assms(1) other_records [OF assms(3)] chain_append
    by (fastforce simp: recoverable_def Let_def)
qed

text \<open>
  The effect: the log grows by records of the transaction, and replaying it undoes the updates.
\<close>

lemma recover_tx_correct:
  assumes rep: "log_rep st rs" and n: "n \<le> length rs" and r: "recoverable rs n tx us"
    and eff: "\<forall>u \<in> set us. upd_old u \<noteq> [] \<or> upd_new u \<noteq> []"
    and room: "length rs + length us + 3 < 2 ^ 32"
  shows "\<exists>st' qs. recover_tx (of_nat n) tx st = Inr st' \<and> log_rep st' (rs @ qs) \<and>
     (\<forall>q \<in> set qs. log_tx_id q = rtx_id tx) \<and> length qs \<le> length us + 2 \<and>
     (\<forall>m. replay qs m = fold undo_upd (rev us) m)"
proof -
  let ?l = "rtx_last_lsn tx"
  let ?ls = "drop (max n (unat ?l)) rs"
  let ?an = "\<lparr>last_tx_lsn = ?l, is_abort_started = False, is_abort_end = False, is_committed = False\<rparr>"
  have len: "length rs < 2 ^ 32" "unat ?l \<le> length rs" using rep r by (auto simp: log_rep_def recoverable_def Let_def)
  have nn: "unat (of_nat n :: u32) = n" using n len(1) by (simp add: unat_of_nat take_bit_nat_eq_self)
  have temp: "(if of_nat n > ?l then of_nat n else ?l) = of_nat (max n (unat ?l))"
    using nn by (auto simp: word_less_nat_alt max_def)
  have "length rs - max n (unat ?l) < length (recovery_file st) + 1"
    using rep length_log_text [of rs] by (simp add: log_rep_def)
  moreover have "length rs + 1 < 2 ^ 32" "max n (unat ?l) \<le> length rs" using room n len by simp_all
  ultimately have an: "analyze_tx (length (recovery_file st) + 1) (if of_nat n > ?l then of_nat n else ?l) (rtx_id tx) ?an
      (recovery_file st) = Inr (analyze_list (rtx_id tx) ?ls ?an)"
    unfolding temp by (intro analyze_tx_eq [OF rep])
  consider (ended) "tx_ended (rtx_id tx) ?ls" "us = []"
    | (running) "tx_open (rtx_id tx) ?ls" "chain rs (unat (last_of (rtx_id tx) ?ls ?l)) us"
    using r by (auto simp: recoverable_def Let_def)
  then show ?thesis
  proof cases
    case ended
    then show ?thesis using an analyze_ended [OF ended(1), of ?an] rep
      by (intro exI [of _ st] exI [of _ "[]"]) (auto simp: recover_tx_def Let_def)
  next
    case running
    let ?last = "last_of (rtx_id tx) ?ls ?l"
    let ?a = "short_rec KV_REC_ABORT (rec_lsn st + 1) ?last (rtx_id tx)"
    let ?st = "append_rec ?a st"
    have found: "analyze_list (rtx_id tx) ?ls ?an = ?an\<lparr>last_tx_lsn := ?last\<rparr>"
      using analyze_open [OF running(1), of ?an] by simp
    have rep1: "log_rep ?st (rs @ [?a])"
      using rep room by (intro log_rep_append) (simp_all add: short_line_eq(2), simp add: short_rec_def)
    have ch: "chain (rs @ [?a]) (length rs + 1) us"
      by (rule chain_snoc_skip [OF running(2)]) (simp_all add: short_rec_def)
    have fuel: "length rs + 1 < length (recovery_file ?st) + 1"
      using rep1 length_log_text [of "rs @ [?a]"] by (simp add: log_rep_def)
    obtain st' cs p where u: "undo_tx (length (recovery_file ?st) + 1) (of_nat (length rs + 1)) (rtx_id tx) ?last ?st = Inr st'"
      "clr_records (rtx_id tx) (rev us) cs"
      "log_rep st' ((rs @ [?a]) @ [] @ cs @ [short_rec KV_REC_END (rec_lsn st') p (rtx_id tx)])"
      using undo_tx_correct [OF ch _ fuel, of ?st "[]" "rtx_id tx" ?last] rep1 room by auto
    let ?e = "short_rec KV_REC_END (rec_lsn st') p (rtx_id tx)"
    have lcs: "length cs = length us" using u(2) by (simp add: clr_records_def)
    have "rec_lsn st + 1 = of_nat (length rs + 1)" using log_rep_lsn [OF rep] by simp
    then have "recover_tx (of_nat n) tx st = Inr st'"
      using an u(1) unfolding recover_tx_def Let_def
      by (simp add: found undo_start_def simple_logs add.commute del: undo_tx.simps analyze_tx.simps)
    moreover have "\<forall>q \<in> set ([?a] @ cs @ [?e]). log_tx_id q = rtx_id tx"
    proof -
      have "\<forall>q \<in> set cs. log_tx_id q = rtx_id tx" using u(2) by (auto simp: clr_records_def in_set_conv_nth)
      then show ?thesis by (auto simp: short_rec_def)
    qed
    moreover have "\<forall>m. replay ([?a] @ cs @ [?e]) m = fold undo_upd (rev us) m"
      using replay_clr [OF u(2)] eff replay_skip [of ?a] replay_skip [of ?e] by (simp add: short_rec_def)
    moreover have "length ([?a] @ cs @ [?e]) \<le> length us + 2" using lcs by simp
    moreover have "log_rep st' (rs @ [?a] @ cs @ [?e])" using u(3) by simp
    ultimately show ?thesis by (intro exI [of _ st'] exI [of _ "[?a] @ cs @ [?e]"] conjI)
  qed
qed

text \<open>All transactions of the checkpoint.\<close>

definition all_upds :: "upd list list \<Rightarrow> upd list" where
  "all_upds uss = concat (map rev uss)"

lemma all_upds_simps [simp]:
  "all_upds [] = []"
  "all_upds (us # uss) = rev us @ all_upds uss"
  by (simp_all add: all_upds_def)

lemma list_all2_mono':
  assumes "list_all2 P xs ys" "\<And>x y. x \<in> set xs \<Longrightarrow> P x y \<Longrightarrow> Q x y"
  shows "list_all2 Q xs ys"
  using assms by (induction rule: list_all2_induct) auto

lemma recover_list_correct:
  assumes "log_rep st rs" "n \<le> length rs" "list_all2 (recoverable rs n) txs uss" "distinct (map rtx_id txs)"
    "\<forall>u \<in> set (all_upds uss). upd_old u \<noteq> [] \<or> upd_new u \<noteq> []"
    "length rs + length (all_upds uss) + 2 * length txs + 1 < 2 ^ 32"
  shows "\<exists>st' qs. recover_list (of_nat n) txs st = Inr st' \<and> log_rep st' (rs @ qs) \<and>
     length qs \<le> length (all_upds uss) + 2 * length txs \<and> (\<forall>m. replay qs m = fold undo_upd (all_upds uss) m)"
  using assms
proof (induction txs arbitrary: uss st rs)
  case Nil
  then show ?case by (intro exI [of _ st] exI [of _ "[]"]) simp
next
  case (Cons tx txs)
  then obtain us uss' where uss: "uss = us # uss'" "recoverable rs n tx us" "list_all2 (recoverable rs n) txs uss'"
    by (auto simp: list_all2_Cons1)
  have "length rs + length us + 3 < 2 ^ 32" "\<forall>u \<in> set us. upd_old u \<noteq> [] \<or> upd_new u \<noteq> []"
    using Cons.prems(5,6) by (simp_all add: uss(1))
  then obtain st1 qs where r: "recover_tx (of_nat n) tx st = Inr st1" "log_rep st1 (rs @ qs)"
    "\<forall>q \<in> set qs. log_tx_id q = rtx_id tx" "length qs \<le> length us + 2" "\<forall>m. replay qs m = fold undo_upd (rev us) m"
    using recover_tx_correct [OF Cons.prems(1,2) uss(2)] by auto
  have "list_all2 (recoverable (rs @ qs) n) txs uss'"
  proof (rule list_all2_mono' [OF uss(3)])
    fix tx' us' assume t: "tx' \<in> set txs" "recoverable rs n tx' us'"
    have "rtx_id tx' \<noteq> rtx_id tx" using t(1) Cons.prems(4) by (auto simp: image_iff)
    then have "\<forall>q \<in> set qs. log_tx_id q \<noteq> rtx_id tx'" using r(3) by auto
    then show "recoverable (rs @ qs) n tx' us'" by (rule recoverable_append [OF t(2) Cons.prems(2)])
  qed
  moreover have "n \<le> length (rs @ qs)" "distinct (map rtx_id txs)" "\<forall>u \<in> set (all_upds uss'). upd_old u \<noteq> [] \<or> upd_new u \<noteq> []"
    "length (rs @ qs) + length (all_upds uss') + 2 * length txs + 1 < 2 ^ 32"
    using Cons.prems r(4) by (simp_all add: uss(1))
  ultimately obtain st' qs' where IH: "recover_list (of_nat n) txs st1 = Inr st'" "log_rep st' ((rs @ qs) @ qs')"
    "length qs' \<le> length (all_upds uss') + 2 * length txs" "\<forall>m. replay qs' m = fold undo_upd (all_upds uss') m"
    using Cons.IH [OF r(2)] by blast
  have "\<forall>m. replay (qs @ qs') m = fold undo_upd (all_upds uss) m" using r(5) IH(4) by (simp add: uss(1))
  moreover have "recover_list (of_nat n) (tx # txs) st = Inr st'" using r(1) IH(1) by simp
  moreover have "log_rep st' (rs @ qs @ qs')" using IH(2) by simp
  moreover have "length (qs @ qs') \<le> length (all_upds uss) + 2 * length (tx # txs)" using r(4) IH(3) by (simp add: uss(1))
  ultimately show ?case by blast
qed

text \<open>The whole of recover, on the log and the files a server leaves behind.\<close>

lemma read_last_lsn_rep:
  assumes "log_rep st rs" "length rs \<noteq> 1"
  shows "read_last_lsn (recovery_file st) = Inr (rec_lsn st)"
proof (cases "rs = []")
  case True
  then show ?thesis using assms(1) by (simp add: read_last_lsn_short log_rep_def)
next
  case False
  then have "2 \<le> length rs" using assms(2) by (cases rs) (auto simp: Suc_le_eq)
  then show ?thesis using read_last_lsn_log [OF assms(1)] assms(1) by (simp add: log_rep_def)
qed

lemma recover_no_checkpoint:
  assumes "log_rep st rs" "length rs \<noteq> 1" "last_lsn_file files = None"
  shows "kv_recovery_recover files (recovery_file st) = Inr st"
  using read_last_lsn_rep [OF assms(1,2)] assms(3) by (simp add: kv_recovery_recover_def last_checked_def)

text \<open>A checkpoint whose number no record has is as good as none.\<close>

lemma recover_stray:
  assumes "log_rep st rs" "length rs \<noteq> 1" "last_lsn_file files = Some (fmt_08X n @ t)" "length rs < unat n"
  shows "kv_recovery_recover files (recovery_file st) = Inr st"
proof -
  have "kv_recovery_get_log n (recovery_file st) = Inr None"
    using log.get_out [OF assms(1,4)] unsigned_less [of n, where 'a = nat] by simp
  then show ?thesis using read_last_lsn_rep [OF assms(1,2)] assms(3) by (simp add: kv_recovery_recover_def Let_def)
qed

lemma recover_checkpoint:
  assumes rep: "log_rep st rs" and len: "2 \<le> length rs" and n: "0 < n" "n \<le> length rs"
    and checked: "last_lsn_file files = Some (fmt_08X (of_nat n) @ t)"
    and check: "log_tx_list (rs ! (n - 1)) = Some txs"
    and txs: "list_all2 (recoverable rs n) txs uss" "distinct (map rtx_id txs)"
    and eff: "\<forall>u \<in> set (all_upds uss). upd_old u \<noteq> [] \<or> upd_new u \<noteq> []"
    and room: "length rs + length (all_upds uss) + 2 * length txs + 1 < 2 ^ 32"
  shows "\<exists>st' qs. kv_recovery_recover files (recovery_file st) = Inr st' \<and> log_rep st' (rs @ qs) \<and>
     length qs \<le> length (all_upds uss) + 2 * length txs \<and> (\<forall>m. replay qs m = fold undo_upd (all_upds uss) m)"
proof -
  have f: "recovery_file st = log_text rs" using rep by (simp add: log_rep_def)
  have st: "\<lparr>recovery_file = log_text rs, rec_lsn = rec_lsn st\<rparr> = st" using f by (cases st) simp
  have "(of_nat n :: u32) \<noteq> of_nat (2 ^ 32 - 1)" using of_nat_u32_inj [of n "2 ^ 32 - 1"] n room by simp
  moreover have "(of_nat (2 ^ 32 - 1) :: u32) = -1" by (simp add: word_eq_iff_unsigned)
  ultimately have ne: "(of_nat n :: u32) \<noteq> -1" by metis
  have "kv_recovery_get_log (of_nat n) (log_text rs) = Inr (Some (rs ! (n - 1)))"
    using log.get_in [OF rep, of "n - 1"] n f by simp
  then have "kv_recovery_recover files (recovery_file st) =
      recover_list (of_nat n) txs \<lparr>recovery_file = log_text rs, rec_lsn = rec_lsn st\<rparr>"
    using read_last_lsn_log [OF rep len] checked check ne by (simp add: kv_recovery_recover_def f Let_def)
  then have "kv_recovery_recover files (recovery_file st) = recover_list (of_nat n) txs st" unfolding st .
  then show ?thesis using recover_list_correct [OF rep n(2) txs eff room] by simp
qed

section \<open>Properties\<close>

text \<open>
  C23. Recover ends, with the transaction undone: for an entry of the checkpoint's list whose
  transaction has ended in the log it does nothing; for one left open both loops of
  \<open>kv_recovery_recover\<close> come to an end, the log grows by records of that transaction only, and
  replaying them undoes its updates from the last to the first.
\<close>

theorem recover_undoes:
  assumes "log_rep st rs" "n \<le> length rs" "recoverable rs n tx us" "\<forall>u \<in> set us. upd_old u \<noteq> [] \<or> upd_new u \<noteq> []"
    "length rs + length us + 3 < 2 ^ 32"
  shows "\<exists>st' qs. recover_tx (of_nat n) tx st = Inr st' \<and> log_rep st' (rs @ qs) \<and>
    (\<forall>q \<in> set qs. log_tx_id q = rtx_id tx) \<and> (\<forall>m. replay qs m = fold undo_upd (rev us) m)"
  using recover_tx_correct [OF assms] by blast

theorem recover_undoes_witness:
  "\<exists>st' qs. recover_tx 0 \<lparr>rtx_id = 7, rtx_last_lsn = 1\<rparr> sample_st = Inr st' \<and> log_rep st' (sample_log @ qs) \<and>
    replay qs [''a'' \<mapsto> ''y'', ''b'' \<mapsto> ''z''] ''a'' = None"
proof -
  let ?tx = "\<lparr>rtx_id = 7, rtx_last_lsn = 1\<rparr>"
  have "recoverable sample_log 0 ?tx sample_us"
    using sample_chain by (simp add: recoverable_def tx_open_def last_of_def sample_log_def rec_defs)
  moreover have "\<forall>u \<in> set sample_us. upd_old u \<noteq> [] \<or> upd_new u \<noteq> []" by (simp add: sample_us_def)
  moreover have "length sample_log + length sample_us + 3 < 2 ^ 32" by (simp add: sample_log_def sample_us_def)
  ultimately obtain st' qs where r: "recover_tx (of_nat 0) ?tx sample_st = Inr st'" "log_rep st' (sample_log @ qs)"
    "\<forall>m. replay qs m = fold undo_upd (rev sample_us) m"
    using recover_undoes [OF sample_rep, of 0 ?tx sample_us] by auto
  have "replay qs [''a'' \<mapsto> ''y'', ''b'' \<mapsto> ''z''] ''a'' = None"
    unfolding r(3) [rule_format] by (simp add: sample_us_def undo_upd_def val_of_def)
  then show ?thesis using r(1,2) by auto
qed

end
