(* ===== verification/Sys_Steps.thy ===== *)
theory Sys_Steps
  imports Refinement Kv_Recovery
begin

text \<open>
  The server at work: any number of client threads, each running its commands one after the
  other, and the checkpoint thread.  A step is one command of one client from its start to its
  reply; a data command whose key is locked by another thread is two steps, one up to the lock
  and one from the lock on, with steps of other threads between them.  Runs are the finite
  sequences of such steps in any interleaving, with the replies the clients get.

  The lemmas connect a run with the abstract store, the history of committed transactions and
  the log.
\<close>

section \<open>Definitions\<close>

text \<open>
  \<open>sys_tx\<close> is \<open>c_data.tx\<close> of every client thread, \<open>sys_wait\<close> the command in whose lock a
  thread waits, with \<open>is_single_command\<close>.
\<close>

record kv_sys =
  sys_db :: kv_db
  sys_tx :: "thread \<Rightarrow> nat option"
  sys_wait :: "thread \<Rightarrow> (command \<times> bool) option"
  sys_files :: kv_files

type_synonym event = "thread \<times> command \<times> string"

definition init_sys :: kv_sys where
  "init_sys = \<lparr>sys_db = fresh_db, sys_tx = (\<lambda>_. None), sys_wait = (\<lambda>_. None),
     sys_files = \<lparr>last_lsn_file = None, snapshot_dir = (\<lambda>_. None)\<rparr>\<rparr>"

inductive sys_step :: "kv_sys \<Rightarrow> event list \<Rightarrow> kv_sys \<Rightarrow> bool" where
  step_command:
    "0 < u \<Longrightarrow> sys_wait sg u = None \<Longrightarrow> length result = RESULT_SIZE \<Longrightarrow>
     exec_command u junk cmd result (sys_tx sg u) (sys_db sg) = Inr (result', c_tx, db') \<Longrightarrow>
     sys_step sg [(u, cmd, cstr result')] (sg\<lparr>sys_db := db', sys_tx := (sys_tx sg)(u := c_tx)\<rparr>)"
| step_wait:
    "0 < u \<Longrightarrow> sys_wait sg u = None \<Longrightarrow> command_key cmd = Some k \<Longrightarrow>
     ensure_tx (sys_tx sg u) (sys_db sg) = Inr (a, single, db') \<Longrightarrow>
     kv_lm_wlock u (db_lm db') k = Inl Blocked \<Longrightarrow>
     sys_step sg [] (sg\<lparr>sys_db := db', sys_tx := (sys_tx sg)(u \<mapsto> a), sys_wait := (sys_wait sg)(u \<mapsto> (cmd, single))\<rparr>)"
| step_resume:
    "sys_wait sg u = Some (cmd, single) \<Longrightarrow> sys_tx sg u = Some a \<Longrightarrow> length result = RESULT_SIZE \<Longrightarrow>
     rest_of_data u junk cmd result a single (sys_db sg) = Inr (result', c_tx, db') \<Longrightarrow>
     sys_step sg [(u, cmd, cstr result')]
       (sg\<lparr>sys_db := db', sys_tx := (sys_tx sg)(u := c_tx), sys_wait := (sys_wait sg)(u := None)\<rparr>)"
| step_checkpoint:
    "take_snapshot usable (sys_db sg) (sys_files sg) = Inr (db', files') \<Longrightarrow>
     sys_step sg [] (sg\<lparr>sys_db := db', sys_files := files'\<rparr>)"

text \<open>
  Runs within bounds: keys and values the log can hold, and counters that are far from
  wrapping around.
\<close>

definition waits_small :: "kv_sys \<Rightarrow> bool" where
  "waits_small sg \<longleftrightarrow> (\<forall>u cmd single. sys_wait sg u = Some (cmd, single) \<longrightarrow> command_small cmd)"

inductive sys_run :: "event list \<Rightarrow> kv_sys \<Rightarrow> bool" where
  run_init: "sys_run [] init_sys"
| run_step: "sys_run es sg \<Longrightarrow> room (sys_db sg) \<Longrightarrow> sys_step sg e sg' \<Longrightarrow>
    \<forall>(u, cmd, r) \<in> set e. command_small cmd \<Longrightarrow> waits_small sg' \<Longrightarrow> sys_run (es @ e) sg'"

inductive_cases sys_stepE: "sys_step sg e sg'"

subsection \<open>Reference: the abstract store and the history\<close>

fun accepts :: "event list \<Rightarrow> store \<Rightarrow> store option" where
  "accepts [] s = Some s"
| "accepts ((u, cmd, r) # es) s =
     (let (r', s') = spec_command u cmd s in if r' = r then accepts es s' else None)"

definition empty_store :: store where
  "empty_store = \<lparr>committed = (\<lambda>_. None), running = (\<lambda>_. None)\<rparr>"

text \<open>
  The committed transactions of a run in the order of their commits, each with its commands and
  replies; a single command is a transaction of its own.
\<close>

type_synonym done_tx = "(command \<times> string) list"

fun history_step :: "event \<Rightarrow> (thread \<Rightarrow> done_tx option) \<times> done_tx list \<Rightarrow> (thread \<Rightarrow> done_tx option) \<times> done_tx list" where
  "history_step (u, C_Empty, r) (run, txs) = (run, txs)"
| "history_step (u, C_Begin, r) (run, txs) = (case run u of None \<Rightarrow> (run(u \<mapsto> []), txs) | Some ops \<Rightarrow> (run, txs))"
| "history_step (u, C_Commit, r) (run, txs) =
     (case run u of None \<Rightarrow> (run, txs) | Some ops \<Rightarrow> (run(u := None), txs @ [ops]))"
| "history_step (u, C_Abort, r) (run, txs) = (run(u := None), txs)"
| "history_step (u, cmd, r) (run, txs) =
     (case run u of None \<Rightarrow> (run, txs @ [[(cmd, r)]]) | Some ops \<Rightarrow> (run(u \<mapsto> ops @ [(cmd, r)]), txs))"

definition history :: "event list \<Rightarrow> (thread \<Rightarrow> done_tx option) \<times> done_tx list" where
  "history es = fold history_step es (\<lambda>_. None, [])"

text \<open>Transactions run one after the other: the contents, if every reply is the one recorded.\<close>

fun serially :: "done_tx list \<Rightarrow> contents \<Rightarrow> contents option" where
  "serially [] m = Some m"
| "serially (tx # txs) m =
     (if fst (serial (map fst tx) m) = map snd tx then serially txs (tx_view m tx) else None)"

section \<open>Lemmas\<close>

lemma accepts_append: "accepts (es @ fs) s = Option.bind (accepts es s) (accepts fs)"
proof (induction es arbitrary: s)
  case (Cons e es)
  then show ?case by (cases e) (auto simp: case_prod_unfold Let_def)
qed simp

lemma history_append: "history (es @ fs) = fold history_step fs (history es)"
  by (simp add: history_def)

lemma serially_snoc:
  "serially txs m = Some m' \<Longrightarrow> fst (serial (map fst tx) m') = map snd tx \<Longrightarrow> serially (txs @ [tx]) m = Some (tx_view m' tx)"
  by (induction txs arbitrary: m) (auto split: if_splits)

text \<open>
  A single command that waits has a transaction in the server and none to its client.
\<close>

definition hide :: "kv_sys \<Rightarrow> store \<Rightarrow> store" where
  "hide sg s = s\<lparr>running := (\<lambda>u. if \<exists>cmd. sys_wait sg u = Some (cmd, True) then None else running s u)\<rparr>"

definition waits_ok :: "kv_sys \<Rightarrow> store \<Rightarrow> bool" where
  "waits_ok sg s \<longleftrightarrow> (\<forall>u cmd single. sys_wait sg u = Some (cmd, single) \<longrightarrow>
     sys_tx sg u \<noteq> None \<and> command_key cmd \<noteq> None \<and> command_small cmd \<and> (single \<longrightarrow> running s u = Some []))"

definition sys_inv ::
  "event list \<Rightarrow> kv_sys \<Rightarrow> store \<Rightarrow> nat list \<Rightarrow> kv_recovery_log_line list \<Rightarrow> bool" where
  "sys_inv es sg s as rs \<longleftrightarrow>
     sim s (sys_tx sg) as rs (sys_db sg) \<and> waits_ok sg s \<and>
     accepts es empty_store = Some (hide sg s) \<and>
     fst (history es) = running (hide sg s) \<and> serially (snd (history es)) Map.empty = Some (committed s)"

subsection \<open>The initial state\<close>

lemma fresh_ht: "ht_inv (db_ht fresh_db)" "kv_ht_get (db_ht fresh_db) = Map.empty"
proof -
  obtain ht :: kv_table where "kv_ht_create 2 str_hash_func str_cmp_func = Inr ht" "ht_inv ht" "kv_ht_get ht = Map.empty"
    using kv_ht_create_correct [of 2 str_cmp_func str_hash_func] by auto
  moreover have "kv_ht_create 2 str_hash_func str_cmp_func = Inr (db_ht fresh_db)"
    by (simp add: kv_ht_create_def fresh_db_def numeral_2_eq_2)
  ultimately show "ht_inv (db_ht fresh_db)" "kv_ht_get (db_ht fresh_db) = Map.empty" by simp_all
qed

lemma sim_fresh: "sim empty_store (\<lambda>_. None) [] [] fresh_db"
proof -
  have "db_inv (\<lambda>_. None) [] [] fresh_db"
    unfolding db_inv_def using fresh_ht lm_inv_create log_rep_empty kv_ll_create_rep
    by (simp add: fresh_db_def txm_rep_def lm.holds_exactly_def)
  then show ?thesis by (simp add: sim_def fresh_ht vals_ok_def empty_store_def)
qed

lemma sys_inv_init: "sys_inv [] init_sys empty_store [] []"
  using sim_fresh by (simp add: sys_inv_def init_sys_def waits_ok_def hide_def history_def empty_store_def)

subsection \<open>Steps of the reference\<close>

lemma hide_cong: "sys_wait sg' = sys_wait sg \<Longrightarrow> hide sg' s = hide sg s"
  by (simp add: hide_def)

lemma spec_hide:
  assumes "\<And>c. sys_wait sg u \<noteq> Some (c, True)"
  shows "spec_command u cmd (hide sg s) = (fst (spec_command u cmd s), hide sg (snd (spec_command u cmd s)))"
proof -
  have u: "running (hide sg s) u = running s u" "committed (hide sg s) = committed s" using assms by (simp_all add: hide_def)
  have upd: "hide sg (s\<lparr>running := (running s)(u := x)\<rparr>) = (hide sg s)\<lparr>running := (running (hide sg s))(u := x)\<rparr>" for x
    using assms by (auto simp: hide_def fun_eq_iff)
  have upd2: "hide sg (s\<lparr>committed := m, running := (running s)(u := x)\<rparr>) =
     (hide sg s)\<lparr>committed := m, running := (running (hide sg s))(u := x)\<rparr>" for m x
    using assms by (auto simp: hide_def fun_eq_iff)
  have com: "hide sg (s\<lparr>committed := m\<rparr>) = (hide sg s)\<lparr>committed := m\<rparr>" for m
    by (rule store.equality) (auto simp: hide_def)
  show ?thesis by (cases cmd) (auto simp: u upd upd2 com Let_def split: option.split)
qed

lemma history_spec:
  assumes sp: "spec_command u cmd s = (r, s')" and txs: "serially txs Map.empty = Some (committed s)"
    and ok: "\<And>ops. running s u = Some ops \<Longrightarrow> fst (serial (map fst ops) (committed s)) = map snd ops"
  shows "\<exists>txs'. history_step (u, cmd, r) (running s, txs) = (running s', txs') \<and> serially txs' Map.empty = Some (committed s')"
proof (cases "command_key cmd")
  case None
  then show ?thesis using sp txs ok serially_snoc [OF txs] by (cases cmd) (auto split: option.splits simp: fun_upd_idem_iff)
next
  case (Some k)
  have d: "history_step (u, cmd, r) (running s, txs) =
     (case running s u of None \<Rightarrow> (running s, txs @ [[(cmd, r)]]) | Some ops \<Rightarrow> ((running s)(u \<mapsto> ops @ [(cmd, r)]), txs))"
    using Some by (cases cmd) auto
  show ?thesis
  proof (cases "running s u")
    case None
    then have "r = data_reply cmd (committed s)" "s' = s\<lparr>committed := map_writes (data_writes cmd (committed s)) (committed s)\<rparr>"
      using sp by (simp_all add: spec_data [OF Some])
    then show ?thesis using None d serially_snoc [OF txs, of "[(cmd, r)]"]
      by (simp add: Let_def case_prod_unfold tx_view_def tx_writes_def)
  next
    case (Some ops)
    then show ?thesis using d sp txs by (auto simp: spec_data [OF \<open>command_key cmd = _\<close>])
  qed
qed

text \<open>One more event, as the abstract store answers it.\<close>

lemma sys_inv_event:
  assumes inv: "sys_inv es sg s as rs" and u: "\<And>c. sys_wait sg u \<noteq> Some (c, True)"
    and sim': "sim (snd (spec_command u cmd s)) (sys_tx sg') as' rs' (sys_db sg')"
    and r: "r = fst (spec_command u cmd s)"
    and wait: "hide sg' (snd (spec_command u cmd s)) = hide sg (snd (spec_command u cmd s))"
    and ok: "waits_ok sg' (snd (spec_command u cmd s))"
  shows "sys_inv (es @ [(u, cmd, r)]) sg' (snd (spec_command u cmd s)) as' rs'"
proof -
  let ?s' = "snd (spec_command u cmd s)"
  note sys = inv [unfolded sys_inv_def]
  have sp: "spec_command u cmd (hide sg s) = (r, hide sg ?s')" using spec_hide [OF u] r by simp
  have "\<exists>txs'. history_step (u, cmd, r) (running (hide sg s), snd (history es)) = (running (hide sg ?s'), txs') \<and>
     serially txs' Map.empty = Some (committed (hide sg ?s'))"
  proof (rule history_spec [OF sp])
    show "serially (snd (history es)) Map.empty = Some (committed (hide sg s))" using sys by (simp add: hide_def)
    fix ops assume "running (hide sg s) u = Some ops"
    then have ops: "running s u = Some ops" using u by (simp add: hide_def)
    obtain a where a: "sys_tx sg u = Some a" using sys ops unfolding sim_def by fastforce
    obtain ops' where "running s u = Some ops'" "fst (serial (map fst ops') (committed s)) = map snd ops'"
      using sys a unfolding sim_def tx_sim_def by metis
    then show "fst (serial (map fst ops) (committed (hide sg s))) = map snd ops" using ops by (simp add: hide_def)
  qed
  then obtain txs' where h: "history_step (u, cmd, r) (running (hide sg s), snd (history es)) = (running (hide sg ?s'), txs')"
     "serially txs' Map.empty = Some (committed (hide sg ?s'))" by blast
  have "history es = (running (hide sg s), snd (history es))" using sys by (simp add: prod_eq_iff)
  then have h': "history (es @ [(u, cmd, r)]) = (running (hide sg ?s'), txs')" using h(1)
    by (simp only: history_append fold_simps)
  have "history (es @ [(u, cmd, r)]) = (running (hide sg' ?s'), snd (history (es @ [(u, cmd, r)])))"
    "serially (snd (history (es @ [(u, cmd, r)]))) Map.empty = Some (committed ?s')"
    using h' h(2) wait by (simp_all add: hide_def)
  moreover have "accepts (es @ [(u, cmd, r)]) empty_store = Some (hide sg' ?s')"
    using sys sp wait by (simp add: accepts_append)
  ultimately show ?thesis using sim' ok unfolding sys_inv_def by (metis fst_conv)
qed

subsection \<open>Steps of the server\<close>

text \<open>How a step changes the log: one transaction goes on, or a checkpoint is written.\<close>

definition tx_step_by :: "thread \<Rightarrow> kv_sys \<Rightarrow> kv_recovery_log_line list \<Rightarrow> kv_sys \<Rightarrow> bool" where
  "tx_step_by u sg qs sg' \<longleftrightarrow> (\<exists>c_tx. log_step u (sys_tx sg) (sys_db sg) c_tx qs (sys_db sg') \<and>
     sys_tx sg' = (sys_tx sg)(u := c_tx) \<and> sys_files sg' = sys_files sg)"

definition tx_step :: "kv_sys \<Rightarrow> kv_recovery_log_line list \<Rightarrow> kv_sys \<Rightarrow> bool" where
  "tx_step sg qs sg' \<longleftrightarrow> (\<exists>u. tx_step_by u sg qs sg')"

definition check_step :: "kv_sys \<Rightarrow> kv_recovery_log_line list \<Rightarrow> kv_sys \<Rightarrow> bool" where
  "check_step sg qs sg' \<longleftrightarrow> (\<exists>txs files'. qs = [check_rec (rec_lsn (db_rec (sys_db sg)) + 1) txs] \<and>
     (\<exists>usable. kv_txm_ongoing_transaction_ids usable (db_txm (sys_db sg)) = Inr txs) \<and> length txs \<le> 4 \<and>
     snapshot_child (rec_lsn (db_rec (sys_db sg)) + 1) (db_ht (sys_db sg)) (sys_files sg) = Inr files' \<and>
     sg' = sg\<lparr>sys_db := (sys_db sg)\<lparr>db_rec := append_rec (check_rec (rec_lsn (db_rec (sys_db sg)) + 1) txs) (db_rec (sys_db sg))\<rparr>,
       sys_files := files'\<rparr>)"

lemma refines_answerE:
  assumes "refines u cmd s c rs db (Inr (result, c_tx, db'))"
  obtains as qs where "length result = RESULT_SIZE" "cstr result = fst (spec_command u cmd s)"
    "sim (snd (spec_command u cmd s)) (c(u := c_tx)) as (rs @ qs) db'" "log_step u c db c_tx qs db'"
  using assms unfolding refines_def by auto

lemma waits_other:
  assumes "waits_ok sg s" "sys_tx sg' = (sys_tx sg)(u := x)" "\<And>v. v \<noteq> u \<Longrightarrow> sys_wait sg' v = sys_wait sg v"
    "\<And>v. v \<noteq> u \<Longrightarrow> running s' v = running s v" "sys_wait sg' u = None"
  shows "waits_ok sg' s'"
proof -
  have "v \<noteq> u" if "sys_wait sg' v \<noteq> None" for v using that assms(5) by auto
  then show ?thesis using assms(1-4) unfolding waits_ok_def by (metis fun_upd_other option.distinct(1))
qed

lemma spec_other: "v \<noteq> u \<Longrightarrow> running (snd (spec_command u cmd s)) v = running s v"
  by (cases cmd) (auto simp: Let_def split: option.split)

lemma inv_command:
  assumes inv: "sys_inv es sg s as rs" and rm: "room (sys_db sg)" and small: "command_small cmd"
    and u: "0 < u" "sys_wait sg u = None" "length result = RESULT_SIZE"
    and ex: "exec_command u junk cmd result (sys_tx sg u) (sys_db sg) = Inr (result', c_tx, db')"
  shows "\<exists>s' as' qs. sys_inv (es @ [(u, cmd, cstr result')]) (sg\<lparr>sys_db := db', sys_tx := (sys_tx sg)(u := c_tx)\<rparr>) s' as' (rs @ qs) \<and>
     tx_step_by u sg qs (sg\<lparr>sys_db := db', sys_tx := (sys_tx sg)(u := c_tx)\<rparr>)"
proof -
  let ?sg = "sg\<lparr>sys_db := db', sys_tx := (sys_tx sg)(u := c_tx)\<rparr>"
  have sim: "sim s (sys_tx sg) as rs (sys_db sg)" using inv by (simp add: sys_inv_def)
  have "refines u cmd s (sys_tx sg) rs (sys_db sg) (Inr (result', c_tx, db'))"
    using exec_command_refines [OF sim u(1) rm small u(3), of junk] ex by simp
  then obtain as' qs where r: "cstr result' = fst (spec_command u cmd s)"
    "sim (snd (spec_command u cmd s)) ((sys_tx sg)(u := c_tx)) as' (rs @ qs) db'" "log_step u (sys_tx sg) (sys_db sg) c_tx qs db'"
    by (rule refines_answerE)
  have "waits_ok ?sg (snd (spec_command u cmd s))"
    using inv u(2) by (intro waits_other [of sg s ?sg u c_tx]) (simp_all add: sys_inv_def spec_other)
  then have "sys_inv (es @ [(u, cmd, cstr result')]) ?sg (snd (spec_command u cmd s)) as' (rs @ qs)"
    using r(2) u(2) by (intro sys_inv_event [OF inv _ _ r(1)]) (simp_all add: hide_def)
  moreover have "tx_step_by u sg qs ?sg" unfolding tx_step_by_def using r(3) by (intro exI [of _ c_tx]) simp
  ultimately show ?thesis by blast
qed

lemma inv_wait:
  assumes inv: "sys_inv es sg s as rs" and rm: "room (sys_db sg)" and small: "command_small cmd"
    and u: "0 < u" "sys_wait sg u = None" and k: "command_key cmd = Some k"
    and en: "ensure_tx (sys_tx sg u) (sys_db sg) = Inr (a, single, db')"
  defines "sg' \<equiv> sg\<lparr>sys_db := db', sys_tx := (sys_tx sg)(u \<mapsto> a), sys_wait := (sys_wait sg)(u \<mapsto> (cmd, single))\<rparr>"
  shows "\<exists>s' as' qs. sys_inv es sg' s' as' (rs @ qs) \<and> tx_step_by u sg qs sg'"
proof (cases "sys_tx sg u")
  case (Some b)
  then have e: "a = b" "\<not> single" "db' = sys_db sg" using en by (auto simp: ensure_tx_def)
  have tx: "sys_tx sg' = sys_tx sg" using Some e by (auto simp: sg'_def)
  have hid: "hide sg' s = hide sg s" using u(2) e(2)
    by (intro store.equality) (auto simp: hide_def sg'_def fun_eq_iff)
  have ok: "waits_ok sg' s" using inv small k e(2) tx Some by (auto simp: sys_inv_def waits_ok_def sg'_def)
  have db: "sys_db sg' = sys_db sg" "sys_files sg' = sys_files sg" using e(3) by (simp_all add: sg'_def)
  have "sys_inv es sg' s as (rs @ [])" using inv ok hid tx db by (simp add: sys_inv_def)
  moreover have "tx_step_by u sg [] sg'" unfolding tx_step_by_def using tx db by (intro exI [of _ "sys_tx sg u"]) simp
  ultimately show ?thesis by blast
next
  case None
  have sim: "sim s (sys_tx sg) as rs (sys_db sg)" using inv by (simp add: sys_inv_def)
  let ?s = "s\<lparr>running := (running s)(u \<mapsto> [])\<rparr>"
  have idle: "running s u = None" using sim None unfolding sim_def by blast
  have e: "begin_tx (sys_db sg) = Inr (a, db')" "single"
    using en None by (auto simp: ensure_tx_def res_iff)
  obtain b db1 where "begin_tx (sys_db sg) = Inr (b, db1)" "b \<notin> set as" "db_lm db1 = db_lm (sys_db sg)"
    "sim ?s ((sys_tx sg)(u \<mapsto> b)) (as @ [b]) (rs @ [begin_rec (sys_db sg)]) db1"
    "\<forall>c_tx qs db'. log_step u ((sys_tx sg)(u \<mapsto> b)) db1 c_tx qs db' \<longrightarrow> log_step u (sys_tx sg) (sys_db sg) c_tx (begin_rec (sys_db sg) # qs) db'"
    "log_step u (sys_tx sg) (sys_db sg) (Some b) [begin_rec (sys_db sg)] db1"
    by (rule begin_step [OF sim None u(1) rm]) (rule that)
  then have b: "sim ?s ((sys_tx sg)(u \<mapsto> a)) (as @ [a]) (rs @ [begin_rec (sys_db sg)]) db'"
    "log_step u (sys_tx sg) (sys_db sg) (Some a) [begin_rec (sys_db sg)] db'" using e(1) by simp_all
  have hid: "hide sg' ?s = hide sg s" using u(2) e(2) idle by (intro store.equality) (auto simp: hide_def sg'_def fun_eq_iff)
  have ok: "waits_ok sg' ?s" using inv small k e(2) u(2) by (auto simp: sys_inv_def waits_ok_def sg'_def)
  have "sys_inv es sg' ?s (as @ [a]) (rs @ [begin_rec (sys_db sg)])"
    using inv b(1) hid ok by (simp add: sys_inv_def) (simp add: sg'_def)
  moreover have "tx_step_by u sg [begin_rec (sys_db sg)] sg'"
    unfolding tx_step_by_def using b(2) by (intro exI [of _ "Some a"]) (simp add: sg'_def)
  ultimately show ?thesis by blast
qed

lemma inv_resume:
  assumes inv: "sys_inv es sg s as rs" and rm: "room (sys_db sg)"
    and w: "sys_wait sg u = Some (cmd, single)" and a: "sys_tx sg u = Some a" and len: "length result = RESULT_SIZE"
    and ex: "rest_of_data u junk cmd result a single (sys_db sg) = Inr (result', c_tx, db')"
  defines "sg' \<equiv> sg\<lparr>sys_db := db', sys_tx := (sys_tx sg)(u := c_tx), sys_wait := (sys_wait sg)(u := None)\<rparr>"
  shows "\<exists>s' as' qs. sys_inv (es @ [(u, cmd, cstr result')]) sg' s' as' (rs @ qs) \<and> tx_step_by u sg qs sg'"
proof -
  have sim: "sim s (sys_tx sg) as rs (sys_db sg)" using inv by (simp add: sys_inv_def)
  have inv0: "db_inv (sys_tx sg) as rs (sys_db sg)" by (rule simD [OF sim])
  have aa: "a \<in> set as" "0 < u" using db_invD(5,6) [OF inv0 a] by auto
  obtain k where k: "command_key cmd = Some k" and small: "command_small cmd" and sg1: "single \<Longrightarrow> running s u = Some []"
    using inv w unfolding sys_inv_def waits_ok_def by blast
  have rl: "length rs + 1 < 2 ^ 32" "length rs + 2 < 2 ^ 32" using room_length [OF sim rm] by simp_all
  obtain lm where lm: "kv_lm_wlock u (db_lm (sys_db sg)) k = Inr lm"
    using wlock_cases [OF inv0 aa(2), of k] rest_blocked [OF inv0 aa(1) _ k, of u junk result single] ex by (metis sum.distinct(1))
  have ws: "waits_ok sg' s'" if "\<And>v. v \<noteq> u \<Longrightarrow> running s' v = running s v" for s'
    using inv that by (intro waits_other [of sg s sg' u c_tx]) (simp_all add: sys_inv_def sg'_def)
  have ts: "tx_step_by u sg qs sg'" if "log_step u (sys_tx sg) (sys_db sg) c_tx qs db'" for qs
    unfolding tx_step_by_def using that by (intro exI [of _ c_tx]) (simp add: sg'_def)
  show ?thesis
  proof (cases single)
    case False
    obtain ops where ops: "running s u = Some ops" using sim_opsE [OF sim a] .
    obtain qs where r: "c_tx = Some a" "cstr result' = data_reply cmd (tx_view (committed s) ops)"
      "sim (add_op u ops cmd s) (sys_tx sg) as (rs @ qs) db'" "log_step u (sys_tx sg) (sys_db sg) (Some a) qs db'"
      using rest_in_tx [OF sim a ops rl(1) k small len lm, of junk] ex False by auto
    have sp: "spec_command u cmd s = (cstr result', add_op u ops cmd s)" using r(2) ops by (simp add: spec_data [OF k])
    have tx: "sys_tx sg' = sys_tx sg" "sys_db sg' = db'" using a r(1) by (auto simp: sg'_def)
    have nw: "sys_wait sg u \<noteq> Some (c, True)" for c using w False by simp
    have "sys_inv (es @ [(u, cmd, cstr result')]) sg' (snd (spec_command u cmd s)) as (rs @ qs)"
    proof (rule sys_inv_event [OF inv nw])
      show "hide sg' (snd (spec_command u cmd s)) = hide sg (snd (spec_command u cmd s))"
        using w False by (intro store.equality) (auto simp: hide_def sg'_def fun_eq_iff)
      show "waits_ok sg' (snd (spec_command u cmd s))" by (rule ws) (rule spec_other)
    qed (simp_all add: sp tx r(3))
    then show ?thesis using ts r(1,4) by blast
  next
    case True
    let ?s = "s\<lparr>committed := map_writes (data_writes cmd (committed s)) (committed s), running := (running s)(u := None)\<rparr>"
    obtain e es' where as: "as = e # es'" using aa(1) by (cases as) auto
    have sm: "sim s (sys_tx sg) (e # es') rs (sys_db sg)" using sim as by simp
    have "e = a"
      using rest_single_younger [OF sm a _ sg1 [OF True] rl(2) k small len lm, of junk] ex True by (metis sum.distinct(1))
    then have sm: "sim s (sys_tx sg) (a # es') rs (sys_db sg)" using sm by simp
    obtain qs where r: "c_tx = None" "cstr result' = data_reply cmd (committed s)"
      "sim ?s ((sys_tx sg)(u := None)) es' (rs @ qs) db'" "log_step u (sys_tx sg) (sys_db sg) None qs db'"
      using rest_single [OF sm a sg1 [OF True] rl(2) k small len lm, of junk] ex True by auto
    have idle: "running (hide sg s) u = None" "committed (hide sg s) = committed s" using w True by (simp_all add: hide_def)
    have sp: "spec_command u cmd (hide sg s) = (cstr result', hide sg' ?s)"
      unfolding spec_data [OF k] idle r(2)
      using w True by (simp add: idle(2)) (intro store.equality; auto simp: hide_def sg'_def fun_eq_iff)
    note sys = inv [unfolded sys_inv_def]
    have "\<exists>txs'. history_step (u, cmd, cstr result') (running (hide sg s), snd (history es)) = (running (hide sg' ?s), txs') \<and>
       serially txs' Map.empty = Some (committed (hide sg' ?s))"
      using sys idle by (intro history_spec [OF sp]) simp_all
    then obtain txs' where h: "history_step (u, cmd, cstr result') (running (hide sg s), snd (history es)) = (running (hide sg' ?s), txs')"
       "serially txs' Map.empty = Some (committed (hide sg' ?s))" by blast
    have "history es = (running (hide sg s), snd (history es))" using sys by (simp add: prod_eq_iff)
    then have h': "history (es @ [(u, cmd, cstr result')]) = (running (hide sg' ?s), txs')" using h(1)
      by (simp only: history_append fold_simps)
    have "waits_ok sg' ?s" by (rule ws) simp
    then have "sys_inv (es @ [(u, cmd, cstr result')]) sg' ?s es' (rs @ qs)"
      using sys sp h' h(2) r(1,3) by (simp add: sys_inv_def accepts_append) (simp add: sg'_def hide_def)
    then show ?thesis using ts r(1,4) by blast
  qed
qed

text \<open>There are at most as many transactions as numbers.\<close>

lemma txm_rep_length:
  assumes "txm_rep txm as"
  shows "length as \<le> 2 ^ 32"
proof -
  let ?f = "\<lambda>a. tx_id (the (txm_mem txm a))"
  have "length as = card (set as)" using txm_repD(2) [OF assms] by (simp add: distinct_card)
  also have "\<dots> = card (?f ` set as)" using txm_repD(5) [OF assms] by (simp add: card_image)
  also have "\<dots> \<le> card (UNIV :: u32 set)" by (intro card_mono) simp_all
  finally show ?thesis by (simp add: card_word)
qed

text \<open>A checkpoint does not change what the clients see.\<close>

lemma sim_check:
  assumes sim: "sim s c as rs db" and txs: "length txs \<le> 4" and room: "length rs + 1 < 2 ^ 32"
  defines "r \<equiv> check_rec (rec_lsn (db_rec db) + 1) txs"
  shows "sim s c as (rs @ [r]) (db\<lparr>db_rec := append_rec r (db_rec db)\<rparr>)"
proof -
  let ?db = "db\<lparr>db_rec := append_rec r (db_rec db)\<rparr>"
  have inv: "db_inv c as rs db" by (rule simD [OF sim])
  have r: "line_ok r" "log_lsn r = rec_lsn (db_rec db) + 1" using txs by (simp_all add: r_def line_ok_def check_rec_def)
  have txo: "tx_of ?db b = tx_of db b" for b by (simp add: tx_of_def)
  have sel: "db_ht ?db = db_ht db" "db_lm ?db = db_lm db" "db_txm ?db = db_txm db" "db_rec ?db = append_rec r (db_rec db)"
    by simp_all
  have "db_inv c as (rs @ [r]) ?db"
    unfolding db_inv_def txo sel using inv log_rep_append [OF db_invD(4) [OF inv] r room] unfolding db_inv_def by blast
  moreover have "replay (rs @ [r]) Map.empty = replay rs Map.empty"
    by (simp add: replay_skip r_def check_rec_def)
  ultimately show ?thesis
    using sim tx_sim_chain [of rs "committed s" "kv_ht_get (db_ht db)" _ _ "[r]"]
    unfolding sim_def txo sel by metis
qed

lemma snapshot_record:
  assumes rep: "txm_rep (db_txm db) as" and t: "take_snapshot usable db files = Inr (db', files')"
  obtains txs where "kv_txm_ongoing_transaction_ids usable (db_txm db) = Inr txs" "length txs \<le> 4"
    "db' = db\<lparr>db_rec := append_rec (check_rec (rec_lsn (db_rec db) + 1) txs) (db_rec db)\<rparr>"
    "snapshot_child (rec_lsn (db_rec db) + 1) (db_ht db) files = Inr files'"
proof -
  obtain txs lsn st where c: "kv_txm_ongoing_transaction_ids usable (db_txm db) = Inr txs"
    "kv_recovery_check_log txs (db_rec db) = Inr (lsn, st)" "db' = db\<lparr>db_rec := st\<rparr>"
    "snapshot_child lsn (db_ht db) files = Inr files'"
    using t by (auto simp: take_snapshot_def snapshot_check_def res_iff)
  have "length txs = length as" using c(1) ongoing_eq [OF rep, of usable] by (auto split: if_splits)
  then have small: "length txs < 2 ^ 64" using txm_rep_length [OF rep] by simp
  have len: "length txs \<le> 4"
  proof (rule ccontr)
    assume "\<not> length txs \<le> 4"
    then show False using check_log_overflow [OF _ small, of "db_rec db"] c(2) by simp
  qed
  have l: "lsn = rec_lsn (db_rec db) + 1" "st = append_rec (check_rec (rec_lsn (db_rec db) + 1) txs) (db_rec db)"
    using c(2) check_log_eq [OF len, of "db_rec db"] by auto
  show thesis by (rule that [OF c(1) len c(3,4) [unfolded l]])
qed

lemma inv_checkpoint:
  assumes inv: "sys_inv es sg s as rs" and rm: "room (sys_db sg)"
    and t: "take_snapshot usable (sys_db sg) (sys_files sg) = Inr (db', files')"
  defines "sg' \<equiv> sg\<lparr>sys_db := db', sys_files := files'\<rparr>"
  shows "\<exists>qs. sys_inv es sg' s as (rs @ qs) \<and> check_step sg qs sg'"
proof -
  have sim: "sim s (sys_tx sg) as rs (sys_db sg)" using inv by (simp add: sys_inv_def)
  have rl: "length rs + 1 < 2 ^ 32" using room_length [OF sim rm] by simp
  obtain txs where c: "kv_txm_ongoing_transaction_ids usable (db_txm (sys_db sg)) = Inr txs" "length txs \<le> 4"
    "db' = (sys_db sg)\<lparr>db_rec := append_rec (check_rec (rec_lsn (db_rec (sys_db sg)) + 1) txs) (db_rec (sys_db sg))\<rparr>"
    "snapshot_child (rec_lsn (db_rec (sys_db sg)) + 1) (db_ht (sys_db sg)) (sys_files sg) = Inr files'"
    by (rule snapshot_record [OF db_invD(1) [OF simD(1) [OF sim]] t])
  let ?r = "check_rec (rec_lsn (db_rec (sys_db sg)) + 1) txs"
  have sm: "sim s (sys_tx sg) as (rs @ [?r]) db'" using sim_check [OF sim c(2) rl] c(3) by simp
  have "waits_ok sg' s" using inv by (simp add: sys_inv_def waits_ok_def sg'_def)
  moreover have "hide sg' s = hide sg s" by (rule hide_cong) (simp add: sg'_def)
  ultimately have "sys_inv es sg' s as (rs @ [?r])" using inv sm by (simp add: sys_inv_def) (simp add: sg'_def)
  moreover have "check_step sg [?r] sg'" unfolding check_step_def using c by (auto simp: sg'_def)
  ultimately show ?thesis by blast
qed

text \<open>Every step: who takes it, and that a thread that waited for a lock got it.\<close>

definition acts :: "thread \<Rightarrow> kv_sys \<Rightarrow> event list \<Rightarrow> kv_sys \<Rightarrow> bool" where
  "acts u sg e sg' \<longleftrightarrow> fst ` set e \<subseteq> {u} \<and> (\<forall>v. v \<noteq> u \<longrightarrow> sys_wait sg' v = sys_wait sg v) \<and>
     (\<forall>cmd single k. sys_wait sg u = Some (cmd, single) \<longrightarrow> command_key cmd = Some k \<longrightarrow>
        kv_lm_wlock u (db_lm (sys_db sg)) k \<noteq> Inl Blocked)"

lemma inv_step_by:
  assumes inv: "sys_inv es sg s as rs" and rm: "room (sys_db sg)" and st: "sys_step sg e sg'"
    and small: "\<forall>(u, cmd, r) \<in> set e. command_small cmd" "waits_small sg'"
  shows "\<exists>s' as' qs. sys_inv (es @ e) sg' s' as' (rs @ qs) \<and>
    ((\<exists>u. tx_step_by u sg qs sg' \<and> acts u sg e sg') \<or> e = [] \<and> check_step sg qs sg')"
  using st
proof cases
  case (step_command u result junk cmd result' c_tx db')
  have small: "command_small cmd" using small(1) step_command(1) by simp
  have act: "acts u sg e sg'" using step_command(1,2,4) by (simp add: acts_def)
  from inv_command [OF inv rm small step_command(3-6)] act show ?thesis unfolding step_command(1,2) by blast
next
  case (step_wait u cmd k a single db')
  have "sys_wait sg' u = Some (cmd, single)" using step_wait(2) by simp
  then have small: "command_small cmd" using small(2) unfolding waits_small_def by blast
  have act: "acts u sg e sg'" using step_wait(1,2,4) by (simp add: acts_def)
  from inv_wait [OF inv rm small step_wait(3-6)] act show ?thesis unfolding step_wait(1,2) append_Nil2 by blast
next
  case (step_resume u cmd single a result junk result' c_tx db')
  have db: "db_inv (sys_tx sg) as rs (sys_db sg)" using inv simD(1) unfolding sys_inv_def by blast
  have "kv_lm_wlock u (db_lm (sys_db sg)) k \<noteq> Inl Blocked" if "command_key cmd = Some k" for k
    using rest_blocked [OF db db_invD(6) [OF db step_resume(4)] _ that, of u junk result single] step_resume(6) by auto
  then have act: "acts u sg e sg'" using step_resume(1-3) by (simp add: acts_def)
  from inv_resume [OF inv rm step_resume(3-6)] act show ?thesis unfolding step_resume(1,2) by blast
next
  case (step_checkpoint usable db' files')
  from inv_checkpoint [OF inv rm step_checkpoint(3)] show ?thesis unfolding step_checkpoint(1,2) append_Nil2 by blast
qed

lemma inv_step:
  assumes "sys_inv es sg s as rs" "room (sys_db sg)" "sys_step sg e sg'"
    "\<forall>(u, cmd, r) \<in> set e. command_small cmd" "waits_small sg'"
  shows "\<exists>s' as' qs. sys_inv (es @ e) sg' s' as' (rs @ qs) \<and> (tx_step sg qs sg' \<or> check_step sg qs sg')"
  using inv_step_by [OF assms] unfolding tx_step_def by blast

text \<open>Every run.\<close>

lemma run_inv: "sys_run es sg \<Longrightarrow> \<exists>s as rs. sys_inv es sg s as rs"
proof (induction rule: sys_run.induct)
  case run_init
  then show ?case using sys_inv_init by blast
next
  case (run_step es sg e sg')
  then show ?case using inv_step by blast
qed

subsection \<open>Outcomes in a run\<close>

abbreviation sys_locks :: "kv_sys \<Rightarrow> nat \<Rightarrow> string set" where
  "sys_locks sg a \<equiv> set (tx_locks (tx_of (sys_db sg) a))"

lemma run_simE:
  assumes "sys_run es sg"
  obtains s as rs where "sim s (sys_tx sg) as rs (sys_db sg)" "accepts es empty_store = Some (hide sg s)"
    "serially (snd (history es)) Map.empty = Some (committed s)" "waits_ok sg s" "fst (history es) = running (hide sg s)"
  using run_inv [OF assms] unfolding sys_inv_def by blast

lemma held_owner:
  assumes inv: "db_inv c as rs db" and h: "0 < lm_held (db_lm db) v i"
  shows "\<exists>a. c v = Some a \<and> i \<in> slot ` set (tx_locks (tx_of db a))"
proof (cases "c v")
  case None
  then show ?thesis using db_invD(8) [OF inv, of v] h by (simp add: lm.holds_exactly_def)
next
  case (Some a)
  then have "lm_held (db_lm db) v i = length (filter (\<lambda>j. slot j = i) (tx_locks (tx_of db a)))"
    using db_invD(8) [OF inv, of v] by (simp add: lm.holds_exactly_def)
  then have "filter (\<lambda>j. slot j = i) (tx_locks (tx_of db a)) \<noteq> []" using h by auto
  then show ?thesis using Some by (auto simp: filter_empty_conv)
qed

lemma owner_held:
  assumes inv: "db_inv c as rs db" and v: "c v = Some a" "k \<in> set (tx_locks (tx_of db a))"
  shows "0 < lm_held (db_lm db) v (slot k)"
proof -
  have "filter (\<lambda>j. slot j = slot k) (tx_locks (tx_of db a)) \<noteq> []" using v(2) by (auto simp: filter_empty_conv)
  then show ?thesis using db_invD(8) [OF inv, of v] v(1) by (simp add: lm.holds_exactly_def)
qed

text \<open>A lock held by another thread is not granted.\<close>

lemma wlock_held:
  assumes inv: "db_inv c as rs db" and u: "0 < u" and v: "c v = Some a" "v \<noteq> u" "k \<in> set (tx_locks (tx_of db a))"
    and s: "slot j = slot k"
  shows "kv_lm_wlock u (db_lm db) j = Inl Blocked"
proof (cases rule: wlock_cases [OF inv u, of j])
  case (1 lm)
  have h: "0 < lm_held (db_lm db) v (slot j)" using owner_held [OF inv v(1,3)] s by simp
  have li: "lm_inv lm" "lm_inv (db_lm db)" using lm.acquire_inv [OF db_invD(2) [OF inv] u 1] db_invD(2) [OF inv] by auto
  have "0 < lm_held lm u (slot j)" "0 < lm_held lm v (slot j)"
    using lm.acquire_held [OF li(2) u 1, of u "slot j"] lm.acquire_held [OF li(2) u 1, of v "slot j"] h v(2) by auto
  then show ?thesis using lm.exclusive [OF li(1)] v(2) by blast
qed

lemma exec_waits:
  assumes sim: "sim s c as rs db" and u: "0 < u" and rm: "room db" and k: "command_key cmd = Some j"
    and v: "c v = Some b" "v \<noteq> u" "k \<in> set (tx_locks (tx_of db b))" "slot j = slot k"
  shows "exec_command u junk cmd result (c u) db = Inl Blocked"
proof -
  have inv: "db_inv c as rs db" by (rule simD [OF sim])
  have bl: "kv_lm_wlock u (db_lm db) j = Inl Blocked" by (rule wlock_held [OF inv u v])
  show ?thesis
  proof (cases "c u")
    case (Some a)
    then show ?thesis using rest_blocked [OF inv db_invD(6) [OF inv Some] bl k]
      by (simp add: exec_data [OF k] ensure_tx_def)
  next
    case None
    obtain a db1 where b: "begin_tx db = Inr (a, db1)" "db_lm db1 = db_lm db"
      "sim (s\<lparr>running := (running s)(u \<mapsto> [])\<rparr>) (c(u \<mapsto> a)) (as @ [a]) (rs @ [begin_rec db]) db1"
      by (rule begin_step [OF sim None u rm])
    have "kv_lm_wlock u (db_lm db1) j = Inl Blocked" "a \<in> set (as @ [a])" using bl b(2) by simp_all
    then show ?thesis using rest_blocked [OF simD(1) [OF b(3)] _ _ k] b(1) None
      by (simp add: exec_data [OF k] ensure_tx_def)
  qed
qed

lemma alone_not_held:
  assumes "db_inv c as rs db" "\<forall>v. v \<noteq> u \<longrightarrow> c v = None" "v \<noteq> u"
  shows "lm_held (db_lm db) v i = 0"
  using held_owner [OF assms(1), of v i] assms(2,3) by (cases "lm_held (db_lm db) v i") auto

lemma only_tx:
  assumes inv: "db_inv c as rs db" and u: "c u = Some a" and alone: "\<forall>v. v \<noteq> u \<longrightarrow> c v = None"
  shows "as = [a]"
proof -
  have "b = a" if b: "b \<in> set as" for b
  proof -
    obtain v where "c v = Some b" using db_invD(10) [OF inv b] by blast
    then show ?thesis using u alone by (cases "v = u") simp_all
  qed
  moreover have "a \<in> set as" by (rule db_invD(6) [OF inv u])
  ultimately have "set as = {a}" by blast
  moreover have "distinct as" using db_invD(1) [OF inv] by (rule txm_repD)
  ultimately show ?thesis by (cases as) (auto simp: subset_singleton_iff)
qed

lemma run_outcome:
  assumes run: "sys_run es sg" and rm: "room (sys_db sg)" and u: "0 < u" "sys_wait sg u = None"
    and small: "command_small cmd" and len: "length result = RESULT_SIZE"
  obtains (answered) s result' c_tx db' where "accepts es empty_store = Some s"
      "exec_command u junk cmd result (sys_tx sg u) (sys_db sg) = Inr (result', c_tx, db')"
      "cstr result' = fst (spec_command u cmd s)"
    | (waits) v b k j where "exec_command u junk cmd result (sys_tx sg u) (sys_db sg) = Inl Blocked"
      "command_key cmd = Some j" "v \<noteq> u" "sys_tx sg v = Some b" "k \<in> sys_locks sg b" "slot j = slot k"
    | (faults) v where "exec_command u junk cmd result (sys_tx sg u) (sys_db sg) = Inl Uninit" "v \<noteq> u" "sys_tx sg v \<noteq> None"
proof -
  obtain s as rs where inv: "sim s (sys_tx sg) as rs (sys_db sg)" "accepts es empty_store = Some (hide sg s)"
    by (rule run_simE [OF run])
  have r: "refines u cmd s (sys_tx sg) rs (sys_db sg) (exec_command u junk cmd result (sys_tx sg u) (sys_db sg))"
    by (rule exec_command_refines [OF inv(1) u(1) rm small len])
  have sp: "fst (spec_command u cmd (hide sg s)) = fst (spec_command u cmd s)" using spec_hide [of sg u] u(2) by simp
  from r show thesis unfolding refines_def
  proof (elim disjE exE conjE)
    fix k v
    assume w: "exec_command u junk cmd result (sys_tx sg u) (sys_db sg) = Inl Blocked" "command_key cmd = Some k" "v \<noteq> u"
      "0 < lm_held (db_lm (sys_db sg)) v (slot k)"
    obtain b where "sys_tx sg v = Some b" "slot k \<in> slot ` sys_locks sg b"
      using held_owner [OF simD(1) [OF inv(1)] w(4)] by blast
    then show thesis using waits [OF w(1-3)] by auto
  next
    fix result' c_tx db' as' qs
    assume "exec_command u junk cmd result (sys_tx sg u) (sys_db sg) = Inr (result', c_tx, db')"
      "cstr result' = fst (spec_command u cmd s)"
    then show thesis using answered [OF inv(2)] sp by simp
  next
    fix v assume "exec_command u junk cmd result (sys_tx sg u) (sys_db sg) = Inl Uninit" "v \<noteq> u" "sys_tx sg v \<noteq> None"
    then show thesis by (rule faults)
  qed
qed

end
