(* ===== verification/Sample_Runs.thy ===== *)
theory Sample_Runs
  imports Sys_Steps
begin

text \<open>
  Runs that exist: how a run can be made longer by the start of a transaction, a data command
  whose key is free, a wait for a key that is not, and a commit; and the sample runs to which the
  properties are applied.
\<close>

section \<open>Making a run longer\<close>

lemma run_waits_small: "sys_run es sg \<Longrightarrow> waits_small sg"
  by (induction rule: sys_run.induct) (simp_all add: waits_small_def init_sys_def)

text \<open>A client without a transaction can always start one.\<close>

lemma begin_more:
  assumes run: "sys_run es sg" and rm: "room (sys_db sg)" and u: "0 < u" "sys_tx sg u = None" "sys_wait sg u = None"
  obtains sg' a where "sys_run (es @ [(u, C_Begin, transaction_started)]) sg'" "sys_tx sg' = (sys_tx sg)(u \<mapsto> a)"
    "sys_step sg [(u, C_Begin, transaction_started)] sg'"
    "sys_wait sg' = sys_wait sg" "sys_files sg' = sys_files sg" "db_lm (sys_db sg') = db_lm (sys_db sg)"
    "unat (rec_lsn (db_rec (sys_db sg'))) = unat (rec_lsn (db_rec (sys_db sg))) + 1"
    "unat (transaction_id (db_txm (sys_db sg'))) = unat (transaction_id (db_txm (sys_db sg))) + 1"
proof -
  let ?db = "sys_db sg" and ?r = "replicate 64 NUL"
  obtain s as rs where sim: "sim s (sys_tx sg) as rs ?db" by (rule run_simE [OF run])
  have ids: "unat (transaction_id (db_txm ?db)) + 1 < 2 ^ 32" "length rs + 1 < 2 ^ 32"
    using rm room_length [OF sim rm] by (simp_all add: room_def)
  obtain a db' where b: "begin_tx ?db = Inr (a, db')" "db_lm db' = db_lm ?db"
    "transaction_id (db_txm db') = transaction_id (db_txm ?db) + 1"
    "sim (s\<lparr>running := (running s)(u \<mapsto> [])\<rparr>) ((sys_tx sg)(u \<mapsto> a)) (as @ [a]) (rs @ [begin_rec ?db]) db'"
    using begin_tx_sim [OF sim u(2,1) ids] by blast
  obtain result' where r: "strcpy ?r transaction_started = Inr result'" "cstr result' = transaction_started"
    using strcpy_reply [of ?r transaction_started] by auto
  let ?sg = "sg\<lparr>sys_db := db', sys_tx := (sys_tx sg)(u := Some a)\<rparr>"
  have "exec_command u [] C_Begin ?r (sys_tx sg u) ?db = Inr (result', Some a, db')"
    using b(1) r(1) u(2) by (simp add: run_begin_def)
  then have st: "sys_step sg [(u, C_Begin, cstr result')] ?sg" using u(1,3) by (intro step_command) simp_all
  have "waits_small ?sg" using run_waits_small [OF run] by (simp add: waits_small_def)
  then have "sys_run (es @ [(u, C_Begin, cstr result')]) ?sg" using st by (intro run_step [OF run rm]) simp_all
  moreover have "unat (rec_lsn (db_rec db')) = unat (rec_lsn (db_rec ?db)) + 1"
    using log_rep_length [OF db_invD(4) [OF simD(1) [OF sim]]] log_rep_length [OF db_invD(4) [OF simD(1) [OF b(4)]]] by simp
  moreover have "unat (transaction_id (db_txm db')) = unat (transaction_id (db_txm ?db)) + 1"
    using b(3) ids(1) by (simp add: unat_word_ariths)
  ultimately show thesis using b(2) r(2) st by (intro that [of ?sg a]) simp_all
qed

text \<open>In a transaction, a data command on a key whose slot is free is answered; it locks the key.\<close>

lemma data_more:
  assumes run: "sys_run es sg" and rm: "room (sys_db sg)" and u: "sys_tx sg u = Some a" "sys_wait sg u = None"
    and k: "command_key cmd = Some k" and small: "command_small cmd"
    and free: "\<And>v. v \<noteq> u \<Longrightarrow> lm_held (db_lm (sys_db sg)) v (slot k) = 0"
  obtains sg' m where "sys_run (es @ [(u, cmd, data_reply cmd m)]) sg'" "sys_tx sg' = sys_tx sg"
    "sys_wait sg' = sys_wait sg" "sys_files sg' = sys_files sg" "k \<in> sys_locks sg' a"
    "\<And>v i. lm_held (db_lm (sys_db sg')) v i = lm_held (db_lm (sys_db sg)) v i + (if v = u \<and> i = slot k then 1 else 0)"
    "unat (rec_lsn (db_rec (sys_db sg'))) = unat (rec_lsn (db_rec (sys_db sg))) + length (data_writes cmd m)"
    "transaction_id (db_txm (sys_db sg')) = transaction_id (db_txm (sys_db sg))"
    "\<And>v b. v \<noteq> u \<Longrightarrow> sys_tx sg v = Some b \<Longrightarrow> tx_of (sys_db sg') b = tx_of (sys_db sg) b"
proof -
  let ?db = "sys_db sg" and ?r = "replicate 64 NUL"
  obtain s as rs where sim: "sim s (sys_tx sg) as rs ?db" by (rule run_simE [OF run])
  note inv = simD(1) [OF sim]
  have u0: "0 < u" by (rule db_invD(5) [OF inv u(1)])
  obtain ops where ops: "running s u = Some ops" by (rule sim_opsE [OF sim u(1)])
  have rl: "length rs + 1 < 2 ^ 32" using room_length [OF sim rm] by simp
  obtain lm where lm: "kv_lm_wlock u (db_lm ?db) k = Inr lm"
    by (rule wlock_cases [OF inv u0, of k]) (use free in auto)
  have len: "length ?r = RESULT_SIZE" by simp
  let ?m = "tx_view (committed s) ops"
  obtain result' db' qs where r: "rest_of_data u [] cmd ?r a False ?db = Inr (result', Some a, db')"
    "cstr result' = data_reply cmd ?m" "sim (add_op u ops cmd s) (sys_tx sg) as (rs @ qs) db'"
    "log_step u (sys_tx sg) ?db (Some a) qs db'" "db_lm db' = lm" "length qs = length (data_writes cmd ?m)"
    using rest_in_tx [OF sim u(1) ops rl k small len lm, of "[]"] by blast
  let ?sg = "sg\<lparr>sys_db := db', sys_tx := (sys_tx sg)(u := Some a)\<rparr>"
  have tx: "sys_tx ?sg = sys_tx sg" using u(1) by (simp add: fun_upd_idem_iff)
  have "exec_command u [] cmd ?r (sys_tx sg u) ?db = Inr (result', Some a, db')"
    unfolding exec_data [OF k] using r(1) u(1) by (simp add: ensure_tx_def)
  then have st: "sys_step sg [(u, cmd, cstr result')] ?sg" using u0 u(2) len by (intro step_command)
  have "waits_small ?sg" using run_waits_small [OF run] by (simp add: waits_small_def)
  then have "sys_run (es @ [(u, cmd, cstr result')]) ?sg" using st small by (intro run_step [OF run rm]) simp_all
  moreover have "unat (rec_lsn (db_rec db')) = unat (rec_lsn (db_rec ?db)) + length (data_writes cmd ?m)"
    using log_rep_length [OF db_invD(4) [OF inv]] log_rep_length [OF db_invD(4) [OF simD(1) [OF r(3)]]] r(6) by simp
  moreover have "transaction_id (db_txm db') = transaction_id (db_txm ?db)" using r(4) u(1) by (simp add: log_step_def)
  moreover have "k \<in> set (tx_locks (tx_of db' a))"
  proof -
    obtain ops' where "running (add_op u ops cmd s) u = Some ops'" "tx_keys ops' \<subseteq> set (tx_locks (tx_of db' a))"
      using sim_opsE [OF r(3) u(1)] unfolding tx_sim_def by metis
    then show ?thesis using k by auto
  qed
  moreover have "tx_of db' b = tx_of ?db b" if "v \<noteq> u" "sys_tx sg v = Some b" for v b
    using r(4) that by (simp add: log_step_def)
  ultimately show thesis using tx r(2,5) lm.acquire_held [OF db_invD(2) [OF inv] u0 lm]
    by (intro that [of ?m ?sg]) simp_all
qed

text \<open>On a key another thread holds it waits.\<close>

lemma wait_more:
  assumes run: "sys_run es sg" and rm: "room (sys_db sg)" and u: "sys_tx sg u = Some a" "sys_wait sg u = None"
    and k: "command_key cmd = Some k" and small: "command_small cmd"
    and v: "v \<noteq> u" "sys_tx sg v = Some b" "j \<in> sys_locks sg b" "slot k = slot j"
  shows "sys_run es (sg\<lparr>sys_wait := (sys_wait sg)(u \<mapsto> (cmd, False))\<rparr>)"
proof -
  let ?sg = "sg\<lparr>sys_wait := (sys_wait sg)(u \<mapsto> (cmd, False))\<rparr>"
  obtain s as rs where sim: "sim s (sys_tx sg) as rs (sys_db sg)" by (rule run_simE [OF run])
  note inv = simD(1) [OF sim]
  have u0: "0 < u" by (rule db_invD(5) [OF inv u(1)])
  have "kv_lm_wlock u (db_lm (sys_db sg)) k = Inl Blocked" by (rule wlock_held [OF inv u0 v(2,1,3,4)])
  then have "sys_step sg [] (sg\<lparr>sys_db := sys_db sg, sys_tx := (sys_tx sg)(u \<mapsto> a), sys_wait := (sys_wait sg)(u \<mapsto> (cmd, False))\<rparr>)"
    using u0 u k by (intro step_wait) (simp_all add: ensure_tx_def)
  moreover have "sg\<lparr>sys_db := sys_db sg, sys_tx := (sys_tx sg)(u \<mapsto> a), sys_wait := (sys_wait sg)(u \<mapsto> (cmd, False))\<rparr> = ?sg"
    using u(1) by (cases sg) (simp add: fun_upd_idem_iff)
  ultimately have st: "sys_step sg [] ?sg" by simp
  have "waits_small ?sg" using run_waits_small [OF run] small by (simp add: waits_small_def)
  then have "sys_run (es @ []) ?sg" using st by (intro run_step [OF run rm]) simp_all
  then show ?thesis by simp
qed

text \<open>The oldest transaction can always commit.\<close>

lemma commit_step:
  assumes run: "sys_run es sg" and rm: "room (sys_db sg)" and u: "sys_tx sg u = Some a" "sys_wait sg u = None"
    and sim: "sim s (sys_tx sg) (a # as) rs (sys_db sg)"
  shows "\<exists>sg'. sys_run (es @ [(u, C_Commit, transaction_committed)]) sg' \<and> sys_tx sg' = (sys_tx sg)(u := None) \<and>
    sys_wait sg' = sys_wait sg \<and> rec_lsn (db_rec (sys_db sg')) = rec_lsn (db_rec (sys_db sg)) + 1 \<and>
    transaction_id (db_txm (sys_db sg')) = transaction_id (db_txm (sys_db sg))"
proof -
  let ?r = "replicate 64 NUL"
  obtain ops where ops: "running s u = Some ops" by (rule sim_opsE [OF sim u(1)])
  have rl: "length rs + 1 < 2 ^ 32" using room_length [OF sim rm] by simp
  obtain db where c: "commit_tx u a (sys_db sg) = Inr db" "rec_lsn (db_rec db) = rec_lsn (db_rec (sys_db sg)) + 1"
    "transaction_id (db_txm db) = transaction_id (db_txm (sys_db sg))"
    using commit_tx_sim [OF sim u(1) ops rl] by blast
  obtain result' where r: "strcpy ?r transaction_committed = Inr result'" "cstr result' = transaction_committed"
    using strcpy_reply [of ?r transaction_committed] by auto
  let ?sg = "sg\<lparr>sys_db := db, sys_tx := (sys_tx sg)(u := None)\<rparr>"
  have "exec_command u [] C_Commit ?r (sys_tx sg u) (sys_db sg) = Inr (result', None, db)"
    using c(1) r(1) u(1) by (simp add: run_commit_def)
  then have st: "sys_step sg [(u, C_Commit, cstr result')] ?sg"
    using db_invD(5) [OF simD(1) [OF sim] u(1)] u(2) by (intro step_command) simp_all
  have "waits_small ?sg" using run_waits_small [OF run] by (simp add: waits_small_def)
  then have "sys_run (es @ [(u, C_Commit, cstr result')]) ?sg" using st by (intro run_step [OF run rm]) simp_all
  then show ?thesis using c(2,3) r(2) by (intro exI [of _ ?sg]) simp
qed

section \<open>Sample runs\<close>

lemma begin_run: "\<exists>sg a. sys_run [(1, C_Begin, transaction_started)] sg \<and> room (sys_db sg) \<and>
   sys_wait sg = (\<lambda>_. None) \<and> sys_tx sg = [1 \<mapsto> a] \<and> (\<forall>v i. lm_held (db_lm (sys_db sg)) v i = 0) \<and>
   rec_lsn (db_rec (sys_db sg)) = 1 \<and> transaction_id (db_txm (sys_db sg)) = 1 \<and> last_lsn_file (sys_files sg) = None"
proof -
  have rm: "room (sys_db init_sys)" by (simp add: init_sys_def room_def fresh_db_def)
  have "lm_held (db_lm (sys_db init_sys)) v i = 0" for v i
    using db_invD(8) [OF simD(1) [OF sim_fresh], of v] by (simp add: init_sys_def lm.holds_exactly_def)
  moreover have "sys_tx init_sys = (\<lambda>_. None)" "sys_wait init_sys = (\<lambda>_. None)" "last_lsn_file (sys_files init_sys) = None"
    "unat (rec_lsn (db_rec (sys_db init_sys))) = 0" "unat (transaction_id (db_txm (sys_db init_sys))) = 0"
    by (simp_all add: init_sys_def fresh_db_def)
  moreover from this obtain sg a where "sys_run ([] @ [(1, C_Begin, transaction_started)]) sg" "sys_tx sg = (sys_tx init_sys)(1 \<mapsto> a)"
    "sys_wait sg = sys_wait init_sys" "sys_files sg = sys_files init_sys" "db_lm (sys_db sg) = db_lm (sys_db init_sys)"
    "unat (rec_lsn (db_rec (sys_db sg))) = 0 + 1" "unat (transaction_id (db_txm (sys_db sg))) = 0 + 1"
    by (metis begin_more [OF run_init rm, of 1] zero_less_one)
  ultimately show ?thesis by (intro exI [of _ sg] exI [of _ a]) (simp add: room_def word_unat_eq_iff)
qed

lemma set_run: "\<exists>sg a. sys_run [(1, C_Begin, transaction_started), (1, C_Set ''k'' ''v'', set_success)] sg \<and>
   room (sys_db sg) \<and> sys_wait sg = (\<lambda>_. None) \<and> sys_tx sg = [1 \<mapsto> a] \<and> ''k'' \<in> sys_locks sg a \<and>
   unat (rec_lsn (db_rec (sys_db sg))) = 2 \<and> transaction_id (db_txm (sys_db sg)) = 1 \<and> last_lsn_file (sys_files sg) = None"
proof -
  let ?cmd = "C_Set ''k'' ''v''"
  obtain sg a where sg: "sys_run [(1, C_Begin, transaction_started)] sg" "room (sys_db sg)" "sys_wait sg = (\<lambda>_. None)"
    "sys_tx sg = [1 \<mapsto> a]" "\<forall>v i. lm_held (db_lm (sys_db sg)) v i = 0" "rec_lsn (db_rec (sys_db sg)) = 1"
    "transaction_id (db_txm (sys_db sg)) = 1" "last_lsn_file (sys_files sg) = None"
    using begin_run by blast
  have u: "sys_tx sg 1 = Some a" "sys_wait sg 1 = None" and k: "command_key ?cmd = Some ''k''" and small: "command_small ?cmd"
    using sg(3,4) by (simp_all add: small_str_def)
  obtain sg' m where r: "sys_run ([(1, C_Begin, transaction_started)] @ [(1, ?cmd, data_reply ?cmd m)]) sg'"
    "sys_tx sg' = sys_tx sg" "sys_wait sg' = sys_wait sg" "sys_files sg' = sys_files sg" "''k'' \<in> sys_locks sg' a"
    "unat (rec_lsn (db_rec (sys_db sg'))) = unat (rec_lsn (db_rec (sys_db sg))) + length (data_writes ?cmd m)"
    "transaction_id (db_txm (sys_db sg')) = transaction_id (db_txm (sys_db sg))"
    by (rule data_more [OF sg(1,2) u k small]) (use sg(5) in simp_all)
  then show ?thesis using sg(3,4,6-8) by (intro exI [of _ sg'] exI [of _ a]) (simp add: room_def)
qed

lemma commit_run: "\<exists>sg. sys_run [(1, C_Begin, transaction_started), (1, C_Set ''k'' ''v'', set_success), (1, C_Commit, transaction_committed)] sg \<and>
   sys_tx sg = (\<lambda>_. None) \<and> unat (rec_lsn (db_rec (sys_db sg))) = 3 \<and> transaction_id (db_txm (sys_db sg)) = 1"
proof -
  obtain sg a where sg: "sys_run [(1, C_Begin, transaction_started), (1, C_Set ''k'' ''v'', set_success)] sg" "room (sys_db sg)"
    "sys_wait sg = (\<lambda>_. None)" "sys_tx sg = [1 \<mapsto> a]"
    and small: "unat (rec_lsn (db_rec (sys_db sg))) = 2" "transaction_id (db_txm (sys_db sg)) = 1" using set_run by blast
  have a: "sys_tx sg 1 = Some a" "sys_wait sg 1 = None" using sg(3,4) by simp_all
  obtain s as rs where sim: "sim s (sys_tx sg) as rs (sys_db sg)" by (rule run_simE [OF sg(1)])
  have "as = [a]" by (rule only_tx [OF simD(1) [OF sim] a(1)]) (simp add: sg(4))
  then have sim1: "sim s (sys_tx sg) [a] rs (sys_db sg)" using sim by simp
  have "unat (rec_lsn (db_rec (sys_db sg)) + 1) = unat (rec_lsn (db_rec (sys_db sg))) + 1"
    using small(1) by (simp add: unat_word_ariths)
  then show ?thesis using commit_step [OF sg(1,2) a sim1] small sg(4) by auto
qed

lemma wait_run: "\<exists>sg a. sys_run [(1, C_Begin, transaction_started), (1, C_Set ''k'' ''v'', set_success), (1, C_Commit, transaction_committed)] sg \<and>
   room (sys_db sg) \<and> sys_wait sg = [2 \<mapsto> (C_Get ''k'', True)] \<and> sys_tx sg = [2 \<mapsto> a]"
proof -
  let ?r = "replicate 64 NUL"
  obtain sg a where sg: "sys_run [(1, C_Begin, transaction_started), (1, C_Set ''k'' ''v'', set_success)] sg" "room (sys_db sg)"
    "sys_wait sg = (\<lambda>_. None)" "sys_tx sg = [1 \<mapsto> a]" "''k'' \<in> sys_locks sg a" 
    and small0: "unat (rec_lsn (db_rec (sys_db sg))) = 2" "transaction_id (db_txm (sys_db sg)) = 1" using set_run by blast
  obtain s as rs where sim: "sim s (sys_tx sg) as rs (sys_db sg)" by (rule run_simE [OF sg(1)])
  note inv = simD(1) [OF sim]
  have as: "as = [a]" by (rule only_tx [OF inv, of 1]) (simp_all add: sg(4))
  have none: "sys_tx sg 2 = None" using sg(4) by simp
  obtain b db1 where b: "begin_tx (sys_db sg) = Inr (b, db1)" "b \<notin> set as" "db_lm db1 = db_lm (sys_db sg)"
    "sim (s\<lparr>running := (running s)(2 \<mapsto> [])\<rparr>) ((sys_tx sg)(2 \<mapsto> b)) (as @ [b]) (rs @ [begin_rec (sys_db sg)]) db1"
    "log_step 2 (sys_tx sg) (sys_db sg) (Some b) [begin_rec (sys_db sg)] db1"
    by (rule begin_step [OF sim none _ sg(2)]) simp_all
  let ?sg1 = "sg\<lparr>sys_db := db1, sys_tx := (sys_tx sg)(2 \<mapsto> b), sys_wait := (sys_wait sg)(2 \<mapsto> (C_Get ''k'', True))\<rparr>"
  have "kv_lm_wlock 2 (db_lm db1) ''k'' = Inl Blocked"
    using wlock_held [OF inv, of 2 1 a "''k''" "''k''"] sg(4,5) b(3) by simp
  then have st1: "sys_step sg [] ?sg1" using sg(3) b(1) none by (intro step_wait [where k = "''k''"]) (simp_all add: ensure_tx_def)
  have w1: "waits_small ?sg1" using sg(3) by (simp add: waits_small_def)
  have run1: "sys_run ([(1, C_Begin, transaction_started), (1, C_Set ''k'' ''v'', set_success)] @ []) ?sg1"
    using w1 by (intro run_step [OF sg(1,2) st1]) simp_all
  have "unat (rec_lsn (db_rec db1)) = unat (rec_lsn (db_rec (sys_db sg))) + 1"
    using log_rep_length [OF db_invD(4) [OF inv]] log_rep_length [OF db_invD(4) [OF simD(1) [OF b(4)]]] by simp
  moreover have "transaction_id (db_txm db1) = 2" using b(5) none small0(2) by (simp add: log_step_def)
  ultimately have room1: "room (sys_db ?sg1)" and small1: "unat (rec_lsn (db_rec db1)) \<le> 3" "transaction_id (db_txm db1) = 2"
    using small0(1) by (simp_all add: room_def)
  obtain ops where ops: "running s 1 = Some ops" using sim_opsE [OF sim, of 1 a] sg(4) by auto
  have sim1: "sim (s\<lparr>running := (running s)(2 \<mapsto> [])\<rparr>) ((sys_tx sg)(2 \<mapsto> b)) (a # [b]) (rs @ [begin_rec (sys_db sg)]) db1"
    using b(4) as by simp
  have a1: "sys_tx ?sg1 1 = Some a" "sys_wait ?sg1 1 = None" using sg(3,4) by simp_all
  have sim1': "sim (s\<lparr>running := (running s)(2 \<mapsto> [])\<rparr>) (sys_tx ?sg1) (a # [b]) (rs @ [begin_rec (sys_db sg)]) (sys_db ?sg1)"
    using sim1 by simp
  obtain sg2 where sg2: "sys_run (([(1, C_Begin, transaction_started), (1, C_Set ''k'' ''v'', set_success)] @ []) @ [(1, C_Commit, transaction_committed)]) sg2"
    "sys_tx sg2 = (sys_tx ?sg1)(1 := None)" "sys_wait sg2 = sys_wait ?sg1" "rec_lsn (db_rec (sys_db sg2)) = rec_lsn (db_rec db1) + 1"
    "transaction_id (db_txm (sys_db sg2)) = transaction_id (db_txm db1)"
    using commit_step [OF run1 room1 a1 sim1'] by auto
  have "unat (rec_lsn (db_rec db1) + 1) \<le> unat (rec_lsn (db_rec db1)) + 1" by (simp add: unat_word_ariths)
  then have "room (sys_db sg2)" using sg2(4,5) small1 by (simp add: room_def)
  moreover have "sys_tx sg2 = [2 \<mapsto> b]" using sg(4) sg2(2) by (simp add: fun_eq_iff)
  ultimately show ?thesis using sg2(1,3) sg(3) by (intro exI [of _ sg2] exI [of _ b]) simp
qed

end
