(* ===== verification/Deadlock.thy ===== *)
theory Deadlock
  imports Sample_Runs
begin

text \<open>
  Threads that wait for each other.  A thread waits while another holds the lock of its key, and a
  transaction keeps its locks to its end; nothing in the server looks for cycles, and a wait has
  no time limit.  The lemmas follow a set of threads that wait for each other through
  every continuation of a run.
\<close>

section \<open>Definitions\<close>

text \<open>\<open>waits_for sg u v\<close>: the key of the command of \<open>u\<close> has the slot of a key \<open>v\<close> has locked.\<close>

definition waits_for :: "kv_sys \<Rightarrow> thread \<Rightarrow> thread \<Rightarrow> bool" where
  "waits_for sg u v \<longleftrightarrow> v \<noteq> u \<and> (\<exists>cmd single j b k. sys_wait sg u = Some (cmd, single) \<and> command_key cmd = Some j \<and>
     sys_tx sg v = Some b \<and> k \<in> sys_locks sg b \<and> slot j = slot k)"

definition deadlocked :: "thread set \<Rightarrow> kv_sys \<Rightarrow> bool" where
  "deadlocked us sg \<longleftrightarrow> (\<forall>u \<in> us. \<exists>v \<in> us. waits_for sg u v)"

text \<open>Everything that can happen from a state on, within the bounds of \<open>sys_run\<close>.\<close>

inductive run_from :: "kv_sys \<Rightarrow> event list \<Rightarrow> kv_sys \<Rightarrow> bool" for sg where
  from_here: "run_from sg [] sg"
| from_step: "run_from sg es sg1 \<Longrightarrow> room (sys_db sg1) \<Longrightarrow> sys_step sg1 e sg' \<Longrightarrow>
    \<forall>(u, cmd, r) \<in> set e. command_small cmd \<Longrightarrow> waits_small sg' \<Longrightarrow> run_from sg (es @ e) sg'"

section \<open>Lemmas\<close>

lemma run_from_run: "run_from sg fs sg' \<Longrightarrow> sys_run es sg \<Longrightarrow> sys_run (es @ fs) sg'"
  by (induction rule: run_from.induct) (auto simp flip: append_assoc intro: run_step)

text \<open>A thread that waits for another is not served.\<close>

lemma waiting_not_served:
  assumes inv: "sys_inv es sg s as rs" and w: "waits_for sg u v"
    and st: "tx_step_by t sg qs sg'" "acts t sg e sg'"
  shows "t \<noteq> u"
proof
  assume t: "t = u"
  obtain cmd single j b k where c: "sys_wait sg u = Some (cmd, single)" "command_key cmd = Some j" "v \<noteq> u"
    "sys_tx sg v = Some b" "k \<in> sys_locks sg b" "slot j = slot k" using w unfolding waits_for_def by blast
  have db: "db_inv (sys_tx sg) as rs (sys_db sg)" using inv simD(1) unfolding sys_inv_def by blast
  obtain a where "sys_tx sg u = Some a" using inv c(1) unfolding sys_inv_def waits_ok_def by blast
  then have "0 < u" by (rule db_invD(5) [OF db])
  then have "kv_lm_wlock u (db_lm (sys_db sg)) j = Inl Blocked" by (rule wlock_held [OF db _ c(4,3,5,6)])
  then show False using st(2) c(1,2) t unfolding acts_def by blast
qed

lemma waits_for_step:
  assumes w: "waits_for sg u v" and t: "t \<noteq> u" "t \<noteq> v" and st: "tx_step_by t sg qs sg'" "acts t sg e sg'"
  shows "waits_for sg' u v"
proof -
  obtain cmd single j b k where c: "sys_wait sg u = Some (cmd, single)" "command_key cmd = Some j" "v \<noteq> u"
    "sys_tx sg v = Some b" "k \<in> sys_locks sg b" "slot j = slot k" using w unfolding waits_for_def by blast
  have "sys_wait sg' u = Some (cmd, single)" using st(2) c(1) t(1) by (simp add: acts_def)
  moreover have "sys_tx sg' v = Some b" "tx_of (sys_db sg') b = tx_of (sys_db sg) b"
    using st(1) c(4) t(2) by (auto simp: tx_step_by_def log_step_def)
  ultimately show ?thesis unfolding waits_for_def using c(2,3,5,6) by metis
qed

text \<open>One step, and every continuation.\<close>

lemma deadlocked_step:
  assumes inv: "sys_inv es sg s as rs" and dead: "deadlocked us sg" and rm: "room (sys_db sg)" and st: "sys_step sg e sg'"
    and small: "\<forall>(u, cmd, r) \<in> set e. command_small cmd" "waits_small sg'"
  shows "deadlocked us sg' \<and> fst ` set e \<inter> us = {}"
proof -
  obtain qs where "(\<exists>t. tx_step_by t sg qs sg' \<and> acts t sg e sg') \<or> e = [] \<and> check_step sg qs sg'"
    using inv_step_by [OF inv rm st small] by blast
  then show ?thesis
  proof (elim disjE exE conjE)
    fix t assume t: "tx_step_by t sg qs sg'" "acts t sg e sg'"
    have out: "t \<notin> us"
    proof
      assume "t \<in> us"
      then obtain v where "waits_for sg t v" using dead unfolding deadlocked_def by blast
      from waiting_not_served [OF inv this t] show False by simp
    qed
    have "\<exists>v \<in> us. waits_for sg' u v" if u: "u \<in> us" for u
    proof -
      obtain v where v: "v \<in> us" "waits_for sg u v" using dead u unfolding deadlocked_def by blast
      have "t \<noteq> u" "t \<noteq> v" using out u v(1) by auto
      then show ?thesis using waits_for_step [OF v(2) _ _ t] v(1) by blast
    qed
    then show ?thesis using t(2) out unfolding deadlocked_def acts_def by auto
  next
    assume "check_step sg qs sg'" "e = []"
    then have "sys_wait sg' = sys_wait sg" "sys_tx sg' = sys_tx sg" "tx_of (sys_db sg') = tx_of (sys_db sg)"
      by (auto simp: check_step_def tx_of_def)
    then show ?thesis using dead \<open>e = []\<close> by (simp add: deadlocked_def waits_for_def)
  qed
qed

text \<open>A run that deadlocks: two clients lock one key each and then ask for the key of the other.\<close>

abbreviation crossing :: "event list" where
  "crossing \<equiv> [(1, C_Begin, transaction_started), (2, C_Begin, transaction_started),
     (1, C_Set ''k'' ''v'', set_success), (2, C_Set ''j'' ''w'', set_success)]"

lemma other_slot: "slot ''k'' \<noteq> slot ''j''"
  by (simp add: slot_def default_list_size_def djb2_def schar_def push_bit_eq_mult)

lemma crossing_run: "\<exists>sg. sys_run crossing sg \<and> room (sys_db sg) \<and> deadlocked {1, 2} sg \<and>
   sys_tx sg 3 = None \<and> sys_wait sg 3 = None"
proof -
  obtain sg1 a where sg1: "sys_run [(1, C_Begin, transaction_started)] sg1" "room (sys_db sg1)" "sys_wait sg1 = (\<lambda>_. None)"
    "sys_tx sg1 = [1 \<mapsto> a]" "\<forall>v i. lm_held (db_lm (sys_db sg1)) v i = 0" "rec_lsn (db_rec (sys_db sg1)) = 1"
    "transaction_id (db_txm (sys_db sg1)) = 1" using begin_run by blast
  obtain sg2 b where sg2: "sys_run ([(1, C_Begin, transaction_started)] @ [(2, C_Begin, transaction_started)]) sg2"
    "sys_tx sg2 = (sys_tx sg1)(2 \<mapsto> b)" "sys_wait sg2 = sys_wait sg1" "db_lm (sys_db sg2) = db_lm (sys_db sg1)"
    "unat (rec_lsn (db_rec (sys_db sg2))) = unat (rec_lsn (db_rec (sys_db sg1))) + 1"
    "unat (transaction_id (db_txm (sys_db sg2))) = unat (transaction_id (db_txm (sys_db sg1))) + 1"
    by (rule begin_more [OF sg1(1,2), of 2]) (simp_all add: sg1(3,4))
  have rm2: "room (sys_db sg2)" using sg2(5,6) sg1(6,7) by (simp add: room_def)
  obtain sg3 m where sg3: "sys_run (([(1, C_Begin, transaction_started)] @ [(2, C_Begin, transaction_started)]) @
      [(1, C_Set ''k'' ''v'', data_reply (C_Set ''k'' ''v'') m)]) sg3"
    "sys_tx sg3 = sys_tx sg2" "sys_wait sg3 = sys_wait sg2" "''k'' \<in> sys_locks sg3 a"
    "\<And>v i. lm_held (db_lm (sys_db sg3)) v i = lm_held (db_lm (sys_db sg2)) v i + (if v = 1 \<and> i = slot ''k'' then 1 else 0)"
    "unat (rec_lsn (db_rec (sys_db sg3))) = unat (rec_lsn (db_rec (sys_db sg2))) + length (data_writes (C_Set ''k'' ''v'') m)"
    "transaction_id (db_txm (sys_db sg3)) = transaction_id (db_txm (sys_db sg2))"
    by (rule data_more [OF sg2(1) rm2, of 1 a "C_Set ''k'' ''v''" "''k''"])
      (simp_all add: sg1(3-5) sg2(2-4) small_str_def)
  have rm3: "room (sys_db sg3)" using sg3(6,7) sg2(5,6) sg1(6,7) by (simp add: room_def)
  obtain sg4 m' where sg4: "sys_run ((([(1, C_Begin, transaction_started)] @ [(2, C_Begin, transaction_started)]) @
      [(1, C_Set ''k'' ''v'', data_reply (C_Set ''k'' ''v'') m)]) @ [(2, C_Set ''j'' ''w'', data_reply (C_Set ''j'' ''w'') m')]) sg4"
    "sys_tx sg4 = sys_tx sg3" "sys_wait sg4 = sys_wait sg3" "''j'' \<in> sys_locks sg4 b"
    "unat (rec_lsn (db_rec (sys_db sg4))) = unat (rec_lsn (db_rec (sys_db sg3))) + length (data_writes (C_Set ''j'' ''w'') m')"
    "transaction_id (db_txm (sys_db sg4)) = transaction_id (db_txm (sys_db sg3))"
    "\<And>v d. v \<noteq> 2 \<Longrightarrow> sys_tx sg3 v = Some d \<Longrightarrow> tx_of (sys_db sg4) d = tx_of (sys_db sg3) d"
    by (rule data_more [OF sg3(1) rm3, of 2 b "C_Set ''j'' ''w''" "''j''"])
      (simp_all add: sg1(3-5) sg2(2-4) sg3(2,3,5) small_str_def other_slot other_slot [symmetric])
  have rm4: "room (sys_db sg4)" using sg4(5,6) sg3(6,7) sg2(5,6) sg1(6,7) by (simp add: room_def)
  have tx: "sys_tx sg4 1 = Some a" "sys_tx sg4 2 = Some b" "sys_tx sg4 3 = None" "sys_wait sg4 = (\<lambda>_. None)"
    "''k'' \<in> sys_locks sg4 a"
    using sg1(3,4) sg2(2,3) sg3(2-4) sg4(2,3) sg4(7) [of 1 a] by simp_all
  let ?sg5 = "sg4\<lparr>sys_wait := (sys_wait sg4)(1 \<mapsto> (C_Get ''j'', False))\<rparr>"
  have run5: "sys_run crossing ?sg5"
    using wait_more [OF sg4(1) rm4 tx(1), of "C_Get ''j''" "''j''" 2 b "''j''"] tx(2,4) sg4(4) by simp
  let ?sg6 = "?sg5\<lparr>sys_wait := (sys_wait ?sg5)(2 \<mapsto> (C_Get ''k'', False))\<rparr>"
  have run6: "sys_run crossing ?sg6"
    using wait_more [OF run5, of 2 b "C_Get ''k''" "''k''" 1 a "''k''"] rm4 tx by simp
  have "waits_for ?sg6 1 2" "waits_for ?sg6 2 1" using tx sg4(4) by (auto simp: waits_for_def)
  then have "deadlocked {1, 2} ?sg6" by (auto simp: deadlocked_def)
  then show ?thesis using run6 rm4 tx(3,4) by (intro exI [of _ ?sg6]) simp
qed

section \<open>Properties\<close>

text \<open>
  C15. A deadlock is for ever.  Threads each of which waits for a key another of them has
  locked are never answered, whatever the other threads and the checkpoint thread do.
\<close>

theorem deadlock_forever:
  assumes run: "sys_run es sg" and dead: "deadlocked us sg" and more: "run_from sg fs sg'"
  shows "deadlocked us sg' \<and> (\<forall>(u, cmd, r) \<in> set fs. u \<notin> us)"
  using more
proof (induction rule: run_from.induct)
  case from_here
  show ?case using dead by simp
next
  case (from_step fs sg1 e sg')
  obtain s as rs where "sys_inv (es @ fs) sg1 s as rs" using run_inv [OF run_from_run [OF from_step.hyps(1) run]] by blast
  from deadlocked_step [OF this _ from_step.hyps(2-5), of us] from_step.IH show ?case by fastforce
qed

theorem deadlock_forever_witness:
  "\<exists>sg sg'. sys_run crossing sg \<and> run_from sg [(3, C_Begin, transaction_started)] sg' \<and> deadlocked {1, 2} sg'"
proof -
  obtain sg where sg: "sys_run crossing sg" "room (sys_db sg)" "deadlocked {1, 2} sg" "sys_tx sg 3 = None" "sys_wait sg 3 = None"
    using crossing_run by blast
  obtain sg' where sg': "sys_run (crossing @ [(3, C_Begin, transaction_started)]) sg'" "sys_step sg [(3, C_Begin, transaction_started)] sg'"
    by (rule begin_more [OF sg(1,2), of 3]) (simp_all add: sg(4,5))
  have "run_from sg ([] @ [(3, C_Begin, transaction_started)]) sg'"
    by (rule from_step [OF from_here sg(2) sg'(2)]) (simp_all add: run_waits_small [OF sg'(1)])
  then have "run_from sg [(3, C_Begin, transaction_started)] sg'" by simp
  with deadlock_forever [OF sg(1,3)] sg(1) show ?thesis by blast
qed

end
