(* ===== verification/Interleaving.thy ===== *)
theory Interleaving
  imports Sample_Runs
begin

text \<open>
  The server in smaller steps.  A command is not one step but several, and between any two of them
  every other thread and the checkpoint thread may act: the start of its transaction, the lock
  with the record in the log, the change of the table, the COMMIT record, the end of the
  transaction with the release of its locks.  So the table can be behind the log: a record of a
  change is there and the change is not.  The change of a delete is two steps: \<open>kv_ht_del\<close> first
  computes the number of the bucket outside the mutex of the table, then searches the bucket
  inside it, and another thread's \<open>set\<close> can make the array grow in between.  \<open>raw_run\<close> has all
  interleavings of these steps, \<open>fine_run\<close> those in which the number is still the one of the key
  when the bucket is searched.

  What is one step here is one step for the other threads only as far as the locks of the code
  make it one.  Three steps span more than one critical section of the code and are not split:
  the end of a transaction (the locks are released one by one, then the transaction is taken out
  of the list, then the reply is sent; the event of the reply stands at this step), the rollback of
  an abort together with its end (the deletes in it compute their bucket outside the mutex,
  too), and a checkpoint (\<open>take_snapshot\<close>).

  The lemmas show that the replies are still those of the abstract store.  \<open>hv\<close> is everywhere the
  table the log stands for, which the real table differs from on the keys of unfinished changes.
\<close>

section \<open>Definitions\<close>

text \<open>
  Where a thread is.  \<open>Waiting\<close>: its command has a transaction and wants its lock; \<open>At_Apply\<close>: the
  record is in the log, the table not yet changed (\<open>found\<close> is what \<open>del\<close> found); \<open>At_Unlink\<close>: \<open>del\<close>
  has its bucket number and is about to take the mutex of the table; \<open>At_Commit\<close>: a
  single command is done but for its commit; \<open>At_End\<close>: the COMMIT record is in the log;
  \<open>At_Rollback\<close>: the ABORT record is.  The flag is \<open>is_single_command\<close>, the string the reply.
\<close>

datatype progress =
    Idle
  | Waiting command bool
  | At_Apply command bool bool
  | At_Unlink string nat bool
  | At_Commit command string
  | At_End command string bool
  | At_Rollback

record fine_sys =
  fine_db :: kv_db
  fine_tx :: "thread \<Rightarrow> nat option"
  fine_at :: "thread \<Rightarrow> progress"
  fine_files :: kv_files

definition init_fine :: fine_sys where
  "init_fine = \<lparr>fine_db = fresh_db, fine_tx = (\<lambda>_. None), fine_at = (\<lambda>_. Idle),
     fine_files = \<lparr>last_lsn_file = None, snapshot_dir = (\<lambda>_. None)\<rparr>\<rparr>"

text \<open>The two halves of \<open>set\<close> and \<open>del\<close>: up to the record in the log, and the change of the table.\<close>

fun is_write :: "command \<Rightarrow> bool" where
  "is_write (C_Set key val) = True"
| "is_write (C_Del key) = True"
| "is_write c = False"

fun log_part :: "thread \<Rightarrow> command \<Rightarrow> nat \<Rightarrow> kv_db \<Rightarrow> (bool \<times> kv_db) res" where
  "log_part self (C_Set key val) a db = map_res (Pair True) (set_log self key val a db)"
| "log_part self (C_Del key) a db = del_log self key a db"
| "log_part self c a db = Inr (False, db)"

fun apply_part :: "command \<Rightarrow> bool \<Rightarrow> kv_db \<Rightarrow> string \<times> kv_db" where
  "apply_part (C_Set key val) found db = (set_success, set_apply key val db)"
| "apply_part (C_Del key) found db =
     (let (deleted, db) = del_apply found key db in (if deleted then del_success else del_not_found, db))"
| "apply_part c found db = ([], db)"

text \<open>
  A delete that found its key calls \<open>kv_ht_del\<close>: the bucket number, and what happens inside the
  mutex with a number computed before.
\<close>

fun unlinks :: "command \<Rightarrow> bool \<Rightarrow> bool" where
  "unlinks (C_Del key) found = found"
| "unlinks c found = False"

definition del_bucket :: "string \<Rightarrow> kv_db \<Rightarrow> nat" where
  "del_bucket key db = kv_ht_hash (hash_func (db_ht db)) (ht_size (db_ht db)) key"

definition unlink_part :: "string \<Rightarrow> nat \<Rightarrow> kv_db \<Rightarrow> string \<times> kv_db" where
  "unlink_part key hash db =
     (case kv_ht_del_at (db_ht db) hash key of
        (None, ht) \<Rightarrow> (del_not_found, db\<lparr>db_ht := ht\<rparr>)
      | (Some old_kv, ht) \<Rightarrow> (del_success, db\<lparr>db_ht := ht\<rparr>))"

inductive fine_step :: "fine_sys \<Rightarrow> event list \<Rightarrow> fine_sys \<Rightarrow> bool" where
  fine_reply:
    "0 < u \<Longrightarrow> fine_at fg u = Idle \<Longrightarrow> command_key cmd = None \<Longrightarrow> cmd \<in> {C_Commit, C_Abort} \<longrightarrow> fine_tx fg u = None \<Longrightarrow>
     length result = RESULT_SIZE \<Longrightarrow>
     exec_command u junk cmd result (fine_tx fg u) (fine_db fg) = Inr (result', c_tx, db') \<Longrightarrow>
     fine_step fg [(u, cmd, cstr result')] (fg\<lparr>fine_db := db', fine_tx := (fine_tx fg)(u := c_tx)\<rparr>)"
| fine_start:
    "0 < u \<Longrightarrow> fine_at fg u = Idle \<Longrightarrow> command_key cmd = Some k \<Longrightarrow>
     ensure_tx (fine_tx fg u) (fine_db fg) = Inr (a, single, db') \<Longrightarrow>
     fine_step fg [] (fg\<lparr>fine_db := db', fine_tx := (fine_tx fg)(u := Some a), fine_at := (fine_at fg)(u := Waiting cmd single)\<rparr>)"
| fine_get:
    "fine_at fg u = Waiting (C_Get k) single \<Longrightarrow> fine_tx fg u = Some a \<Longrightarrow> length result = RESULT_SIZE \<Longrightarrow>
     data_step u (C_Get k) result a (fine_db fg) = Inr (result', db') \<Longrightarrow>
     fine_step fg (if single then [] else [(u, C_Get k, cstr result')])
       (fg\<lparr>fine_db := db', fine_at := (fine_at fg)(u := if single then At_Commit (C_Get k) (cstr result') else Idle)\<rparr>)"
| fine_log:
    "fine_at fg u = Waiting cmd single \<Longrightarrow> is_write cmd \<Longrightarrow> fine_tx fg u = Some a \<Longrightarrow>
     log_part u cmd a (fine_db fg) = Inr (found, db') \<Longrightarrow>
     fine_step fg [] (fg\<lparr>fine_db := db', fine_at := (fine_at fg)(u := At_Apply cmd found single)\<rparr>)"
| fine_apply:
    "fine_at fg u = At_Apply cmd found single \<Longrightarrow> \<not> unlinks cmd found \<Longrightarrow> apply_part cmd found (fine_db fg) = (r, db') \<Longrightarrow>
     fine_step fg (if single then [] else [(u, cmd, r)])
       (fg\<lparr>fine_db := db', fine_at := (fine_at fg)(u := if single then At_Commit cmd r else Idle)\<rparr>)"
| fine_bucket:
    "fine_at fg u = At_Apply (C_Del k) True single \<Longrightarrow>
     fine_step fg [] (fg\<lparr>fine_at := (fine_at fg)(u := At_Unlink k (del_bucket k (fine_db fg)) single)\<rparr>)"
| fine_unlink:
    "fine_at fg u = At_Unlink k hash single \<Longrightarrow> unlink_part k hash (fine_db fg) = (r, db') \<Longrightarrow>
     fine_step fg (if single then [] else [(u, C_Del k, r)])
       (fg\<lparr>fine_db := db', fine_at := (fine_at fg)(u := if single then At_Commit (C_Del k) r else Idle)\<rparr>)"
| fine_commit:
    "fine_at fg u = Idle \<Longrightarrow> fine_tx fg u = Some a \<Longrightarrow>
     tx_log (\<lambda>prev t st. Inr (kv_recovery_commit_log prev t st)) a (fine_db fg) = Inr db' \<Longrightarrow>
     fine_step fg [] (fg\<lparr>fine_db := db', fine_at := (fine_at fg)(u := At_End C_Commit transaction_committed False)\<rparr>)"
| fine_single_commit:
    "fine_at fg u = At_Commit cmd r \<Longrightarrow> fine_tx fg u = Some a \<Longrightarrow>
     tx_log (\<lambda>prev t st. Inr (kv_recovery_commit_log prev t st)) a (fine_db fg) = Inr db' \<Longrightarrow>
     fine_step fg [] (fg\<lparr>fine_db := db', fine_at := (fine_at fg)(u := At_End cmd r True)\<rparr>)"
| fine_end:
    "fine_at fg u = At_End cmd r single \<Longrightarrow> fine_tx fg u = Some a \<Longrightarrow> end_tx u a (fine_db fg) = Inr db' \<Longrightarrow>
     fine_step fg [(u, cmd, r)]
       (fg\<lparr>fine_db := if single then db'\<lparr>db_lm := kv_lm_unlock u (db_lm db') (unlock_arg junk cmd)\<rparr> else db',
          fine_tx := (fine_tx fg)(u := None), fine_at := (fine_at fg)(u := Idle)\<rparr>)"
| fine_abort:
    "fine_at fg u = Idle \<Longrightarrow> fine_tx fg u = Some a \<Longrightarrow>
     tx_log (\<lambda>prev t st. Inr (kv_recovery_abort_log prev t st)) a (fine_db fg) = Inr db' \<Longrightarrow>
     fine_step fg [] (fg\<lparr>fine_db := db', fine_at := (fine_at fg)(u := At_Rollback)\<rparr>)"
| fine_rollback:
    "fine_at fg u = At_Rollback \<Longrightarrow> fine_tx fg u = Some a \<Longrightarrow> rollback_tx a (fine_db fg) = Inr db1 \<Longrightarrow>
     end_tx u a db1 = Inr db' \<Longrightarrow>
     fine_step fg [(u, C_Abort, transaction_aborted)]
       (fg\<lparr>fine_db := db', fine_tx := (fine_tx fg)(u := None), fine_at := (fine_at fg)(u := Idle)\<rparr>)"
| fine_check:
    "take_snapshot usable (fine_db fg) (fine_files fg) = Inr (db', files') \<Longrightarrow>
     fine_step fg [] (fg\<lparr>fine_db := db', fine_files := files'\<rparr>)"

text \<open>
  Runs within the bounds of \<open>sys_run\<close>: all of them, and those in which the array does not grow, with
  another bucket for its key, between the two steps of a delete.
\<close>

definition at_small :: "fine_sys \<Rightarrow> bool" where
  "at_small fg \<longleftrightarrow> (\<forall>u cmd single. fine_at fg u = Waiting cmd single \<longrightarrow> command_small cmd)"

definition buckets_current :: "fine_sys \<Rightarrow> bool" where
  "buckets_current fg \<longleftrightarrow>
     (\<forall>u k hash single. fine_at fg u = At_Unlink k hash single \<longrightarrow> hash = del_bucket k (fine_db fg))"

inductive raw_run :: "event list \<Rightarrow> fine_sys \<Rightarrow> bool" where
  raw_init: "raw_run [] init_fine"
| raw_more: "raw_run es fg \<Longrightarrow> room (fine_db fg) \<Longrightarrow> fine_step fg e fg' \<Longrightarrow> at_small fg' \<Longrightarrow> raw_run (es @ e) fg'"

inductive fine_run :: "event list \<Rightarrow> fine_sys \<Rightarrow> bool" where
  fine_init: "fine_run [] init_fine"
| fine_more: "fine_run es fg \<Longrightarrow> room (fine_db fg) \<Longrightarrow> fine_step fg e fg' \<Longrightarrow> at_small fg' \<Longrightarrow> buckets_current fg' \<Longrightarrow>
     fine_run (es @ e) fg'"

lemma fine_run_raw: "fine_run es fg \<Longrightarrow> raw_run es fg"
  by (induction rule: fine_run.induct) (blast intro: raw_run.intros)+

text \<open>A run without deletes in the middle of \<open>kv_ht_del\<close> is in bounds.\<close>

lemma no_unlink_current: "(\<And>u k hash single. fine_at fg u \<noteq> At_Unlink k hash single) \<Longrightarrow> buckets_current fg"
  by (simp add: buckets_current_def)

section \<open>A delete in two steps\<close>

text \<open>With the number of the key's bucket the two steps are the change of the table as a whole.\<close>

lemma unlink_current: "unlink_part k (del_bucket k db) db = apply_part (C_Del k) True db"
  by (simp add: unlink_part_def del_bucket_def del_apply_def kv_ht_del_def Let_def split: prod.split option.split)

text \<open>With another number the key is not found and stays where it is.\<close>

lemma unlink_stale:
  assumes "ht_inv (db_ht db)" "hash < ht_size (db_ht db)" "hash \<noteq> del_bucket k db"
  shows "unlink_part k hash db = (del_not_found, db)"
  using assms kv_ht_del_at_stale [of "db_ht db" hash k] by (simp add: unlink_part_def del_bucket_def)

section \<open>The halves are the commands\<close>

lemma data_step_halves:
  "is_write cmd \<Longrightarrow> data_step self cmd result a db =
     bind_res (log_part self cmd a db) (\<lambda>(found, db).
     case apply_part cmd found db of (r, db) \<Rightarrow> bind_res (strcpy result r) (\<lambda>result. Inr (result, db)))"
  by (cases cmd; cases "set_log self (case cmd of C_Set k v \<Rightarrow> k | C_Del k \<Rightarrow> k | _ \<Rightarrow> []) (case cmd of C_Set k v \<Rightarrow> v | _ \<Rightarrow> []) a db")
    (simp_all add: Let_def case_prod_unfold)

section \<open>The table is not touched by most of the code\<close>

lemma tx_of_ht2 [simp]: "tx_of (db\<lparr>db_ht := h\<rparr>) = tx_of db"
  by (simp add: fun_eq_iff)

lemma ht_update_first:
  "db\<lparr>db_rec := st, db_txm := txm, db_ht := h\<rparr> = db\<lparr>db_ht := h, db_rec := st, db_txm := txm\<rparr>"
  "db\<lparr>db_lm := lm, db_txm := txm, db_ht := h\<rparr> = db\<lparr>db_ht := h, db_lm := lm, db_txm := txm\<rparr>"
  "db\<lparr>db_lm := lm, db_ht := h\<rparr> = db\<lparr>db_ht := h, db_lm := lm\<rparr>"
  "db\<lparr>db_rec := st, db_ht := h\<rparr> = db\<lparr>db_ht := h, db_rec := st\<rparr>"
  "db\<lparr>db_txm := txm, db_ht := h\<rparr> = db\<lparr>db_ht := h, db_txm := txm\<rparr>"
  by (cases db; simp)+

lemma map_res_bind: "map_res g (bind_res m f) = bind_res m (\<lambda>x. map_res g (f x))"
  by (cases m) simp_all

lemma bind_res_map: "bind_res (map_res g m) f = bind_res m (\<lambda>x. f (g x))"
  by (cases m) simp_all

lemma tx_log_ht: "tx_log f a (db\<lparr>db_ht := h\<rparr>) = map_res (\<lambda>d. d\<lparr>db_ht := h\<rparr>) (tx_log f a db)"
  by (simp add: tx_log_def map_res_bind case_prod_unfold ht_update_first)

lemma begin_tx_ht: "begin_tx (db\<lparr>db_ht := h\<rparr>) = map_res (\<lambda>(a, d). (a, d\<lparr>db_ht := h\<rparr>)) (begin_tx db)"
proof -
  have "db\<lparr>db_ht := h, db_txm := txm\<rparr> = (db\<lparr>db_txm := txm\<rparr>)\<lparr>db_ht := h\<rparr>" for txm by (simp add: ht_update_first)
  then have "tx_log f a (db\<lparr>db_ht := h, db_txm := txm\<rparr>) = map_res (\<lambda>d. d\<lparr>db_ht := h\<rparr>) (tx_log f a (db\<lparr>db_txm := txm\<rparr>))" for f a txm
    by (simp only: tx_log_ht)
  then show ?thesis by (simp add: begin_tx_def map_res_bind bind_res_map case_prod_unfold)
qed

lemma end_tx_ht: "end_tx u a (db\<lparr>db_ht := h\<rparr>) = map_res (\<lambda>d. d\<lparr>db_ht := h\<rparr>) (end_tx u a db)"
  by (simp add: end_tx_def map_res_bind case_prod_unfold ht_update_first)

lemma log_db_ht: "log_db a r (db\<lparr>db_ht := h\<rparr>) = (log_db a r db)\<lparr>db_ht := h\<rparr>"
  by (simp add: log_db_def ht_update_first)

lemma lock_db_ht: "lock_db a k lm (db\<lparr>db_ht := h\<rparr>) = (lock_db a k lm db)\<lparr>db_ht := h\<rparr>"
  by (simp add: lock_db_def ht_update_first)

end
