(* ===== verification/Fine_Refinement.thy ===== *)
theory Fine_Refinement
  imports Interleaving
begin

text \<open>
  The small steps of Interleaving implement the abstract store.  The invariant \<open>fine_inv\<close> relates a
  state to a store and to the table \<open>hv\<close> its log stands for; \<open>at_ok\<close> says what a thread that is
  inside a command has done so far, \<open>vis\<close> what of it its client can know.
\<close>

section \<open>The invariant\<close>

fun apply_reply :: "command \<Rightarrow> bool \<Rightarrow> string" where
  "apply_reply (C_Del key) found = (if found then del_success else del_not_found)"
| "apply_reply c found = set_success"

text \<open>What the key of a change holds when it is done.\<close>

fun written :: "command \<Rightarrow> string option" where
  "written (C_Set key val) = Some val"
| "written c = None"

text \<open>What the client of a thread knows of the commands of its transaction.\<close>

fun shown :: "progress \<Rightarrow> (command \<times> string) list option \<Rightarrow> (command \<times> string) list option" where
  "shown (Waiting cmd single) ops = (if single then None else ops)"
| "shown (At_Apply cmd found single) ops = (if single then None else map_option butlast ops)"
| "shown (At_Unlink key hash single) ops = (if single then None else map_option butlast ops)"
| "shown (At_Commit cmd r) ops = None"
| "shown (At_End cmd r single) ops = (if single then None else ops)"
| "shown p ops = ops"

text \<open>For the invariant a delete that has its bucket number is where it was before.\<close>

fun pending :: "progress \<Rightarrow> progress" where
  "pending (At_Unlink key hash single) = At_Apply (C_Del key) True single"
| "pending p = p"

definition vis :: "fine_sys \<Rightarrow> store \<Rightarrow> store" where
  "vis fg s = s\<lparr>running := (\<lambda>u. shown (fine_at fg u) (running s u))\<rparr>"

abbreviation fine_locks :: "fine_sys \<Rightarrow> nat \<Rightarrow> string set" where
  "fine_locks fg a \<equiv> set (tx_locks (tx_of (fine_db fg) a))"

definition at_ok :: "fine_sys \<Rightarrow> store \<Rightarrow> (string \<rightharpoonup> string) \<Rightarrow> thread \<Rightarrow> bool" where
  "at_ok fg s h u =
     (case pending (fine_at fg u) of
        Idle \<Rightarrow> True
      | Waiting cmd single \<Rightarrow> fine_tx fg u \<noteq> None \<and> command_key cmd \<noteq> None \<and> (single \<longrightarrow> running s u = Some [])
      | At_Apply cmd found single \<Rightarrow>
          (\<exists>a ops k. fine_tx fg u = Some a \<and> is_write cmd \<and> command_key cmd = Some k \<and> k \<in> fine_locks fg a \<and>
             running s u = Some (ops @ [(cmd, apply_reply cmd found)]) \<and> (single \<longrightarrow> ops = []) \<and> h k = written cmd \<and>
             (written cmd = None \<longrightarrow> found = (kv_ht_get (db_ht (fine_db fg)) k \<noteq> None)))
      | At_Unlink key hash single \<Rightarrow> False
      | At_Commit cmd r \<Rightarrow> running s u = Some [(cmd, r)] \<and> command_key cmd \<noteq> None
      | At_End cmd r single \<Rightarrow>
          if single then running s u = Some [(cmd, r)] \<and> command_key cmd \<noteq> None
          else cmd = C_Commit \<and> r = transaction_committed \<and> fine_tx fg u \<noteq> None
      | At_Rollback \<Rightarrow> fine_tx fg u \<noteq> None)"

text \<open>The keys of unfinished changes.\<close>

definition behind :: "progress \<Rightarrow> string set" where
  "behind p = (case pending p of At_Apply cmd found single \<Rightarrow> set_option (command_key cmd) | _ \<Rightarrow> {})"

lemma behind_simps [simp]:
  "behind Idle = {}" "behind (Waiting cmd single) = {}" "behind (At_Apply cmd found single) = set_option (command_key cmd)"
  "behind (At_Unlink key hash single) = {key}" "behind (At_Commit cmd r) = {}" "behind (At_End cmd r single) = {}" "behind At_Rollback = {}"
  by (simp_all add: behind_def)

definition fine_inv ::
  "event list \<Rightarrow> fine_sys \<Rightarrow> store \<Rightarrow> nat list \<Rightarrow> kv_recovery_log_line list \<Rightarrow> kv_table \<Rightarrow> bool" where
  "fine_inv es fg s as rs hv \<longleftrightarrow>
     sim s (fine_tx fg) as rs ((fine_db fg)\<lparr>db_ht := hv\<rparr>) \<and> ht_inv (db_ht (fine_db fg)) \<and>
     (\<forall>k. (\<forall>u. k \<notin> behind (fine_at fg u)) \<longrightarrow> kv_ht_get (db_ht (fine_db fg)) k = kv_ht_get hv k) \<and>
     (\<forall>u. at_ok fg s (kv_ht_get hv) u) \<and>
     accepts es empty_store = Some (vis fg s) \<and>
     fst (history es) = running (vis fg s) \<and> serially (snd (history es)) Map.empty = Some (committed s)"

lemma fine_invD:
  assumes "fine_inv es fg s as rs hv"
  shows "sim s (fine_tx fg) as rs ((fine_db fg)\<lparr>db_ht := hv\<rparr>)" "ht_inv (db_ht (fine_db fg))"
    "(\<And>u. k \<notin> behind (fine_at fg u)) \<Longrightarrow> kv_ht_get (db_ht (fine_db fg)) k = kv_ht_get hv k"
    "at_ok fg s (kv_ht_get hv) u" "accepts es empty_store = Some (vis fg s)"
    "fst (history es) = running (vis fg s)" "serially (snd (history es)) Map.empty = Some (committed s)"
  using assms unfolding fine_inv_def by blast+

lemma fine_db_inv: "fine_inv es fg s as rs hv \<Longrightarrow> db_inv (fine_tx fg) as rs (fine_db fg)"
proof -
  assume inv: "fine_inv es fg s as rs hv"
  have "db_inv (fine_tx fg) as rs (((fine_db fg)\<lparr>db_ht := hv\<rparr>)\<lparr>db_ht := db_ht (fine_db fg)\<rparr>)"
    by (rule db_inv_ht [OF simD(1) [OF fine_invD(1) [OF inv]] fine_invD(2) [OF inv]])
  then show ?thesis by simp
qed

lemma fine_inv_init: "\<exists>hv. fine_inv [] init_fine empty_store [] [] hv"
proof -
  have "sim empty_store (\<lambda>_. None) [] [] (fresh_db\<lparr>db_ht := db_ht fresh_db\<rparr>)" using sim_fresh by (simp only: db_ht_same)
  moreover have "vis init_fine empty_store = empty_store" by (simp add: vis_def init_fine_def empty_store_def)
  ultimately have "fine_inv [] init_fine empty_store [] [] (db_ht fresh_db)"
    using fresh_ht(1) by (simp add: fine_inv_def at_ok_def) (simp add: init_fine_def history_def empty_store_def)
  then show ?thesis by blast
qed

lemma pending_shown: "pending p = pending q \<Longrightarrow> shown p = shown q"
  by (cases p; cases q) (auto simp: fun_eq_iff)

text \<open>The invariant does not tell \<open>At_Unlink\<close> from \<open>At_Apply\<close>.\<close>

lemma fine_inv_pending:
  assumes inv: "fine_inv es fg s as rs hv" and p: "pending p = pending (fine_at fg u)"
  shows "fine_inv es (fg\<lparr>fine_at := (fine_at fg)(u := p)\<rparr>) s as rs hv"
proof -
  let ?fg = "fg\<lparr>fine_at := (fine_at fg)(u := p)\<rparr>"
  have same: "pending (fine_at ?fg v) = pending (fine_at fg v)" for v using p by simp
  have "vis ?fg s = vis fg s" using pending_shown [OF same] by (simp add: vis_def)
  moreover have "at_ok ?fg s h v = at_ok fg s h v" for h v
    unfolding at_ok_def same by (simp split: progress.split)
  moreover have "behind (fine_at ?fg v) = behind (fine_at fg v)" for v unfolding behind_def same by simp
  ultimately show ?thesis using inv by (simp add: fine_inv_def)
qed

section \<open>What the client knows\<close>

lemma serial_prefix:
  assumes "fst (serial (map fst (ops @ [(c, r)])) m) = map snd (ops @ [(c, r)])"
  shows "fst (serial (map fst ops) m) = map snd ops" "r = data_reply c (tx_view m ops)"
  using assms by (simp_all add: serial_append tx_view_def tx_writes_def Let_def case_prod_unfold)

lemma sim_serial:
  assumes "sim s c as rs db" "running s u = Some ops"
  shows "fst (serial (map fst ops) (committed s)) = map snd ops" "c u \<noteq> None"
proof -
  obtain a where a: "c u = Some a" using assms unfolding sim_def by fastforce
  from sim_opsE [OF assms(1) a] obtain ops' where "running s u = Some ops'"
    "tx_sim rs (committed s) (kv_ht_get (db_ht db)) (tx_of db a) ops'" by blast
  then show "fst (serial (map fst ops) (committed s)) = map snd ops" "c u \<noteq> None"
    using assms(2) a unfolding tx_sim_def by simp_all
qed

lemma vis_serial:
  assumes inv: "fine_inv es fg s as rs hv" and ops: "running (vis fg s) u = Some ops"
  shows "fst (serial (map fst ops) (committed s)) = map snd ops"
proof -
  note sim = fine_invD(1) [OF inv]
  consider "running s u = Some ops" | cmd found where "pending (fine_at fg u) = At_Apply cmd found False" "map_option butlast (running s u) = Some ops"
    using ops by (cases "fine_at fg u") (auto simp: vis_def split: if_splits)
  then show ?thesis
  proof cases
    case 2
    from 2(1) obtain ops' where "running s u = Some (ops' @ [(cmd, apply_reply cmd found)])"
      using fine_invD(4) [OF inv, of u] by (auto simp: at_ok_def)
    then show ?thesis using 2(2) sim_serial(1) [OF sim] serial_prefix(1) by fastforce
  qed (rule sim_serial(1) [OF sim])
qed

section \<open>One thread moves\<close>

text \<open>
  What a step does to what the clients know: nothing, or it is a command of the abstract store.
\<close>

definition seen :: "thread \<Rightarrow> event list \<Rightarrow> store \<Rightarrow> store \<Rightarrow> bool" where
  "seen u e t t' \<longleftrightarrow> e = [] \<and> t' = t \<or> (\<exists>cmd r. e = [(u, cmd, r)] \<and> spec_command u cmd t = (r, t'))"

text \<open>
  What a step has to keep: the relation, the table of the others, and the own thread.
\<close>

lemma fine_move:
  assumes inv: "fine_inv es fg s as rs hv" 
    and at: "fine_at fg' = (fine_at fg)(u := p)" and tx: "fine_tx fg' = (fine_tx fg)(u := c)"
    and sim: "sim s' (fine_tx fg') as' rs' ((fine_db fg')\<lparr>db_ht := hv'\<rparr>)" "ht_inv (db_ht (fine_db fg'))"
    and others: "\<And>v. v \<noteq> u \<Longrightarrow> running s' v = running s v"
      "\<And>v b. v \<noteq> u \<Longrightarrow> fine_tx fg v = Some b \<Longrightarrow> tx_of (fine_db fg') b = tx_of (fine_db fg) b"
    and keys: "\<And>k v b. v \<noteq> u \<Longrightarrow> fine_tx fg v = Some b \<Longrightarrow> k \<in> fine_locks fg b \<Longrightarrow>
        kv_ht_get (db_ht (fine_db fg')) k = kv_ht_get (db_ht (fine_db fg)) k \<and> kv_ht_get hv' k = kv_ht_get hv k"
    and own: "\<And>k. (\<And>v. v \<noteq> u \<Longrightarrow> k \<notin> behind (fine_at fg v)) \<Longrightarrow> k \<notin> behind p \<Longrightarrow>
        kv_ht_get (db_ht (fine_db fg')) k = kv_ht_get hv' k" "at_ok fg' s' (kv_ht_get hv') u"
    and ev: "seen u e (vis fg s) (vis fg' s')"
  shows "fine_inv (es @ e) fg' s' as' rs' hv'"
proof -
  have com: "committed (vis fg s) = committed s" "committed (vis fg' s') = committed s'" by (simp_all add: vis_def)
  have ok: "at_ok fg' s' (kv_ht_get hv') v" for v
  proof (cases "v = u")
    case False
    have "at_ok fg s (kv_ht_get hv) v" by (rule fine_invD(4) [OF inv])
    moreover have "fine_at fg' v = fine_at fg v" "fine_tx fg' v = fine_tx fg v" using at tx False by simp_all
    ultimately show ?thesis using others(1) [OF False] others(2) [OF False] keys [OF False]
      by (fastforce simp: at_ok_def split: progress.splits)
  qed (simp add: own(2))
  have agree: "kv_ht_get (db_ht (fine_db fg')) k = kv_ht_get hv' k" if "\<And>v. k \<notin> behind (fine_at fg' v)" for k
  proof (rule own(1))
    show "k \<notin> behind (fine_at fg v)" if "v \<noteq> u" for v using \<open>\<And>v. k \<notin> behind (fine_at fg' v)\<close> [of v] that at by simp
    show "k \<notin> behind p" using that [of u] at by simp
  qed
  have "accepts (es @ e) empty_store = Some (vis fg' s') \<and> fst (history (es @ e)) = running (vis fg' s') \<and>
     serially (snd (history (es @ e))) Map.empty = Some (committed s')"
    using ev unfolding seen_def
  proof (elim disjE conjE exE)
    assume "e = []" "vis fg' s' = vis fg s"
    then show ?thesis using fine_invD(5-7) [OF inv] com by simp
  next
    fix cmd r assume e: "e = [(u, cmd, r)]" and sp: "spec_command u cmd (vis fg s) = (r, vis fg' s')"
    have txs: "serially (snd (history es)) Map.empty = Some (committed (vis fg s))" using fine_invD(7) [OF inv] com by simp
    obtain txs' where h: "history_step (u, cmd, r) (running (vis fg s), snd (history es)) = (running (vis fg' s'), txs')"
      "serially txs' Map.empty = Some (committed (vis fg' s'))"
      using history_spec [OF sp txs] vis_serial [OF inv, of u] com by auto
    have "history es = (running (vis fg s), snd (history es))" using fine_invD(6) [OF inv] by (simp add: prod_eq_iff)
    then have "history (es @ e) = (running (vis fg' s'), txs')" using h(1) by (simp only: e history_append fold_simps)
    then show ?thesis using h(2) com fine_invD(5) [OF inv] sp by (simp add: accepts_append e)
  qed
  then show ?thesis unfolding fine_inv_def using sim ok agree by blast
qed

text \<open>A step that leaves the table alone, by a thread with nothing unfinished before and after.\<close>

lemma fine_quiet:
  assumes inv: "fine_inv es fg s as rs hv"
    and at: "fine_at fg' = (fine_at fg)(u := p)" "behind (fine_at fg u) = {}" "behind p = {}"
    and tx: "fine_tx fg' = (fine_tx fg)(u := c)"
    and sim: "sim s' (fine_tx fg') as' rs' ((fine_db fg')\<lparr>db_ht := hv\<rparr>)" "db_ht (fine_db fg') = db_ht (fine_db fg)"
    and others: "\<And>v. v \<noteq> u \<Longrightarrow> running s' v = running s v"
      "\<And>v b. v \<noteq> u \<Longrightarrow> fine_tx fg v = Some b \<Longrightarrow> tx_of (fine_db fg') b = tx_of (fine_db fg) b"
    and own: "at_ok fg' s' (kv_ht_get hv) u" and ev: "seen u e (vis fg s) (vis fg' s')"
  shows "fine_inv (es @ e) fg' s' as' rs' hv"
proof (rule fine_move [OF inv at(1) tx sim(1)])
  show "kv_ht_get (db_ht (fine_db fg')) k = kv_ht_get hv k" if "\<And>v. v \<noteq> u \<Longrightarrow> k \<notin> behind (fine_at fg v)" for k
  proof -
    have "k \<notin> behind (fine_at fg v)" for v using that [of v] at(2) by (cases "v = u") simp_all
    then show ?thesis using fine_invD(3) [OF inv, of k] sim(2) by simp
  qed
qed (use others own ev sim(2) fine_invD(2) [OF inv] in simp_all)

section \<open>Each step\<close>

lemma room_ht [simp]: "room (db\<lparr>db_ht := h\<rparr>) = room db"
  by (simp add: room_def)

lemma fine_room: "fine_inv es fg s as rs hv \<Longrightarrow> room (fine_db fg) \<Longrightarrow> length rs < 2 ^ 30"
  using room_length [OF fine_invD(1)] by simp

lemma other_tx:
  "fine_inv es fg s as rs hv \<Longrightarrow> fine_tx fg u = Some a \<Longrightarrow> fine_tx fg v = Some b \<Longrightarrow> v \<noteq> u \<Longrightarrow> b \<noteq> a"
  using db_invD(7) [OF fine_db_inv] by blast

lemma vis_upd:
  assumes "fine_at fg' = (fine_at fg)(u := p)" "\<And>v. v \<noteq> u \<Longrightarrow> running s' v = running s v"
  shows "vis fg' s' = s'\<lparr>running := (running (vis fg s))(u := shown p (running s' u))\<rparr>"
  using assms by (intro store.equality) (auto simp: vis_def)

lemma vis_same:
  assumes "fine_at fg' = (fine_at fg)(u := p)" "\<And>v. v \<noteq> u \<Longrightarrow> running s' v = running s v" "committed s' = committed s"
    "shown p (running s' u) = shown (fine_at fg u) (running s u)"
  shows "vis fg' s' = vis fg s"
  using assms by (intro store.equality) (auto simp: vis_def)

text \<open>An unfinished change is on a key its thread has locked.\<close>

lemma behind_locked:
  assumes inv: "fine_inv es fg s as rs hv" and k: "k \<in> behind (fine_at fg v)"
  obtains b where "fine_tx fg v = Some b" "k \<in> fine_locks fg b"
  using fine_invD(4) [OF inv, of v] k by (cases "fine_at fg v") (auto simp: at_ok_def)

text \<open>A key that has been locked, with nothing of its own unfinished, is up to date.\<close>

lemma locked_current:
  assumes inv: "fine_inv es fg s as rs hv" and u: "fine_tx fg u = Some a" "behind (fine_at fg u) = {}"
    and lm: "kv_lm_wlock u (db_lm (fine_db fg)) k = Inr lm"
  shows "kv_ht_get (db_ht (fine_db fg)) k = kv_ht_get hv k"
    "v \<noteq> u \<Longrightarrow> fine_tx fg v = Some b \<Longrightarrow> k \<notin> fine_locks fg b"
proof -
  have lmv: "kv_lm_wlock u (db_lm ((fine_db fg)\<lparr>db_ht := hv\<rparr>)) k = Inr lm" using lm by simp
  have free: "k \<notin> fine_locks fg b" if "v \<noteq> u" "fine_tx fg v = Some b" for v b
    using sim_lock(2) [OF fine_invD(1) [OF inv] u(1) lmv that] by simp
  then show "v \<noteq> u \<Longrightarrow> fine_tx fg v = Some b \<Longrightarrow> k \<notin> fine_locks fg b" by blast
  have "k \<notin> behind (fine_at fg v)" for v
  proof
    assume k: "k \<in> behind (fine_at fg v)"
    then have "v \<noteq> u" using u(2) by auto
    then show False using behind_locked [OF inv k] free by blast
  qed
  then show "kv_ht_get (db_ht (fine_db fg)) k = kv_ht_get hv k" by (rule fine_invD(3) [OF inv])
qed

text \<open>A thread that only writes a COMMIT or an ABORT record.\<close>

lemma tx_log_keeps:
  assumes "tx_log f a db = Inr db'"
  shows "db_ht db' = db_ht db" "db_lm db' = db_lm db" "b \<noteq> a \<Longrightarrow> tx_of db' b = tx_of db b"
    "tx_locks (tx_of db' a) = tx_locks (tx_of db a)"
  using assms by (auto simp: tx_log_def res_iff tx_of_def kv_tx_set_last_lsn_def)

lemma inv_ending:
  assumes inv: "fine_inv es fg s as rs hv" and rm: "room (fine_db fg)" and u: "fine_tx fg u = Some a"
    and log: "tx_log (\<lambda>prev t st. Inr (kv_recovery_commit_log prev t st)) a (fine_db fg) = Inr db' \<or>
      tx_log (\<lambda>prev t st. Inr (kv_recovery_abort_log prev t st)) a (fine_db fg) = Inr db'"
    and p: "behind (fine_at fg u) = {}" "behind p = {}" "shown p (running s u) = shown (fine_at fg u) (running s u)"
      "at_ok (fg\<lparr>fine_db := db', fine_at := (fine_at fg)(u := p)\<rparr>) s (kv_ht_get hv) u"
  shows "\<exists>qs. fine_inv es (fg\<lparr>fine_db := db', fine_at := (fine_at fg)(u := p)\<rparr>) s as (rs @ qs) hv"
proof -
  let ?fg = "fg\<lparr>fine_db := db', fine_at := (fine_at fg)(u := p)\<rparr>"
  have rl: "length rs + 1 < 2 ^ 32" using fine_room [OF inv rm] by simp
  note el = ending_log_sim [OF fine_invD(1) [OF inv] u rl]
  obtain r where sim: "sim s (fine_tx fg) as (rs @ [r]) (db'\<lparr>db_ht := hv\<rparr>)"
    using log el unfolding tx_log_ht by (elim disjE) (simp_all add: that)
  have k: "db_ht db' = db_ht (fine_db fg)" "\<And>b. b \<noteq> a \<Longrightarrow> tx_of db' b = tx_of (fine_db fg) b"
    using log tx_log_keeps(1,3) by blast+
  have tx: "fine_tx ?fg = (fine_tx fg)(u := Some a)" using u by auto
  have "vis ?fg s = vis fg s" using p(3) by (intro vis_same [where u = u and p = p]) simp_all
  then have ev: "seen u [] (vis fg s) (vis ?fg s)" by (simp add: seen_def)
  have "fine_inv (es @ []) ?fg s as (rs @ [r]) hv"
    by (rule fine_quiet [OF inv _ p(1,2) tx _ _ _ _ p(4) ev]) (use sim k other_tx [OF inv u] in simp_all)
  then show ?thesis by (intro exI [of _ "[r]"]) simp
qed

text \<open>A read: the lock, and the reply from the table.\<close>

lemma fine_sim_opsE:
  assumes "fine_inv es fg s as rs hv" "fine_tx fg u = Some a"
  obtains ops where "running s u = Some ops" "tx_sim rs (committed s) (kv_ht_get hv) (tx_of (fine_db fg) a) ops"
  using sim_opsE [OF fine_invD(1) [OF assms(1)] assms(2)] by auto

text \<open>The reply to a data command in a transaction, when the command ends.\<close>

lemma seen_data:
  assumes "command_key cmd = Some k" "running (vis fg s) u = Some ops" "r = data_reply cmd (tx_view (committed s) ops)"
    "fine_at fg' = (fine_at fg)(u := Idle)" "\<And>v. v \<noteq> u \<Longrightarrow> running s' v = running s v"
    "running s' u = Some (ops @ [(cmd, r)])" "committed s' = committed s"
  shows "seen u [(u, cmd, r)] (vis fg s) (vis fg' s')"
proof -
  have com: "committed (vis fg s) = committed s" by (simp add: vis_def)
  have "vis fg' s' = s'\<lparr>running := (running (vis fg s))(u := shown Idle (running s' u))\<rparr>"
    using assms(4,5) by (rule vis_upd)
  also have "\<dots> = (vis fg s)\<lparr>running := (running (vis fg s))(u \<mapsto> ops @ [(cmd, data_reply cmd (tx_view (committed (vis fg s)) ops))])\<rparr>"
    using assms(3,6,7) com by (intro store.equality) simp_all
  finally have "spec_command u cmd (vis fg s) = (r, vis fg' s')"
    using assms(2,3) com by (simp add: spec_data [OF assms(1)])
  then show ?thesis by (simp add: seen_def)
qed

lemma inv_get:
  assumes inv: "fine_inv es fg s as rs hv" and at: "fine_at fg u = Waiting (C_Get k) single" and u: "fine_tx fg u = Some a"
    and len: "length result = RESULT_SIZE" and ds: "data_step u (C_Get k) result a (fine_db fg) = Inr (result', db')"
  defines "fg' \<equiv> fg\<lparr>fine_db := db', fine_at := (fine_at fg)(u := if single then At_Commit (C_Get k) (cstr result') else Idle)\<rparr>"
  shows "\<exists>s'. fine_inv (es @ (if single then [] else [(u, C_Get k, cstr result')])) fg' s' as rs hv"
proof -
  let ?db = "fine_db fg" and ?p = "if single then At_Commit (C_Get k) (cstr result') else Idle"
  note sim = fine_invD(1) [OF inv]
  note db = fine_db_inv [OF inv]
  obtain ops where ops: "running s u = Some ops" by (rule fine_sim_opsE [OF inv u])
  have b0: "behind (fine_at fg u) = {}" using at by simp
  obtain lm where lm: "kv_lm_wlock u (db_lm ?db) k = Inr lm" and db': "db' = lock_db a k lm ?db"
    and rep: "get_reply result (kv_ht_get (db_ht ?db) k) = Inr result'"
    using ds lock_key_eq [OF db db_invD(6) [OF db u], of u True k] by (auto simp: res_iff)
  note cur = locked_current [OF inv u b0 lm]
  have lmv: "kv_lm_wlock u (db_lm (?db\<lparr>db_ht := hv\<rparr>)) k = Inr lm" using lm by simp
  have sim1: "sim s (fine_tx fg) as rs (lock_db a k lm (?db\<lparr>db_ht := hv\<rparr>))" by (rule sim_lock(1) [OF sim u lmv])
  have view: "kv_ht_get hv k = tx_view (committed s) ops k" using sim_view [OF sim u ops] cur(2) by simp
  let ?s = "add_op u ops (C_Get k) s"
  have "sim ?s (fine_tx fg) as rs (lock_db a k lm (?db\<lparr>db_ht := hv\<rparr>))" by (rule sim_read [OF sim1 u ops, where k = k]) simp_all
  then have sim2: "sim ?s (fine_tx fg) as rs (db'\<lparr>db_ht := hv\<rparr>)" by (simp only: db' lock_db_ht)
  have "vals_ok (kv_ht_get (db_ht (?db\<lparr>db_ht := hv\<rparr>)))" by (rule simD [OF sim])
  then obtain result'' where "get_reply result (kv_ht_get hv k) = Inr result''" "cstr result'' = data_reply (C_Get k) (kv_ht_get hv)"
    using get_reply_ok [OF _ len, of "kv_ht_get hv" k] by auto
  then have r: "cstr result' = data_reply (C_Get k) (tx_view (committed s) ops)" using rep cur(1) view by simp
  have idle: "single \<Longrightarrow> ops = []" using fine_invD(4) [OF inv, of u] at ops by (simp add: at_ok_def)
  have oth: "running ?s v = running s v" if "v \<noteq> u" for v using that by simp
  have ev: "seen u (if single then [] else [(u, C_Get k, cstr result')]) (vis fg s) (vis fg' ?s)"
  proof (cases single)
    case True
    have "vis fg' ?s = vis fg s" using True at by (intro vis_same [where u = u and p = ?p]) (simp_all add: fg'_def)
    then show ?thesis using True by (simp add: seen_def)
  next
    case False
    have "running (vis fg s) u = Some ops" using at False ops by (simp add: vis_def)
    then have "seen u [(u, C_Get k, cstr result')] (vis fg s) (vis fg' ?s)"
      using False r oth by (intro seen_data) (simp_all add: fg'_def)
    then show ?thesis using False by simp
  qed
  have tx: "fine_tx fg' = (fine_tx fg)(u := Some a)" using u by (auto simp: fg'_def)
  have ok: "at_ok fg' ?s (kv_ht_get hv) u" using r idle by (simp add: at_ok_def fg'_def)
  have "fine_inv (es @ (if single then [] else [(u, C_Get k, cstr result')])) fg' ?s as rs hv"
    by (rule fine_quiet [OF inv _ b0 _ tx _ _ _ _ ok ev, where p = ?p])
      (use sim2 oth other_tx [OF inv u] in \<open>simp_all add: fg'_def db'\<close>)
  then show ?thesis by blast
qed

text \<open>The lock of a change and its record.\<close>

lemma log_part_total:
  assumes db: "db_inv c as rs db" and u: "c u = Some a" and w: "is_write cmd" "command_key cmd = Some k" "command_small cmd"
    and old: "kv_ht_get (db_ht db) k \<noteq> None \<Longrightarrow> small_str k" "small_str (str_of (kv_ht_get (db_ht db) k))"
    and lm: "kv_lm_wlock u (db_lm db) k = Inr lm"
  shows "\<exists>found db'. log_part u cmd a db = Inr (found, db')"
proof -
  have a: "a \<in> set as" by (rule db_invD(6) [OF db u])
  note tl = tx_log_update [OF db_inv_lock [OF db u lm] a _ old(2)]
  show ?thesis
  proof (cases cmd)
    case (C_Set key v)
    then show ?thesis using w tl lm by (auto simp: set_log_eq [OF db a])
  next
    case (C_Del key)
    then show ?thesis using w tl lm old(1) lock_key_eq [OF db a, of u False k]
      by (cases "kv_ht_get (db_ht db) k") (auto simp: del_log_def str_of_def)
  qed (use w in simp_all)
qed

lemma log_part_cases:
  assumes db: "db_inv c as rs db" and u: "c u = Some a" and w: "is_write cmd" "command_key cmd = Some k" "command_small cmd"
    and old: "written cmd \<noteq> None \<or> kv_ht_get (db_ht db) k \<noteq> None \<Longrightarrow> small_str k"
      "small_str (str_of (kv_ht_get (db_ht db) k))" and lp: "log_part u cmd a db = Inr (found, db')"
  obtains (nothing) lm where "kv_lm_wlock u (db_lm db) k = Inr lm" "written cmd = None" "kv_ht_get (db_ht db) k = None"
      "\<not> found" "db' = lock_db a k lm db"
    | (logged) lm v where "kv_lm_wlock u (db_lm db) k = Inr lm" "small_str v" "val_of v = written cmd"
      "written cmd = None \<Longrightarrow> found" "kv_ht_get (db_ht db) k \<noteq> None \<or> v \<noteq> []"
      "db' = log_db a (update_rec (rec_lsn (db_rec (lock_db a k lm db)) + 1) (tx_last_lsn (tx_of (lock_db a k lm db) a))
         (tx_id (tx_of (lock_db a k lm db) a)) k (str_of (kv_ht_get (db_ht db) k)) v) (lock_db a k lm db)"
proof -
  have a: "a \<in> set as" by (rule db_invD(6) [OF db u])
  obtain lm where lm: "kv_lm_wlock u (db_lm db) k = Inr lm"
    using lp w lock_key_eq [OF db a, of u False k]
    by (cases cmd; cases "kv_lm_wlock u (db_lm db) k") (auto simp: set_log_def del_log_def)
  let ?db = "lock_db a k lm db"
  have lk: "lock_key u False k a db = Inr ?db" using lock_key_eq [OF db a, of u False k] lm by simp
  have tl: "tx_log (\<lambda>prev t. kv_recovery_update_log prev t k (str_of (kv_ht_get (db_ht db) k)) v) a ?db =
      Inr (log_db a (update_rec (rec_lsn (db_rec ?db) + 1) (tx_last_lsn (tx_of ?db a)) (tx_id (tx_of ?db a)) k
         (str_of (kv_ht_get (db_ht db) k)) v) ?db)"
    if "written cmd \<noteq> None \<or> kv_ht_get (db_ht db) k \<noteq> None" "small_str v" for v
    using tx_log_update [OF db_inv_lock [OF db u lm] a old(1) [OF that(1)] old(2) that(2)] .
  show thesis
  proof (cases cmd)
    case (C_Set key v)
    then have v: "key = k" "small_str v" "v \<noteq> []" using w by simp_all
    show thesis
      by (rule that(2) [OF lm v(2)]) (use lp tl [OF _ v(2)] lm v in \<open>simp_all add: C_Set set_log_eq [OF db a] val_of_def res_iff
        del: tx_of_log_db lock_db_simps(4)\<close>)
  next
    case (C_Del key)
    then have key: "key = k" using w by simp
    show thesis
    proof (cases "kv_ht_get (db_ht db) k")
      case None
      show thesis by (rule that(1) [OF lm]) (use lp lm lk key None in \<open>simp_all add: C_Del del_log_def\<close>)
    next
      case (Some o')
      show thesis
        by (rule that(2) [OF lm small_str_Nil]) (use lp tl [OF _ small_str_Nil] lk key Some in \<open>simp_all add: C_Del del_log_def
          val_of_def str_of_def del: tx_of_log_db lock_db_simps(4)\<close>)
    qed
  qed (use w in simp_all)
qed

lemma inv_log:
  assumes inv: "fine_inv es fg s as rs hv" and rm: "room (fine_db fg)" and at: "fine_at fg u = Waiting cmd single"
    and w: "is_write cmd" "command_small cmd" and u: "fine_tx fg u = Some a"
    and lp: "log_part u cmd a (fine_db fg) = Inr (found, db')"
  defines "fg' \<equiv> fg\<lparr>fine_db := db', fine_at := (fine_at fg)(u := At_Apply cmd found single)\<rparr>"
  shows "\<exists>s' qs hv'. fine_inv es fg' s' as (rs @ qs) hv'"
proof -
  let ?db = "fine_db fg"
  note sim = fine_invD(1) [OF inv]
  note db = fine_db_inv [OF inv]
  obtain k where k: "command_key cmd = Some k" using w(1) by (cases cmd) auto
  obtain ops where ops: "running s u = Some ops" by (rule fine_sim_opsE [OF inv u])
  have b0: "behind (fine_at fg u) = {}" using at by simp
  have idle: "single \<Longrightarrow> ops = []" using fine_invD(4) [OF inv, of u] at ops by (simp add: at_ok_def)
  have a: "a \<in> set as" by (rule db_invD(6) [OF db u])
  have vals: "vals_ok (kv_ht_get hv)" using simD(2) [OF sim] by simp
  obtain lm where lm: "kv_lm_wlock u (db_lm ?db) k = Inr lm"
    using lp w(1) k lock_key_eq [OF db a, of u False k]
    by (cases cmd; cases "kv_lm_wlock u (db_lm ?db) k") (auto simp: set_log_def del_log_def)
  note cur = locked_current [OF inv u b0 lm]
  let ?v1 = "lock_db a k lm (?db\<lparr>db_ht := hv\<rparr>)"
  have lmv: "kv_lm_wlock u (db_lm (?db\<lparr>db_ht := hv\<rparr>)) k = Inr lm" using lm by simp
  have sim1: "sim s (fine_tx fg) as rs ?v1" by (rule sim_lock(1) [OF sim u lmv])
  have locked: "k \<in> set (tx_locks (tx_of ?v1 a))" by simp
  have view: "kv_ht_get hv k = tx_view (committed s) ops k" using sim_view [OF sim u ops] cur(2) by simp
  let ?s = "add_op u ops cmd s" and ?p = "At_Apply cmd found single"
  have reply: "data_reply cmd (tx_view (committed s) ops) = apply_reply cmd found"
    if "written cmd = None \<Longrightarrow> found = (kv_ht_get hv k \<noteq> None)"
    using that w(1) k view by (cases cmd) auto
  have finish: "\<exists>s' qs hv'. fine_inv es fg' s' as (rs @ qs) hv'"
    if sm: "sim ?s (fine_tx fg) as (rs @ qs) (db'\<lparr>db_ht := hv'\<rparr>)" and h: "kv_ht_get hv' = (kv_ht_get hv)(k := written cmd)"
      and fd: "written cmd = None \<Longrightarrow> found = (kv_ht_get hv k \<noteq> None)"
      and d: "db_ht db' = db_ht ?db" "\<And>b. b \<noteq> a \<Longrightarrow> tx_of db' b = tx_of ?db b" "k \<in> set (tx_locks (tx_of db' a))" for qs hv'
  proof -
    have old: "kv_ht_get (db_ht ?db) j = kv_ht_get hv j" if "\<And>v. v \<noteq> u \<Longrightarrow> j \<notin> behind (fine_at fg v)" for j
    proof (rule fine_invD(3) [OF inv])
      show "j \<notin> behind (fine_at fg v)" for v using that [of v] b0 by (cases "v = u") simp_all
    qed
    have vs: "vis fg' ?s = vis fg s"
      using at ops by (intro vis_same [where u = u and p = ?p]) (simp_all add: fg'_def)
    have "fine_inv (es @ []) fg' ?s as (rs @ qs) hv'"
    proof (rule fine_move [OF inv, where u = u and c = "Some a" and p = ?p])
      show "fine_tx fg' = (fine_tx fg)(u := Some a)" using u by (auto simp: fg'_def)
      show "sim ?s (fine_tx fg') as (rs @ qs) ((fine_db fg')\<lparr>db_ht := hv'\<rparr>)" using sm by (simp add: fg'_def)
      show "kv_ht_get (db_ht (fine_db fg')) j = kv_ht_get (db_ht ?db) j \<and> kv_ht_get hv' j = kv_ht_get hv j"
        if "v \<noteq> u" "fine_tx fg v = Some b" "j \<in> fine_locks fg b" for j v b
        using cur(2) [OF that(1,2)] that(3) d(1) h by (auto simp: fg'_def)
      show "kv_ht_get (db_ht (fine_db fg')) j = kv_ht_get hv' j"
        if "\<And>v. v \<noteq> u \<Longrightarrow> j \<notin> behind (fine_at fg v)" "j \<notin> behind ?p" for j
        using old [OF that(1)] that(2) k d(1) h by (simp add: fg'_def)
      show "at_ok fg' ?s (kv_ht_get hv') u"
        using u w(1) k d(1,3) h fd idle reply [OF fd] cur(1) by (simp add: at_ok_def fg'_def)
      show "seen u [] (vis fg s) (vis fg' ?s)" using vs by (simp add: seen_def)
    qed (use d(1,2) other_tx [OF inv u] fine_invD(2) [OF inv] in \<open>simp_all add: fg'_def\<close>)
    then show ?thesis by auto
  qed
  have sm: "small_str (str_of (kv_ht_get (db_ht ?db) k))" unfolding cur(1) by (rule small_old [OF vals])
  have ks: "small_str k" if "written cmd \<noteq> None \<or> kv_ht_get hv k \<noteq> None"
    using that w k vals by (cases cmd) (auto simp: vals_ok_def)
  show ?thesis
  proof (rule log_part_cases [OF db u w(1) k w(2) _ sm lp])
    show "small_str k" if "written cmd \<noteq> None \<or> kv_ht_get (db_ht ?db) k \<noteq> None" using that ks cur(1) by simp
  next
    fix lm' assume c: "kv_lm_wlock u (db_lm ?db) k = Inr lm'" "written cmd = None" "kv_ht_get (db_ht ?db) k = None"
      "\<not> found" "db' = lock_db a k lm' ?db"
    have "lm' = lm" using c(1) lm by simp
    then have db': "db' = lock_db a k lm ?db" using c(5) by simp
    have "data_writes cmd (tx_view (committed s) ops) = []" using c(2,3) cur(1) view w(1) k by (cases cmd) simp_all
    then have "sim ?s (fine_tx fg) as rs ?v1" by (intro sim_read [OF sim1 u ops k locked])
    then have "sim ?s (fine_tx fg) as (rs @ []) (db'\<lparr>db_ht := hv\<rparr>)" by (simp only: db' lock_db_ht append_Nil2)
    then show ?thesis using c(2-4) cur(1) db' by (intro finish [of "[]" hv]) (simp_all add: fun_eq_iff)
  next
    fix lm' v assume c: "kv_lm_wlock u (db_lm ?db) k = Inr lm'" "small_str v" "val_of v = written cmd"
      "written cmd = None \<Longrightarrow> found" "kv_ht_get (db_ht ?db) k \<noteq> None \<or> v \<noteq> []"
      "db' = log_db a (update_rec (rec_lsn (db_rec (lock_db a k lm' ?db)) + 1) (tx_last_lsn (tx_of (lock_db a k lm' ?db) a))
         (tx_id (tx_of (lock_db a k lm' ?db) a)) k (str_of (kv_ht_get (db_ht ?db) k)) v) (lock_db a k lm' ?db)"
    have lm': "lm' = lm" using c(1) lm by simp
    let ?hv = "ht.apply_write (k, val_of v) hv"
    have ihv: "ht_inv hv" using db_invD(3) [OF simD(1) [OF sim]] by simp
    have upd: "update_db a k v ?v1 = db'\<lparr>db_ht := ?hv\<rparr>"
      unfolding update_db_def c(6) lm' lock_db_ht log_db_ht by (simp add: cur(1) del: tx_of_log_db lock_db_simps(4)) 
    have "kv_ht_get hv k \<noteq> None \<or> v \<noteq> []" using c(5) cur(1) by simp
    then have wr: "data_writes cmd (tx_view (committed s) ops) = [(k, val_of v)]" and ks': "small_str k"
      using c(3) view w(1) k ks by (cases cmd; auto simp: val_of_def split: if_splits)+
    have rl: "length rs + 1 < 2 ^ 32" using fine_room [OF inv rm] by simp
    have "kv_ht_get (db_ht ?v1) k \<noteq> None \<or> v \<noteq> []" using c(5) cur(1) by simp
    from sim_update [OF sim1 u ops k locked ks' c(2) wr this rl] obtain r where
      "sim ?s (fine_tx fg) as (rs @ [r]) (db'\<lparr>db_ht := ?hv\<rparr>)" unfolding upd by blast
    moreover have "kv_ht_get ?hv = (kv_ht_get hv)(k := written cmd)" using ht.get_write [OF ihv] c(3) by simp
    moreover have "found = (kv_ht_get hv k \<noteq> None)" if "written cmd = None"
      using that c(3-5) cur(1) by (auto simp: val_of_def split: if_splits)
    ultimately show ?thesis by (rule finish) (simp_all add: c(6) lm')
  qed
qed

text \<open>The change of the table.\<close>

lemma apply_part_eq:
  assumes "ht_inv (db_ht db)" "is_write cmd" "command_key cmd = Some k"
    "written cmd = None \<Longrightarrow> found = (kv_ht_get (db_ht db) k \<noteq> None)"
  shows "\<exists>ht'. apply_part cmd found db = (apply_reply cmd found, db\<lparr>db_ht := ht'\<rparr>) \<and> ht_inv ht' \<and>
     kv_ht_get ht' = (kv_ht_get (db_ht db))(k := written cmd)"
proof (cases cmd)
  case (C_Set key v)
  then show ?thesis using assms(1,3) kv_ht_set_correct [OF assms(1), of k v]
    by (intro exI [of _ "snd (kv_ht_set (db_ht db) k v)"]) (simp add: set_apply_def)
next
  case (C_Del key)
  then have f: "key = k" "found = (kv_ht_get (db_ht db) k \<noteq> None)" using assms(3,4) by simp_all
  show ?thesis
  proof (cases found)
    case False
    then show ?thesis using f(2) assms(1)
      by (intro exI [of _ "db_ht db"]) (simp add: C_Del del_apply_def db_ht_same fun_eq_iff)
  next
    case True
    then obtain y where "kv_ht_get (db_ht db) k = Some y" using f(2) by auto
    then show ?thesis using kv_ht_del_correct [OF assms(1), of k] True
      by (intro exI [of _ "snd (kv_ht_del (db_ht db) k)"]) (auto simp: C_Del f(1) del_apply_def split: prod.splits option.splits)
  qed
qed (use assms(2) in simp_all)

lemma inv_apply:
  assumes inv: "fine_inv es fg s as rs hv" and at: "fine_at fg u = At_Apply cmd found single"
    and ap: "apply_part cmd found (fine_db fg) = (r, db')"
  defines "fg' \<equiv> fg\<lparr>fine_db := db', fine_at := (fine_at fg)(u := if single then At_Commit cmd r else Idle)\<rparr>"
  shows "fine_inv (es @ (if single then [] else [(u, cmd, r)])) fg' s as rs hv"
proof -
  let ?db = "fine_db fg" and ?p = "if single then At_Commit cmd r else Idle"
  note sim = fine_invD(1) [OF inv]
  note db = fine_db_inv [OF inv]
  obtain a ops k where u: "fine_tx fg u = Some a" and w: "is_write cmd" "command_key cmd = Some k" and lk: "k \<in> fine_locks fg a"
    and ops: "running s u = Some (ops @ [(cmd, apply_reply cmd found)])" "single \<Longrightarrow> ops = []"
    and hk: "kv_ht_get hv k = written cmd" and fd: "written cmd = None \<Longrightarrow> found = (kv_ht_get (db_ht ?db) k \<noteq> None)"
    using fine_invD(4) [OF inv, of u] at by (auto simp: at_ok_def)
  obtain ht' where e: "r = apply_reply cmd found" "db' = ?db\<lparr>db_ht := ht'\<rparr>" "ht_inv ht'"
    "kv_ht_get ht' = (kv_ht_get (db_ht ?db))(k := written cmd)"
    using apply_part_eq [OF fine_invD(2) [OF inv] w fd] ap by auto
  have free: "k \<notin> fine_locks fg b" if "v \<noteq> u" "fine_tx fg v = Some b" for v b
    using locks_disjoint [OF db u that(2) _ lk] that(1) by auto
  have ev: "seen u (if single then [] else [(u, cmd, r)]) (vis fg s) (vis fg' s)"
  proof (cases single)
    case True
    have "vis fg' s = vis fg s" using True at by (intro vis_same [where u = u and p = ?p]) (simp_all add: fg'_def)
    then show ?thesis using True by (simp add: seen_def)
  next
    case False
    have "r = data_reply cmd (tx_view (committed s) ops)" using serial_prefix(2) sim_serial(1) [OF sim ops(1)] e(1) by blast
    then have "seen u [(u, cmd, r)] (vis fg s) (vis fg' s)"
      using at ops(1) w(2) False e(1) by (intro seen_data) (simp_all add: fg'_def vis_def)
    then show ?thesis using False by simp
  qed
  show ?thesis
  proof (rule fine_move [OF inv, where u = u and c = "Some a" and p = ?p])
    show "fine_tx fg' = (fine_tx fg)(u := Some a)" using u by (auto simp: fg'_def)
    show "sim s (fine_tx fg') as rs ((fine_db fg')\<lparr>db_ht := hv\<rparr>)" using sim by (simp add: fg'_def e(2))
    show "kv_ht_get (db_ht (fine_db fg')) j = kv_ht_get (db_ht (fine_db fg)) j \<and> kv_ht_get hv j = kv_ht_get hv j"
      if "v \<noteq> u" "fine_tx fg v = Some b" "j \<in> fine_locks fg b" for j v b
      using free [OF that(1,2)] that(3) by (auto simp: fg'_def e(2,4))
    show "kv_ht_get (db_ht (fine_db fg')) j = kv_ht_get hv j" if "\<And>v. v \<noteq> u \<Longrightarrow> j \<notin> behind (fine_at fg v)" for j
    proof (cases "j = k")
      case False
      then have "j \<notin> behind (fine_at fg v)" for v using that [of v] at w(2) by (cases "v = u") simp_all
      then show ?thesis using fine_invD(3) [OF inv, of j] False by (simp add: fg'_def e(2,4))
    qed (simp add: fg'_def e(2,4) hk)
    show "at_ok fg' s (kv_ht_get hv) u" using ops w(2) e(1) by (simp add: at_ok_def fg'_def)
  qed (use e(2,3) ev in \<open>simp_all add: fg'_def\<close>)
qed

text \<open>A delete with its bucket number.\<close>

lemma inv_unlink:
  assumes inv: "fine_inv es fg s as rs hv" and cur: "buckets_current fg" and at: "fine_at fg u = At_Unlink k hash single"
    and un: "unlink_part k hash (fine_db fg) = (r, db')"
  shows "fine_inv (es @ (if single then [] else [(u, C_Del k, r)]))
     (fg\<lparr>fine_db := db', fine_at := (fine_at fg)(u := if single then At_Commit (C_Del k) r else Idle)\<rparr>) s as rs hv"
proof -
  let ?fg = "fg\<lparr>fine_at := (fine_at fg)(u := At_Apply (C_Del k) True single)\<rparr>"
  have "hash = del_bucket k (fine_db fg)" using cur at unfolding buckets_current_def by blast
  then have ap: "apply_part (C_Del k) True (fine_db ?fg) = (r, db')" using un unlink_current by simp
  have "fine_inv es ?fg s as rs hv" by (rule fine_inv_pending [OF inv]) (simp add: at)
  from inv_apply [OF this _ ap, of u single] show ?thesis by simp
qed

text \<open>Commands that only reply, and the start of a transaction.\<close>

lemma exec_ht:
  assumes "command_key cmd = None" "cmd \<in> {C_Commit, C_Abort} \<longrightarrow> c_tx = None"
  shows "exec_command u junk cmd result c_tx (db\<lparr>db_ht := h\<rparr>) =
     map_res (\<lambda>(r, c, d). (r, c, d\<lparr>db_ht := h\<rparr>)) (exec_command u junk cmd result c_tx db)"
  using assms
  by (cases cmd)
    (auto simp: run_begin_def run_commit_def run_abort_def map_res_bind begin_tx_ht bind_res_map case_prod_unfold split: option.split)

lemma begin_tx_keeps: "begin_tx db = Inr (a, db') \<Longrightarrow> db_ht db' = db_ht db"
  by (auto simp: begin_tx_def res_iff dest!: tx_log_keeps(1))

lemma exec_keeps:
  assumes "command_key cmd = None" "cmd \<in> {C_Commit, C_Abort} \<longrightarrow> c_tx = None"
    "exec_command u junk cmd result c_tx db = Inr (result', c_tx', db')"
  shows "db_ht db' = db_ht db"
  using assms begin_tx_keeps
  by (cases cmd) (auto simp: run_begin_def run_commit_def run_abort_def res_iff split: option.splits)

lemma spec_vis:
  assumes "fine_at fg u = Idle"
  shows "spec_command u cmd (vis fg s) = (fst (spec_command u cmd s), vis fg (snd (spec_command u cmd s)))"
proof -
  have u: "running (vis fg s) u = running s u" "committed (vis fg s) = committed s" using assms by (simp_all add: vis_def)
  have upd: "vis fg (s\<lparr>running := (running s)(u := x)\<rparr>) = (vis fg s)\<lparr>running := (running (vis fg s))(u := x)\<rparr>" for x
    using assms by (auto simp: vis_def fun_eq_iff)
  have upd2: "vis fg (s\<lparr>committed := m, running := (running s)(u := x)\<rparr>) =
     (vis fg s)\<lparr>committed := m, running := (running (vis fg s))(u := x)\<rparr>" for m x
    using assms by (auto simp: vis_def fun_eq_iff)
  have com: "vis fg (s\<lparr>committed := m\<rparr>) = (vis fg s)\<lparr>committed := m\<rparr>" for m
    by (rule store.equality) (auto simp: vis_def)
  show ?thesis by (cases cmd) (auto simp: u upd upd2 com Let_def split: option.split)
qed

lemma inv_reply:
  assumes inv: "fine_inv es fg s as rs hv" and rm: "room (fine_db fg)" and u: "0 < u" "fine_at fg u = Idle"
    and cmd: "command_key cmd = None" "cmd \<in> {C_Commit, C_Abort} \<longrightarrow> fine_tx fg u = None" and len: "length result = RESULT_SIZE"
    and ex: "exec_command u junk cmd result (fine_tx fg u) (fine_db fg) = Inr (result', c_tx, db')"
  defines "fg' \<equiv> fg\<lparr>fine_db := db', fine_tx := (fine_tx fg)(u := c_tx)\<rparr>"
  shows "\<exists>s' as' qs. fine_inv (es @ [(u, cmd, cstr result')]) fg' s' as' (rs @ qs) hv"
proof -
  let ?v = "(fine_db fg)\<lparr>db_ht := hv\<rparr>"
  have small: "command_small cmd" using cmd(1) by (cases cmd) simp_all
  have rm': "room ?v" using rm by simp
  have "exec_command u junk cmd result (fine_tx fg u) ?v = Inr (result', c_tx, db'\<lparr>db_ht := hv\<rparr>)"
    using exec_ht [OF cmd] ex by simp
  then have "refines u cmd s (fine_tx fg) rs ?v (Inr (result', c_tx, db'\<lparr>db_ht := hv\<rparr>))"
    using exec_command_refines [OF fine_invD(1) [OF inv] u(1) rm' small len, of junk] by simp
  then obtain as' qs where r: "cstr result' = fst (spec_command u cmd s)"
    "sim (snd (spec_command u cmd s)) ((fine_tx fg)(u := c_tx)) as' (rs @ qs) (db'\<lparr>db_ht := hv\<rparr>)"
    "log_step u (fine_tx fg) ?v c_tx qs (db'\<lparr>db_ht := hv\<rparr>)"
    by (rule refines_answerE)
  let ?s = "snd (spec_command u cmd s)"
  have vs: "vis fg' ?s = vis fg ?s" by (simp add: vis_def fg'_def)
  have ev: "seen u [(u, cmd, cstr result')] (vis fg s) (vis fg' ?s)"
    using spec_vis [where cmd = cmd and s = s, OF u(2)] r(1) vs by (simp add: seen_def)
  have at: "fine_at fg' = (fine_at fg)(u := Idle)" using u(2) by (auto simp: fg'_def)
  have b0: "behind (fine_at fg u) = {}" "behind Idle = {}" using u(2) by simp_all
  have ht: "db_ht db' = db_ht (fine_db fg)" by (rule exec_keeps [OF cmd ex])
  have ok: "at_ok fg' ?s (kv_ht_get hv) u" using u(2) by (simp add: at_ok_def fg'_def)
  have "fine_inv (es @ [(u, cmd, cstr result')]) fg' ?s as' (rs @ qs) hv"
    by (rule fine_quiet [OF inv at b0 _ _ _ _ _ ok ev, where c = c_tx])
      (use r(2,3) ht in \<open>simp_all add: fg'_def spec_other log_step_def\<close>)
  then show ?thesis by blast
qed

lemma inv_start:
  assumes inv: "fine_inv es fg s as rs hv" and rm: "room (fine_db fg)" and u: "0 < u" "fine_at fg u = Idle"
    and k: "command_key cmd = Some k" and en: "ensure_tx (fine_tx fg u) (fine_db fg) = Inr (a, single, db')"
  defines "fg' \<equiv> fg\<lparr>fine_db := db', fine_tx := (fine_tx fg)(u := Some a), fine_at := (fine_at fg)(u := Waiting cmd single)\<rparr>"
  shows "\<exists>s' as' qs. fine_inv es fg' s' as' (rs @ qs) hv"
proof -
  let ?v = "(fine_db fg)\<lparr>db_ht := hv\<rparr>" and ?p = "Waiting cmd single"
  note sim = fine_invD(1) [OF inv]
  have at: "fine_at fg' = (fine_at fg)(u := ?p)" "fine_tx fg' = (fine_tx fg)(u := Some a)" by (simp_all add: fg'_def)
  have b0: "behind (fine_at fg u) = {}" "behind ?p = {}" using u(2) by simp_all
  show ?thesis
  proof (cases "fine_tx fg u")
    case (Some b)
    then have e: "a = b" "\<not> single" "db' = fine_db fg" using en by (auto simp: ensure_tx_def)
    have tx: "(fine_tx fg)(u := Some a) = fine_tx fg" using Some e(1) by auto
    have "vis fg' s = vis fg s" using e(2) u(2) by (intro vis_same [OF at(1)]) simp_all
    then have ev: "seen u [] (vis fg s) (vis fg' s)" by (simp add: seen_def)
    have ok: "at_ok fg' s (kv_ht_get hv) u" using e(2) k by (simp add: at_ok_def fg'_def)
    have "fine_inv (es @ []) fg' s as (rs @ []) hv"
      by (rule fine_quiet [OF inv at(1) b0 at(2) _ _ _ _ ok ev]) (use sim e(3) tx in \<open>simp_all add: fg'_def\<close>)
    then show ?thesis by (intro exI [of _ s] exI [of _ as] exI [of _ "[]"]) simp
  next
    case None
    let ?s = "s\<lparr>running := (running s)(u \<mapsto> [])\<rparr>"
    have rm': "room ?v" using rm by simp
    have e: "begin_tx (fine_db fg) = Inr (a, db')" "single" using en None by (auto simp: ensure_tx_def res_iff)
    obtain b db1 where "begin_tx ?v = Inr (b, db1)"
      "sim ?s ((fine_tx fg)(u \<mapsto> b)) (as @ [b]) (rs @ [begin_rec ?v]) db1" "log_step u (fine_tx fg) ?v (Some b) [begin_rec ?v] db1"
      by (rule begin_step [OF sim None u(1) rm'])
    then have b: "sim ?s ((fine_tx fg)(u \<mapsto> a)) (as @ [a]) (rs @ [begin_rec ?v]) (db'\<lparr>db_ht := hv\<rparr>)"
      "log_step u (fine_tx fg) ?v (Some a) [begin_rec ?v] (db'\<lparr>db_ht := hv\<rparr>)"
      using e(1) by (simp_all add: begin_tx_ht)
    have idle: "running s u = None" using sim None unfolding sim_def by blast
    have oth: "running ?s v = running s v" if "v \<noteq> u" for v using that by simp
    have "vis fg' ?s = vis fg s" using e(2) u(2) idle by (intro vis_same [OF at(1) oth]) simp_all
    then have ev: "seen u [] (vis fg s) (vis fg' ?s)" by (simp add: seen_def)
    have ok: "at_ok fg' ?s (kv_ht_get hv) u" using k by (simp add: at_ok_def fg'_def)
    have "fine_inv (es @ []) fg' ?s (as @ [a]) (rs @ [begin_rec ?v]) hv"
      by (rule fine_quiet [OF inv at(1) b0 at(2) _ _ oth _ ok ev])
        (use b begin_tx_keeps [OF e(1)] in \<open>simp_all add: fg'_def log_step_def\<close>)
    then show ?thesis by auto
  qed
qed

text \<open>The end of a transaction.\<close>

lemma ending_is_oldest:
  assumes "db_inv c as rs db" "c u = Some a" "end_tx u a db = Inr db'"
  obtains as' where "as = a # as'"
proof (cases as)
  case Nil
  then show thesis using db_invD(6) [OF assms(1,2)] by simp
next
  case (Cons b as')
  have "b = a"
  proof (rule ccontr)
    assume "b \<noteq> a"
    then have "a \<in> set as'" using db_invD(6) [OF assms(1,2)] Cons by simp
    moreover have "db_inv c (b # as') rs db" using assms(1) Cons by simp
    ultimately show False using end_tx_younger assms(3) by fastforce
  qed
  then show thesis using that Cons by blast
qed

lemma end_tx_keeps: "end_tx u a db = Inr db' \<Longrightarrow> db_ht db' = db_ht db"
  by (auto simp: end_tx_def res_iff)

lemma inv_end:
  fixes junk :: string
  assumes inv: "fine_inv es fg s as rs hv" and at: "fine_at fg u = At_End cmd r single" and u: "fine_tx fg u = Some a"
    and en: "end_tx u a (fine_db fg) = Inr db'"
  defines "fg' \<equiv> fg\<lparr>fine_db := if single then db'\<lparr>db_lm := kv_lm_unlock u (db_lm db') (unlock_arg junk cmd)\<rparr> else db',
      fine_tx := (fine_tx fg)(u := None), fine_at := (fine_at fg)(u := Idle)\<rparr>"
  shows "\<exists>s' as'. fine_inv (es @ [(u, cmd, r)]) fg' s' as' rs hv"
proof -
  let ?v = "(fine_db fg)\<lparr>db_ht := hv\<rparr>"
  note db = fine_db_inv [OF inv]
  obtain as' where as: "as = a # as'" by (rule ending_is_oldest [OF db u en])
  have sim: "sim s (fine_tx fg) (a # as') rs ?v" using fine_invD(1) [OF inv] as by simp
  obtain ops where ops: "running s u = Some ops" by (rule fine_sim_opsE [OF inv u])
  let ?s = "s\<lparr>committed := tx_view (committed s) ops, running := (running s)(u := None)\<rparr>"
  have env: "end_tx u a ?v = Inr (db'\<lparr>db_ht := hv\<rparr>)" using en by (simp add: end_tx_ht)
  have e: "\<forall>b. b \<noteq> a \<longrightarrow> tx_of db' b = tx_of (fine_db fg) b" "lm_held (db_lm db') u = (\<lambda>_. 0)"
    "sim ?s ((fine_tx fg)(u := None)) as' rs (db'\<lparr>db_ht := hv\<rparr>)"
    using end_sim [OF sim u ops] env by auto
  have u0: "0 < u" by (rule db_invD(5) [OF db u])
  have lm: "lm_inv (db_lm db')" using db_invD(2) [OF simD(1) [OF e(3)]] by simp
  have lmh: "lm_held (kv_lm_unlock u (db_lm db') (unlock_arg junk cmd)) = lm_held (db_lm (db'\<lparr>db_ht := hv\<rparr>))"
    using lm.release_nothing [OF lm u0] e(2) by (simp add: lm.holds_exactly_def)
  have sim': "sim ?s ((fine_tx fg)(u := None)) as' rs ((fine_db fg')\<lparr>db_ht := hv\<rparr>)"
    using e(3) sim_lm [OF e(3) lm.release_inv [OF lm u0] lmh] by (simp add: fg'_def ht_update_first)
  have at': "fine_at fg' = (fine_at fg)(u := Idle)" "fine_tx fg' = (fine_tx fg)(u := None)" by (simp_all add: fg'_def)
  have oth: "running ?s v = running s v" if "v \<noteq> u" for v using that by simp
  have vs: "vis fg' ?s = ?s\<lparr>running := (running (vis fg s))(u := None)\<rparr>" using vis_upd [OF at'(1) oth] by simp
  have com: "committed (vis fg s) = committed s" by (simp add: vis_def)
  have sp: "spec_command u cmd (vis fg s) = (r, vis fg' ?s)"
  proof (cases single)
    case False
    then have "cmd = C_Commit" "r = transaction_committed" using fine_invD(4) [OF inv, of u] at by (simp_all add: at_ok_def)
    moreover have "running (vis fg s) u = Some ops" using at False ops by (simp add: vis_def)
    ultimately show ?thesis unfolding vs using com by simp
  next
    case True
    then obtain k where k: "ops = [(cmd, r)]" "command_key cmd = Some k" using fine_invD(4) [OF inv, of u] at ops by (auto simp: at_ok_def)
    have run: "running (vis fg s) u = None" using at True by (simp add: vis_def)
    have "r = data_reply cmd (committed s)"
      using sim_serial(1) [OF sim ops] serial_prefix(2) [of "[]" cmd r "committed s"] k(1) by simp
    moreover have "tx_view (committed s) ops = map_writes (data_writes cmd (committed s)) (committed s)"
      using tx_view_simps(2) [of "committed s" "[]" cmd r] k(1) by simp
    moreover have "(running (vis fg s))(u := None) = running (vis fg s)" using run by auto
    ultimately show ?thesis unfolding vs spec_data [OF k(2)] using run com by simp
  qed
  then have ev: "seen u [(u, cmd, r)] (vis fg s) (vis fg' ?s)" by (simp add: seen_def)
  have b0: "behind (fine_at fg u) = {}" "behind Idle = {}" using at by simp_all
  have ok: "at_ok fg' ?s (kv_ht_get hv) u" by (simp add: at_ok_def fg'_def)
  have txs: "tx_of (fine_db fg') b = tx_of (fine_db fg) b" if "v \<noteq> u" "fine_tx fg v = Some b" for v b
    using e(1) other_tx [OF inv u that(2,1)] by (simp add: fg'_def tx_of_def)
  have ht: "db_ht (fine_db fg') = db_ht (fine_db fg)" using end_tx_keeps [OF en] by (simp add: fg'_def)
  have "sim ?s (fine_tx fg') as' rs ((fine_db fg')\<lparr>db_ht := hv\<rparr>)" using sim' at'(2) by simp
  then have "fine_inv (es @ [(u, cmd, r)]) fg' ?s as' rs hv"
    by (rule fine_quiet [OF inv at'(1) b0 at'(2) _ ht oth txs ok ev])
  then show ?thesis by blast
qed

lemma inv_rollback:
  assumes inv: "fine_inv es fg s as rs hv" and rm: "room (fine_db fg)" and at: "fine_at fg u = At_Rollback"
    and u: "fine_tx fg u = Some a" and rb: "rollback_tx a (fine_db fg) = Inr db1" and en: "end_tx u a db1 = Inr db'"
  defines "fg' \<equiv> fg\<lparr>fine_db := db', fine_tx := (fine_tx fg)(u := None), fine_at := (fine_at fg)(u := Idle)\<rparr>"
  shows "\<exists>s' as' qs hv'. fine_inv (es @ [(u, C_Abort, transaction_aborted)]) fg' s' as' (rs @ qs) hv'"
proof -
  let ?db = "fine_db fg" and ?locks = "fine_locks fg a" and ?c = "(fine_tx fg)(u := None)"
  note sim = fine_invD(1) [OF inv]
  note db = fine_db_inv [OF inv]
  obtain ops where ops: "running s u = Some ops" by (rule fine_sim_opsE [OF inv u])
  have rl: "2 * length rs + 1 < 2 ^ 32" using fine_room [OF inv rm] by simp
  obtain cs e hv' where q: "db_inv (fine_tx fg) as (rs @ cs @ [e]) (db1\<lparr>db_ht := hv'\<rparr>)"
    "\<forall>b. b \<noteq> a \<longrightarrow> tx_of db1 b = tx_of ?db b" "ht_inv (db_ht db1)"
    "kv_ht_get hv' = (\<lambda>k. if k \<in> ?locks then committed s k else kv_ht_get hv k)"
    "kv_ht_get hv' = replay (rs @ cs @ [e]) Map.empty"
    "\<And>k. k \<notin> ?locks \<Longrightarrow> kv_ht_get (db_ht db1) k = kv_ht_get (db_ht ?db) k"
    "\<And>k. kv_ht_get (db_ht ?db) k = kv_ht_get hv k \<Longrightarrow> kv_ht_get (db_ht db1) k = kv_ht_get hv' k"
    using rollback_sim [OF sim fine_invD(2) [OF inv] u ops rl] rb by auto
  have env: "end_tx u a (db1\<lparr>db_ht := hv'\<rparr>) = Inr (db'\<lparr>db_ht := hv'\<rparr>)" using en by (simp add: end_tx_ht)
  obtain as' where as: "as = a # as'" by (rule ending_is_oldest [OF q(1) u env])
  have q1: "db_inv (fine_tx fg) (a # as') (rs @ cs @ [e]) (db1\<lparr>db_ht := hv'\<rparr>)" using q(1) as by simp
  have d: "db_inv ?c as' (rs @ cs @ [e]) (db'\<lparr>db_ht := hv'\<rparr>)" "\<And>b. b \<noteq> a \<Longrightarrow> tx_of db' b = tx_of db1 b"
    using db_inv_end [OF q1 u] env by auto
  let ?s = "s\<lparr>committed := committed s, running := (running s)(u := None)\<rparr>"
  have out: "kv_ht_get hv' k = kv_ht_get hv k" if "k \<notin> ?locks" for k using that by (simp add: q(4))
  have sim': "sim ?s ?c as' (rs @ cs @ [e]) (db'\<lparr>db_ht := hv'\<rparr>)"
  proof (rule sim_forget [OF sim u d(1)])
    show "tx_of (db'\<lparr>db_ht := hv'\<rparr>) b = tx_of (?db\<lparr>db_ht := hv\<rparr>) b" if "b \<noteq> a" for b
      using d(2) [OF that] q(2) that by simp
    show "vals_ok (kv_ht_get (db_ht (db'\<lparr>db_ht := hv'\<rparr>)))"
      using simD(2,3) [OF sim] by (auto simp: q(4) vals_ok_def split: if_splits)
    show "vals_ok (committed s)" by (rule simD [OF sim])
    show "kv_ht_get (db_ht (db'\<lparr>db_ht := hv'\<rparr>)) = replay (rs @ cs @ [e]) Map.empty" using q(5) by simp
  qed (simp_all add: q(4))
  have at': "fine_at fg' = (fine_at fg)(u := Idle)" "fine_tx fg' = ?c" by (simp_all add: fg'_def)
  have oth: "running ?s v = running s v" if "v \<noteq> u" for v using that by simp
  have ht: "db_ht (fine_db fg') = db_ht db1" using end_tx_keeps [OF en] by (simp add: fg'_def)
  have vs: "vis fg' ?s = ?s\<lparr>running := (running (vis fg s))(u := None)\<rparr>" using vis_upd [OF at'(1) oth] by simp
  have "running (vis fg s) u = Some ops" using at ops by (simp add: vis_def)
  then have "spec_command u C_Abort (vis fg s) = (transaction_aborted, vis fg' ?s)"
    unfolding vs by simp (intro store.equality, simp_all add: vis_def)
  then have ev: "seen u [(u, C_Abort, transaction_aborted)] (vis fg s) (vis fg' ?s)" by (simp add: seen_def)
  have "fine_inv (es @ [(u, C_Abort, transaction_aborted)]) fg' ?s as' (rs @ cs @ [e]) hv'"
  proof (rule fine_move [OF inv at' _ _ oth _ _ _ _ ev])
    show "kv_ht_get (db_ht (fine_db fg')) k = kv_ht_get (db_ht ?db) k \<and> kv_ht_get hv' k = kv_ht_get hv k"
      if "v \<noteq> u" "fine_tx fg v = Some b" "k \<in> fine_locks fg b" for k v b
    proof -
      have "k \<notin> ?locks" using locks_disjoint [OF db that(2) u that(1,3)] .
      then show ?thesis using q(6) out ht by simp
    qed
    show "kv_ht_get (db_ht (fine_db fg')) k = kv_ht_get hv' k" if "\<And>v. v \<noteq> u \<Longrightarrow> k \<notin> behind (fine_at fg v)" for k
    proof -
      have "k \<notin> behind (fine_at fg v)" for v using that [of v] at by (cases "v = u") simp_all
      then show ?thesis using q(7) fine_invD(3) [OF inv, of k] ht by simp
    qed
    show "tx_of (fine_db fg') b = tx_of ?db b" if "v \<noteq> u" "fine_tx fg v = Some b" for v b
      using d(2) q(2) other_tx [OF inv u that(2,1)] by (simp add: fg'_def)
  qed (use sim' q(3) ht in \<open>simp_all add: fg'_def at_ok_def\<close>)
  then show ?thesis by blast
qed

text \<open>A checkpoint, in the middle of anything.\<close>

lemma inv_check:
  assumes inv: "fine_inv es fg s as rs hv" and rm: "room (fine_db fg)"
    and t: "take_snapshot usable (fine_db fg) files = Inr (db', files')"
  shows "\<exists>qs. fine_inv es (fg\<lparr>fine_db := db', fine_files := files'\<rparr>) s as (rs @ qs) hv"
proof -
  let ?fg = "fg\<lparr>fine_db := db', fine_files := files'\<rparr>"
  obtain txs where c: "length txs \<le> 4"
    "db' = (fine_db fg)\<lparr>db_rec := append_rec (check_rec (rec_lsn (db_rec (fine_db fg)) + 1) txs) (db_rec (fine_db fg))\<rparr>"
    by (rule snapshot_record [OF db_invD(1) [OF fine_db_inv [OF inv]] t])
  let ?r = "check_rec (rec_lsn (db_rec (fine_db fg)) + 1) txs"
  have rl: "length rs + 1 < 2 ^ 32" using fine_room [OF inv rm] by simp
  have "sim s (fine_tx fg) as (rs @ [?r]) (db'\<lparr>db_ht := hv\<rparr>)"
    using sim_check [OF fine_invD(1) [OF inv] c(1) rl] by (simp add: c(2) ht_update_first)
  moreover have "vis ?fg s = vis fg s" by (simp add: vis_def)
  moreover have "at_ok ?fg s h v = at_ok fg s h v" for h v
  proof -
    have "fine_at ?fg = fine_at fg" "fine_tx ?fg = fine_tx fg" "tx_of (fine_db ?fg) = tx_of (fine_db fg)"
      "db_ht (fine_db ?fg) = db_ht (fine_db fg)" by (simp_all add: c(2) tx_of_def fun_eq_iff)
    then show ?thesis by (simp only: at_ok_def)
  qed
  ultimately have "fine_inv es ?fg s as (rs @ [?r]) hv"
    using inv by (simp add: fine_inv_def) (simp add: c(2))
  then show ?thesis by blast
qed

section \<open>Every run\<close>

lemma fine_inv_step:
  assumes inv: "fine_inv es fg s as rs hv" and rm: "room (fine_db fg)" and st: "fine_step fg e fg'" and small: "at_small fg"
    and cur: "buckets_current fg"
  shows "\<exists>s' as' rs' hv'. fine_inv (es @ e) fg' s' as' rs' hv'"
  using st
proof cases
  case (fine_reply u cmd result junk result' c_tx db')
  from inv_reply [OF inv rm fine_reply(3-8)] show ?thesis unfolding fine_reply(1,2) by blast
next
  case (fine_start u cmd k a single db')
  from inv_start [OF inv rm fine_start(3-6)] show ?thesis unfolding fine_start(1,2) append_Nil2 by blast
next
  case (fine_get u k single a result result' db')
  from inv_get [OF inv fine_get(3-6)] show ?thesis unfolding fine_get(1,2) by blast
next
  case (fine_log u cmd single a found db')
  have "command_small cmd" using small fine_log(3) unfolding at_small_def by blast
  from inv_log [OF inv rm fine_log(3,4) this fine_log(5,6)] show ?thesis unfolding fine_log(1,2) append_Nil2 by blast
next
  case (fine_apply u cmd found single r db')
  from inv_apply [OF inv fine_apply(3,5)] show ?thesis unfolding fine_apply(1,2) by blast
next
  case (fine_bucket u k single)
  from fine_inv_pending [OF inv, of "At_Unlink k (del_bucket k (fine_db fg)) single" u] fine_bucket(3)
  show ?thesis unfolding fine_bucket(1,2) append_Nil2 pending.simps by simp blast
next
  case (fine_unlink u k hash single r db')
  from inv_unlink [OF inv cur fine_unlink(3,4)] show ?thesis unfolding fine_unlink(1,2) by blast
next
  case (fine_commit u a db')
  have "\<exists>qs. fine_inv es fg' s as (rs @ qs) hv"
    unfolding fine_commit(2) using fine_commit(3-5)
    by (intro inv_ending [OF inv rm fine_commit(4)]) (simp_all add: at_ok_def)
  then show ?thesis unfolding fine_commit(1) append_Nil2 by blast
next
  case (fine_single_commit u cmd r a db')
  have "at_ok fg s (kv_ht_get hv) u" by (rule fine_invD(4) [OF inv])
  then have "\<exists>qs. fine_inv es fg' s as (rs @ qs) hv"
    unfolding fine_single_commit(2) using fine_single_commit(3,5)
    by (intro inv_ending [OF inv rm fine_single_commit(4)]) (simp_all add: at_ok_def)
  then show ?thesis unfolding fine_single_commit(1) append_Nil2 by blast
next
  case (fine_end u cmd r single a db' junk)
  from inv_end [OF inv fine_end(3-5), of junk] show ?thesis unfolding fine_end(1,2) by blast
next
  case (fine_abort u a db')
  have "\<exists>qs. fine_inv es fg' s as (rs @ qs) hv"
    unfolding fine_abort(2) using fine_abort(3-5)
    by (intro inv_ending [OF inv rm fine_abort(4)]) (simp_all add: at_ok_def)
  then show ?thesis unfolding fine_abort(1) append_Nil2 by blast
next
  case (fine_rollback u a db1 db')
  from inv_rollback [OF inv rm fine_rollback(3-6)] show ?thesis unfolding fine_rollback(1,2) by blast
next
  case (fine_check usable db' files')
  from inv_check [OF inv rm fine_check(3)] show ?thesis unfolding fine_check(1,2) append_Nil2 by blast
qed

lemma fine_run_small: "fine_run es fg \<Longrightarrow> at_small fg"
  by (induction rule: fine_run.induct) (simp_all add: at_small_def init_fine_def)

lemma fine_run_current: "fine_run es fg \<Longrightarrow> buckets_current fg"
  by (induction rule: fine_run.induct) (simp_all add: buckets_current_def init_fine_def)

lemma fine_run_inv: "fine_run es fg \<Longrightarrow> \<exists>s as rs hv. fine_inv es fg s as rs hv"
proof (induction rule: fine_run.induct)
  case fine_init
  then show ?case using fine_inv_init by blast
next
  case (fine_more es fg e fg')
  then show ?case using fine_inv_step fine_run_small fine_run_current by blast
qed

end
