(* ===== verification/System.thy ===== *)
theory System
  imports Sample_Runs
begin

text \<open>
  What holds in every run of \<open>sys_step\<close>: the states are well-formed, the replies are those of the
  abstract store, the committed transactions can be run one after the other, the log gives the
  table, locked keys wait, and commands are answered.
\<close>

section \<open>Properties\<close>

text \<open>
  C7. Well-formed states.  Every state a run reaches is well-formed: the table has its keys in the
  right chains with no duplicates, the list of the transaction manager holds exactly the
  transactions of the clients, each of them once, with different numbers; every lock is held by at
  most one thread, and each thread holds exactly the locks its transaction has collected; the log
  is a sequence of records with consecutive numbers that can be read back.
\<close>

theorem run_well_formed:
  assumes "sys_run es sg"
  shows "\<exists>as rs. db_inv (sys_tx sg) as rs (sys_db sg)"
proof -
  obtain s as rs where "sim s (sys_tx sg) as rs (sys_db sg)" by (rule run_simE [OF assms])
  from simD(1) [OF this] show ?thesis by blast
qed

theorem run_well_formed_witness:
  "\<exists>sg as rs. sys_run [(1, C_Begin, transaction_started), (1, C_Set ''k'' ''v'', set_success)] sg \<and>
     db_inv (sys_tx sg) as rs (sys_db sg)"
  using set_run run_well_formed by meson

text \<open>
  Refinement of an abstract store.  In every run, of any number of clients with data
  commands, transactions, waits for locks and checkpoints in any interleaving, every reply is the
  one the abstract store gives when the commands are applied in the order of their replies: a
  store that keeps committed contents and, for each open transaction, its own commands.  At the
  end the table agrees with the committed contents on every key no open transaction has locked.
\<close>

theorem run_refines_store:
  assumes "sys_run es sg"
  shows "\<exists>s. accepts es empty_store = Some s \<and>
    (\<forall>k. (\<forall>u a. sys_tx sg u = Some a \<longrightarrow> k \<notin> set (tx_locks (tx_of (sys_db sg) a))) \<longrightarrow>
       kv_ht_get (db_ht (sys_db sg)) k = committed s k)"
proof -
  obtain s as rs where inv: "sim s (sys_tx sg) as rs (sys_db sg)" "accepts es empty_store = Some (hide sg s)"
    by (rule run_simE [OF assms])
  have "\<forall>k. (\<forall>u a. sys_tx sg u = Some a \<longrightarrow> k \<notin> sys_locks sg a) \<longrightarrow> kv_ht_get (db_ht (sys_db sg)) k = committed (hide sg s) k"
    using simD(5) [OF inv(1)] by (simp add: hide_def)
  then show ?thesis using inv(2) by blast
qed

theorem run_refines_store_witness:
  "\<exists>sg s. sys_run [(1, C_Begin, transaction_started), (1, C_Set ''k'' ''v'', set_success)] sg \<and>
     accepts [(1, C_Begin, transaction_started), (1, C_Set ''k'' ''v'', set_success)] empty_store = Some s"
  using set_run run_refines_store by meson

text \<open>
  Serializability.  The transactions a run has committed, single commands included, run one
  after the other in the order of their commits on an empty store, give every reply the clients
  got and the contents of the table on the keys no open transaction has locked.  Aborted
  transactions leave no trace.
\<close>

theorem run_serializable:
  assumes "sys_run es sg"
  shows "\<exists>m. serially (snd (history es)) Map.empty = Some m \<and>
    (\<forall>k. (\<forall>u a. sys_tx sg u = Some a \<longrightarrow> k \<notin> set (tx_locks (tx_of (sys_db sg) a))) \<longrightarrow>
       kv_ht_get (db_ht (sys_db sg)) k = m k)"
proof -
  obtain s as rs where "sim s (sys_tx sg) as rs (sys_db sg)" "serially (snd (history es)) Map.empty = Some (committed s)"
    by (rule run_simE [OF assms])
  then show ?thesis using simD(5) by (intro exI [of _ "committed s"]) blast
qed

theorem run_serializable_witness:
  "\<exists>sg m. sys_run [(1, C_Begin, transaction_started), (1, C_Set ''k'' ''v'', set_success)] sg \<and>
     serially (snd (history [(1, C_Begin, transaction_started), (1, C_Set ''k'' ''v'', set_success)])) Map.empty = Some m"
  using set_run run_serializable by meson

text \<open>
  C6. Progress.  In every state of a run, a command a thread starts comes to an end with the
  reply of the abstract store; or it waits for a lock of the same slot as a key another thread's
  transaction has locked; or it reads an unwritten list pointer, and then another thread has
  a transaction open.  Nothing else can happen: no other fault, no wrong reply.
\<close>

theorem run_progress:
  assumes "sys_run es sg" "room (sys_db sg)" "0 < u" "sys_wait sg u = None" "command_small cmd" "length result = RESULT_SIZE"
  shows "(\<exists>s result' c_tx db'. accepts es empty_store = Some s \<and>
       exec_command u junk cmd result (sys_tx sg u) (sys_db sg) = Inr (result', c_tx, db') \<and>
       cstr result' = fst (spec_command u cmd s)) \<or>
     (exec_command u junk cmd result (sys_tx sg u) (sys_db sg) = Inl Blocked \<and>
       (\<exists>v b k j. command_key cmd = Some j \<and> v \<noteq> u \<and> sys_tx sg v = Some b \<and>
          k \<in> set (tx_locks (tx_of (sys_db sg) b)) \<and> slot j = slot k)) \<or>
     (exec_command u junk cmd result (sys_tx sg u) (sys_db sg) = Inl Uninit \<and> (\<exists>v. v \<noteq> u \<and> sys_tx sg v \<noteq> None))"
  by (rule run_outcome [OF assms, of junk]) blast+

theorem run_progress_witness:
  "\<exists>sg result' c_tx db'. sys_run [(1, C_Begin, transaction_started), (1, C_Set ''k'' ''v'', set_success)] sg \<and>
     exec_command 1 [] (C_Get ''k'') (replicate 64 NUL) (sys_tx sg 1) (sys_db sg) = Inr (result', c_tx, db') \<and> cstr result' = ''v''"
proof -
  obtain sg a where sg: "sys_run [(1, C_Begin, transaction_started), (1, C_Set ''k'' ''v'', set_success)] sg" "room (sys_db sg)"
    "sys_wait sg = (\<lambda>_. None)" "sys_tx sg = [1 \<mapsto> a]" using set_run by blast
  have len: "length (replicate 64 NUL :: string) = RESULT_SIZE" by simp
  have alone: "sys_tx sg v = None" if "v \<noteq> 1" for v using sg(4) that by simp
  obtain s result' c_tx db' where "accepts [(1, C_Begin, transaction_started), (1, C_Set ''k'' ''v'', set_success)] empty_store = Some s"
    "exec_command 1 [] (C_Get ''k'') (replicate 64 NUL) (sys_tx sg 1) (sys_db sg) = Inr (result', c_tx, db')"
    "cstr result' = fst (spec_command 1 (C_Get ''k'') s)"
    using run_progress [OF sg(1,2) _ _ _ len, of 1 "C_Get ''k''" "[]"] sg(3) alone by fastforce
  then show ?thesis using sg(1) by (auto simp: empty_store_def Let_def tx_view_def tx_writes_def)
qed

text \<open>
  C9. Alone, a client is always served: while no other thread has a transaction open, every
  command is answered, and with the reply of the abstract store.
\<close>

theorem alone_answered:
  assumes run: "sys_run es sg" and rm: "room (sys_db sg)" and u: "0 < u" "sys_wait sg u = None"
    and cmd: "command_small cmd" "length result = RESULT_SIZE" and alone: "\<forall>v. v \<noteq> u \<longrightarrow> sys_tx sg v = None"
  shows "\<exists>s result' c_tx db'. accepts es empty_store = Some s \<and>
    exec_command u junk cmd result (sys_tx sg u) (sys_db sg) = Inr (result', c_tx, db') \<and>
    cstr result' = fst (spec_command u cmd s)"
  by (rule run_outcome [OF run rm u cmd, of junk]) (use alone in auto)

theorem alone_answered_witness:
  "\<exists>sg result' c_tx db'. sys_run [(1, C_Begin, transaction_started), (1, C_Set ''k'' ''v'', set_success)] sg \<and>
    exec_command 1 [] (C_Get ''k'') (replicate 64 NUL) (sys_tx sg 1) (sys_db sg) = Inr (result', c_tx, db')"
proof -
  obtain sg a where sg: "sys_run [(1, C_Begin, transaction_started), (1, C_Set ''k'' ''v'', set_success)] sg" "room (sys_db sg)"
    "sys_wait sg = (\<lambda>_. None)" "sys_tx sg = [1 \<mapsto> a]" using set_run by blast
  have "length (replicate 64 NUL :: string) = RESULT_SIZE" "\<forall>v. v \<noteq> 1 \<longrightarrow> sys_tx sg v = None" using sg(4) by simp_all
  with alone_answered [OF sg(1,2), of 1 "C_Get ''k''" "replicate 64 NUL" "[]"] sg(1,3) show ?thesis by fastforce
qed

text \<open>
  C5. Isolation.  A key that an open transaction has read or written cannot be read or written
  by any other thread: a command on a key of the same slot waits, whether it is just starting
  or has been waiting already.
\<close>

theorem locked_key_waits:
  assumes run: "sys_run es sg" and rm: "room (sys_db sg)"
    and v: "sys_tx sg v = Some b" "k \<in> set (tx_locks (tx_of (sys_db sg) b))"
    and u: "0 < u" "v \<noteq> u" "command_key cmd = Some j" "slot j = slot k"
  shows "exec_command u junk cmd result (sys_tx sg u) (sys_db sg) = Inl Blocked \<and>
    (\<forall>a single. sys_tx sg u = Some a \<longrightarrow> rest_of_data u junk cmd result a single (sys_db sg) = Inl Blocked)"
proof -
  obtain s as rs where sim: "sim s (sys_tx sg) as rs (sys_db sg)" by (rule run_simE [OF run])
  have inv: "db_inv (sys_tx sg) as rs (sys_db sg)" by (rule simD [OF sim])
  show ?thesis
    using exec_waits [OF sim u(1) rm u(3) v(1) u(2) v(2) u(4), of junk result]
      rest_blocked [OF inv db_invD(6) [OF inv] wlock_held [OF inv u(1) v(1) u(2) v(2) u(4)] u(3), of u] by simp
qed

theorem locked_key_waits_witness:
  "\<exists>sg. sys_run [(1, C_Begin, transaction_started), (1, C_Set ''k'' ''v'', set_success)] sg \<and>
    exec_command 2 [] (C_Get ''k'') (replicate 64 NUL) (sys_tx sg 2) (sys_db sg) = Inl Blocked"
proof -
  obtain sg a where sg: "sys_run [(1, C_Begin, transaction_started), (1, C_Set ''k'' ''v'', set_success)] sg" "room (sys_db sg)"
    "sys_tx sg 1 = Some a" "''k'' \<in> sys_locks sg a" using set_run by fastforce
  with locked_key_waits [OF sg(1-4), of 2 "C_Get ''k''" "''k''" "[]" "replicate 64 NUL"] show ?thesis by auto
qed

text \<open>
  The log holds everything.  In every state of a run, redo of the whole log into a new
  table, as a restart without a checkpoint does it, gives the contents of the table.
\<close>

theorem run_log_redoes_table:
  assumes run: "sys_run es sg" and rm: "room (sys_db sg)" and files: "last_lsn_file files = None"
    and ht0: "kv_ht_create 2 str_hash_func str_cmp_func = Inr ht0"
  shows "\<exists>ht. kv_recovery_redo files (recovery_file (db_rec (sys_db sg))) ht0 = Inr ht \<and>
    kv_ht_get ht = kv_ht_get (db_ht (sys_db sg))"
proof -
  obtain s as rs where sim: "sim s (sys_tx sg) as rs (sys_db sg)" by (rule run_simE [OF run])
  obtain ht :: kv_table where "kv_ht_create 2 str_hash_func str_cmp_func = Inr ht" "ht_inv ht" "kv_ht_get ht = Map.empty"
    using kv_ht_create_correct [of 2 str_cmp_func str_hash_func] by auto
  then have "ht_inv ht0" "kv_ht_get ht0 = Map.empty" using ht0 by simp_all
  moreover have "log_rep (db_rec (sys_db sg)) rs" by (rule db_invD [OF simD(1) [OF sim]])
  moreover have "length rs + 1 < 2 ^ 32" using room_length [OF sim rm] by simp
  ultimately show ?thesis using redo_whole_log [OF _ _ _ files, of _ rs ht0] simD(4) [OF sim] by metis
qed

theorem run_log_redoes_table_witness:
  "\<exists>sg ht ht0. sys_run [(1, C_Begin, transaction_started), (1, C_Set ''k'' ''v'', set_success)] sg \<and>
    kv_recovery_redo \<lparr>last_lsn_file = None, snapshot_dir = Map.empty\<rparr> (recovery_file (db_rec (sys_db sg))) ht0 = Inr ht \<and>
    kv_ht_get ht = kv_ht_get (db_ht (sys_db sg))"
proof -
  obtain sg where sg: "sys_run [(1, C_Begin, transaction_started), (1, C_Set ''k'' ''v'', set_success)] sg" "room (sys_db sg)"
    using set_run by blast
  obtain ht0 :: kv_table where "kv_ht_create 2 str_hash_func str_cmp_func = Inr ht0" by (simp add: kv_ht_create_def)
  then show ?thesis using sg run_log_redoes_table [OF sg, of "\<lparr>last_lsn_file = None, snapshot_dir = Map.empty\<rparr>" ht0] by auto
qed

text \<open>
  C8. No wait is for nothing.  A command inside a transaction that waits for its lock is answered as
  soon as no other transaction holds a key of the same slot.  A single command, whose commit has
  to find its transaction in the list, is answered as soon as no other transaction is open at all.
\<close>

theorem waiting_served:
  assumes run: "sys_run es sg" and rm: "room (sys_db sg)"
    and w: "sys_wait sg u = Some (cmd, single)" "command_key cmd = Some j"
    and free: "\<forall>v b. v \<noteq> u \<longrightarrow> sys_tx sg v = Some b \<longrightarrow> \<not> single \<and> slot j \<notin> slot ` set (tx_locks (tx_of (sys_db sg) b))"
  shows "\<exists>r sg'. sys_step sg [(u, cmd, r)] sg' \<and> sys_wait sg' u = None"
proof -
  obtain s as rs where sim: "sim s (sys_tx sg) as rs (sys_db sg)" and ok: "waits_ok sg s" by (rule run_simE [OF run])
  note inv = simD(1) [OF sim]
  obtain a where a: "sys_tx sg u = Some a" and small: "command_small cmd" and sg1: "single \<Longrightarrow> running s u = Some []"
    using ok w(1) unfolding waits_ok_def by blast
  have rl: "length rs + 1 < 2 ^ 32" "length rs + 2 < 2 ^ 32" using room_length [OF sim rm] by simp_all
  have "\<not> 0 < lm_held (db_lm (sys_db sg)) v (slot j)" if "v \<noteq> u" for v using held_owner [OF inv] free that by blast
  then obtain lm where lm: "kv_lm_wlock u (db_lm (sys_db sg)) j = Inr lm"
    using wlock_cases [OF inv db_invD(5) [OF inv a], of j] by metis
  have len: "length (replicate 64 NUL :: string) = RESULT_SIZE" by simp
  have "\<exists>result' c_tx db'. rest_of_data u [] cmd (replicate 64 NUL) a single (sys_db sg) = Inr (result', c_tx, db')"
  proof (cases single)
    case False
    obtain ops where ops: "running s u = Some ops" by (rule sim_opsE [OF sim a])
    show ?thesis using rest_in_tx [OF sim a ops rl(1) w(2) small len lm, of "[]"] False by auto
  next
    case True
    then have "sys_tx sg v = None" if "v \<noteq> u" for v using free that by (cases "sys_tx sg v") auto
    then have "as = [a]" by (intro only_tx [OF inv a]) blast
    then have sm: "sim s (sys_tx sg) [a] rs (sys_db sg)" using sim by simp
    show ?thesis using rest_single [OF sm a sg1 [OF True] rl(2) w(2) small len lm, of "[]"] True by auto
  qed
  then show ?thesis using step_resume [OF w(1) a len] by fastforce
qed

theorem waiting_served_witness:
  "\<exists>sg r sg'. sys_run [(1, C_Begin, transaction_started), (1, C_Set ''k'' ''v'', set_success), (1, C_Commit, transaction_committed)] sg \<and>
     sys_wait sg 2 = Some (C_Get ''k'', True) \<and> sys_step sg [(2, C_Get ''k'', r)] sg'"
proof -
  obtain sg a where sg: "sys_run [(1, C_Begin, transaction_started), (1, C_Set ''k'' ''v'', set_success), (1, C_Commit, transaction_committed)] sg"
    "room (sys_db sg)" "sys_wait sg = [2 \<mapsto> (C_Get ''k'', True)]" "sys_tx sg = [2 \<mapsto> a]" using wait_run by blast
  have "sys_wait sg 2 = Some (C_Get ''k'', True)" using sg(3) by simp
  moreover have "\<forall>v b. v \<noteq> 2 \<longrightarrow> sys_tx sg v = Some b \<longrightarrow> \<not> True \<and> slot ''k'' \<notin> slot ` set (tx_locks (tx_of (sys_db sg) b))"
    using sg(4) by simp
  ultimately show ?thesis using waiting_served [OF sg(1,2), of 2 "C_Get ''k''" True "''k''"] sg(1) by fastforce
qed
end
