(* ===== verification/Snapshot_Thread.thy ===== *)
theory Snapshot_Thread
  imports Kv_Recovery
begin

text \<open>
  The thread of \<open>kv_recovery_snapshot_handler\<close>: its loop over waits and checkpoints, the fork into
  parent and child, and the two ways behind the loop, the end of the thread and the writing of a
  snapshot that ends the process.

  The lemmas show that a checkpoint of the parent followed by the way of its child is the one step
  \<open>take_snapshot\<close> of Kv_Snapshot, which way is taken when, and what a snapshot with a wrong
  number does to the next start.
\<close>

section \<open>Definitions\<close>

text \<open>
  One round of the loop, entered with \<open>is_running\<close> set: what the other threads do to the state
  during the wait, whether the wait ran into its time limit, and what \<open>malloc\<close> and \<open>fork\<close> return.
\<close>

record snapshot_round =
  round_others :: "kv_db \<Rightarrow> kv_db"
  round_timed_out :: bool
  round_usable :: "nat \<Rightarrow> nat"
  round_fork :: int

text \<open>The variables of the thread that live from one round to the next; \<open>check_lsn\<close> starts unwritten.\<close>

record snapshot_vars =
  snap_pid :: int
  snap_check_lsn :: "u32 option"

text \<open>
  The loop.  A child, for which \<open>fork\<close> returned 0, resets its own \<open>is_running\<close> and leaves; in
  the other processes the loop ends when \<open>is_running\<close> is found reset, with the rounds used up.
\<close>

fun snapshot_loop :: "snapshot_round list \<Rightarrow> snapshot_vars \<Rightarrow> kv_db \<Rightarrow> (snapshot_vars \<times> kv_db) res" where
  "snapshot_loop [] vars db = Inr (vars, db)"
| "snapshot_loop (r # rs) vars db =
     (if \<not> round_timed_out r then snapshot_loop rs vars (round_others r db)
      else
        bind_res (snapshot_check (round_usable r) (round_others r db)) (\<lambda>(check_lsn, db).
        let pid = round_fork r; vars = \<lparr>snap_pid = pid, snap_check_lsn = Some check_lsn\<rparr> in
        if pid = 0 then Inr (vars, db) else snapshot_loop rs vars db))"

text \<open>
  Behind the loop: with \<open>pid\<close> not 0 the thread returns; otherwise the process writes the
  snapshot and exits.  \<open>mkdir_ok\<close>: the directory was created or was there; \<open>fopen_ok\<close>: the snapshot
  file could be opened, a null pointer is used otherwise.
\<close>

datatype snapshot_end = Thread_Returned | Process_Exited kv_files

definition snapshot_tail ::
  "bool \<Rightarrow> bool \<Rightarrow> snapshot_vars \<Rightarrow> kv_db \<Rightarrow> kv_files \<Rightarrow> snapshot_end res" where
  "snapshot_tail mkdir_ok fopen_ok vars db files =
     (if snap_pid vars \<noteq> 0 then Inr Thread_Returned
      else
        case snap_check_lsn vars of
          None \<Rightarrow> Inl Uninit
        | Some check_lsn \<Rightarrow>
            if \<not> mkdir_ok then Inl Exit1
            else if \<not> fopen_ok then Inl Null_Deref
            else bind_res (snapshot_child check_lsn (db_ht db) files) (\<lambda>files. Inr (Process_Exited files)))"

definition kv_recovery_snapshot_handler ::
  "snapshot_round list \<Rightarrow> bool \<Rightarrow> bool \<Rightarrow> kv_db \<Rightarrow> kv_files \<Rightarrow> (snapshot_end \<times> kv_db) res" where
  "kv_recovery_snapshot_handler rounds mkdir_ok fopen_ok db files =
     bind_res (snapshot_loop rounds \<lparr>snap_pid = 0, snap_check_lsn = None\<rparr> db) (\<lambda>(vars, db).
     bind_res (snapshot_tail mkdir_ok fopen_ok vars db files) (\<lambda>out. Inr (out, db)))"

section \<open>Lemmas\<close>

abbreviation check_round :: "(nat \<Rightarrow> nat) \<Rightarrow> int \<Rightarrow> snapshot_round" where
  "check_round usable pid \<equiv>
     \<lparr>round_others = (\<lambda>db. db), round_timed_out = True, round_usable = usable, round_fork = pid\<rparr>"

text \<open>The state after rounds that were woken up before their time.\<close>

lemma loop_idle:
  "\<forall>r \<in> set rs. \<not> round_timed_out r \<Longrightarrow>
   snapshot_loop (rs @ qs) vars db = snapshot_loop qs vars (fold round_others rs db)"
  by (induction rs arbitrary: db) simp_all

text \<open>As long as every fork makes a parent of it, the thread goes on; it returns if it took a checkpoint.\<close>

lemma loop_parent:
  assumes "snapshot_loop rs vars db = Inr (vars', db')" "\<forall>r \<in> set rs. round_fork r \<noteq> 0"
  shows "if \<exists>r \<in> set rs. round_timed_out r then snap_pid vars' \<noteq> 0 \<and> snap_check_lsn vars' \<noteq> None else vars' = vars"
  using assms
proof (induction rs arbitrary: vars db)
  case (Cons r rs)
  show ?case
  proof (cases "round_timed_out r")
    case True
    then obtain lsn db1 where "snapshot_loop rs \<lparr>snap_pid = round_fork r, snap_check_lsn = Some lsn\<rparr> db1 = Inr (vars', db')"
      using Cons.prems by (auto simp: res_iff Let_def)
    from Cons.IH [OF this] show ?thesis using Cons.prems(2) True by (auto split: if_splits)
  next
    case False
    then show ?thesis using Cons.prems Cons.IH [of vars "round_others r db"] by simp
  qed
qed simp

text \<open>A checkpoint is the check of the parent followed by the way of the child.\<close>

lemma take_snapshot_processes:
  "take_snapshot usable db files =
     bind_res (kv_recovery_snapshot_handler [check_round usable 0] True True db files) (\<lambda>(out, db).
     case out of Thread_Returned \<Rightarrow> Inr (db, files) | Process_Exited files \<Rightarrow> Inr (db, files))"
  by (simp add: take_snapshot_def kv_recovery_snapshot_handler_def snapshot_tail_def bind_res_assoc Let_def
      case_prod_unfold)

lemma take_snapshot_parent:
  assumes "pid \<noteq> 0" "take_snapshot usable db files = Inr (db', files')"
  shows "kv_recovery_snapshot_handler [check_round usable pid] mkdir_ok fopen_ok db files = Inr (Thread_Returned, db')"
  using assms
  by (auto simp: take_snapshot_def kv_recovery_snapshot_handler_def snapshot_tail_def res_iff Let_def)

text \<open>Behind a number no record has, nothing of the log is replayed.\<close>

lemma get_log_beyond:
  assumes rep: "log_rep st rs" "rs \<noteq> []" and n: "length rs < unat n"
  shows "kv_recovery_get_log (n + 1) (recovery_file st) = Inr None"
proof (cases "n = -1")
  case True
  then show ?thesis using log_rep_get_zero [OF rep] by simp
next
  case False
  then have "1 + n \<noteq> 0" by (metis add_eq_0_iff)
  then have "unat (n + 1) = unat n + 1" by (simp add: unatSuc add.commute)
  then have "length rs < unat (n + 1)" "unat (n + 1) < 2 ^ 32"
    using n unsigned_less [of "n + 1", where 'a = nat] by simp_all
  from log.get_out [OF rep(1) this] show ?thesis by (simp only: of_nat_unat ucast_id)
qed

section \<open>Properties\<close>

text \<open>
  C18. The ways the checkpoint thread ends, for every sequence of waits and checkpoints that does
  not fail.  A child writes the snapshot of the table as it was at its fork, with the number of its
  CHECK record, and exits.  A parent that took a checkpoint returns.  But a server that is shut down
  before its first checkpoint takes the way of a child: it goes on to write a
  snapshot, under a number that was never written.
\<close>

theorem snapshot_thread_ends:
  assumes loop: "snapshot_loop rs \<lparr>snap_pid = 0, snap_check_lsn = None\<rparr> db = Inr (vars, db1)"
    and parents: "\<forall>r \<in> set rs. round_fork r \<noteq> 0"
    and child: "take_snapshot usable db1 files = Inr (db2, files2)"
  shows "kv_recovery_snapshot_handler (rs @ [check_round usable 0]) True True db files = Inr (Process_Exited files2, db2) \<and>
    kv_recovery_snapshot_handler rs True True db files =
       (if \<exists>r \<in> set rs. round_timed_out r then Inr (Thread_Returned, db1) else Inl Uninit)"
proof (rule conjI)
  have app: "snapshot_loop (rs @ qs) v d = bind_res (snapshot_loop rs v d) (\<lambda>(v, d). snapshot_loop qs v d)"
    if "\<forall>r \<in> set rs. round_fork r \<noteq> 0" for qs rs v d
    using that by (induction rs arbitrary: v d) (auto simp: bind_res_assoc Let_def intro!: bind_res_cong)
  obtain lsn where c: "snapshot_check usable db1 = Inr (lsn, db2)" "snapshot_child lsn (db_ht db2) files = Inr files2"
    using child by (auto simp: take_snapshot_def res_iff)
  show "kv_recovery_snapshot_handler (rs @ [check_round usable 0]) True True db files = Inr (Process_Exited files2, db2)"
    by (simp add: kv_recovery_snapshot_handler_def app [OF parents] loop c snapshot_tail_def)
  show "kv_recovery_snapshot_handler rs True True db files =
       (if \<exists>r \<in> set rs. round_timed_out r then Inr (Thread_Returned, db1) else Inl Uninit)"
    using loop_parent [OF loop parents]
    by (auto simp: kv_recovery_snapshot_handler_def loop snapshot_tail_def split: if_splits)
qed

theorem snapshot_thread_ends_witness:
  "\<exists>db2 files2. take_snapshot (\<lambda>_. 0) fresh_db \<lparr>last_lsn_file = None, snapshot_dir = Map.empty\<rparr> = Inr (db2, files2) \<and>
    kv_recovery_snapshot_handler [check_round (\<lambda>_. 0) 0] True True fresh_db \<lparr>last_lsn_file = None, snapshot_dir = Map.empty\<rparr> =
      Inr (Process_Exited files2, db2) \<and>
    kv_recovery_snapshot_handler [] True True fresh_db \<lparr>last_lsn_file = None, snapshot_dir = Map.empty\<rparr> = Inl Uninit"
proof -
  let ?files = "\<lparr>last_lsn_file = None, snapshot_dir = Map.empty\<rparr>"
  obtain db2 files2 where c: "take_snapshot (\<lambda>_. 0) fresh_db ?files = Inr (db2, files2)"
    by (auto simp: take_snapshot_def snapshot_check_def snapshot_child_def kv_ht_foreach_def fresh_db_def
        kv_txm_ongoing_transaction_ids_def ongoing_ids_at_def check_log_eq kv_ll_size_def kv_ll_create_def)
  have "snapshot_loop [] \<lparr>snap_pid = 0, snap_check_lsn = None\<rparr> fresh_db = Inr (\<lparr>snap_pid = 0, snap_check_lsn = None\<rparr>, fresh_db)"
    by simp
  from snapshot_thread_ends [OF this _ c] show ?thesis using c by simp
qed

text \<open>
  C19. A snapshot under a wrong number hides the log.  With a number in \<open>last_checked_lsn.kvdb\<close> that
  is larger than that of every record, as a shutdown before the first checkpoint can leave it,
  each later start loads that snapshot and replays nothing: whatever was committed and logged since
  is lost.
\<close>

theorem stray_snapshot_hides_log:
  assumes rep: "log_rep st rs" "2 \<le> length rs" and n: "length rs < unat n"
    and ht0: "ht_inv ht0" "kv_ht_get ht0 = Map.empty"
    and stray: "snapshot_child n old files = Inr files'" "ht_inv old" "table_ok old"
  shows "kv_recovery_recover files' (recovery_file st) = Inr st \<and>
    (\<exists>ht'. kv_recovery_redo files' (recovery_file st) ht0 = Inr ht' \<and> kv_ht_get ht' = kv_ht_get old)"
proof -
  have ne: "rs \<noteq> []" "length rs \<noteq> 1" using rep(2) by auto
  obtain content where c: "kv_ht_foreach old kv_hashtable_foreach (Inr []) = Inr content"
    "snapshot_dir files' (snapshot_file_name (fmt_08X n)) = Some content"
    "last_lsn_file files' = Some (write_last_lsn n (last_lsn_file files))"
    using stray(1) by (auto simp: snapshot_child_def res_iff)
  obtain t where t: "last_lsn_file files' = Some (fmt_08X n @ t)" using write_last_lsn_prefix c(3) by metis
  obtain ht' where ht': "load_snapshot [] content ht0 = Inr ht'" "kv_ht_get ht' = kv_ht_get old"
    using snapshot_load [OF stray(2,3) ht0, of "[]"] c(1) by auto
  have "0 < n" using n by (cases "n = 0") (simp_all add: word_gt_0)
  then have "kv_recovery_redo files' (recovery_file st) ht0 = Inr ht'"
    using t c(2) ht'(1) get_log_beyond [OF rep(1) ne(1) n] by (simp add: kv_recovery_redo_def)
  then show ?thesis using recover_stray [OF rep(1) ne(2) t n] ht'(2) by blast
qed

theorem stray_snapshot_hides_log_witness:
  "\<exists>st rs ht0 files' ht'. log_rep st rs \<and> replay rs Map.empty = [''k'' \<mapsto> ''v''] \<and>
    kv_ht_create 2 str_hash_func str_cmp_func = Inr ht0 \<and>
    snapshot_child 9 ht0 \<lparr>last_lsn_file = None, snapshot_dir = Map.empty\<rparr> = Inr files' \<and>
    kv_recovery_redo files' (recovery_file st) ht0 = Inr ht' \<and> kv_ht_get ht' = Map.empty"
proof -
  let ?files = "\<lparr>last_lsn_file = None, snapshot_dir = Map.empty\<rparr>"
  let ?r1 = "short_rec KV_REC_BEGIN 1 0 1" and ?r2 = "update_rec 2 1 1 ''k'' [] ''v''"
  have l1: "log_rep (append_rec ?r1 \<lparr>recovery_file = [], rec_lsn = 0\<rparr>) ([] @ [?r1])"
    by (rule log_rep_append [OF log_rep_empty]) (simp_all add: short_line_eq(2), simp add: short_rec_def)
  have ok: "line_ok ?r2" by (simp add: line_ok_def update_rec_def small_str_def)
  have l2: "log_rep (append_rec ?r2 (append_rec ?r1 \<lparr>recovery_file = [], rec_lsn = 0\<rparr>)) ([?r1] @ [?r2])"
    by (rule log_rep_append [OF l1 [simplified] ok]) (simp_all add: append_rec_def rec_defs)
  have rp: "replay ([?r1] @ [?r2]) Map.empty = [''k'' \<mapsto> ''v'']"
    by (simp add: replay_rec_def rec_defs val_of_def)
  obtain ht0 :: kv_table where ht0: "kv_ht_create 2 str_hash_func str_cmp_func = Inr ht0" "ht_inv ht0" "kv_ht_get ht0 = Map.empty"
    using kv_ht_create_correct [of 2 str_cmp_func str_hash_func] by auto
  have "table_ok ht0" using ht0(3) by (simp add: table_ok_def)
  moreover from this obtain files' where f: "snapshot_child 9 ht0 ?files = Inr files'"
    using snapshot_load [OF ht0(2) _ ht0(2,3), of "[]"] by (auto simp: snapshot_child_def)
  ultimately obtain ht' where "kv_recovery_redo files' (recovery_file (append_rec ?r2 (append_rec ?r1 \<lparr>recovery_file = [], rec_lsn = 0\<rparr>))) ht0 = Inr ht'"
    "kv_ht_get ht' = Map.empty"
    using stray_snapshot_hides_log [OF l2 _ _ ht0(2,3) f ht0(2)] ht0(3) by auto
  then show ?thesis using l2 rp ht0(1) f by blast
qed

end
