(* ===== verification/Server.thy ===== *)
theory Server
  imports System Snapshot_Thread
begin

text \<open>
  \<open>main.c\<close> and \<open>kv_server.c\<close>: the arguments of the program, what a server does before it takes
  clients, the loop that takes them, and what it does at the end.

  The lemmas show which port is served, that a server started without files has the state
  every run begins with, and that a shutdown with two transactions open reads an unwritten
  pointer.  What a start finds after a crash is the subject of Restart.
\<close>

section \<open>Definitions\<close>

subsection \<open>The arguments\<close>

datatype arg_state = KV_ARG_READY | KV_ARG_PORT_SETTING

text \<open>\<open>argv\<close> is the list of arguments behind the name of the program.\<close>

fun arg_loop :: "arg_state \<Rightarrow> int \<Rightarrow> string list \<Rightarrow> int res" where
  "arg_loop state port [] = Inr port"
| "arg_loop state port (arg # argv) =
     (case state of
        KV_ARG_READY \<Rightarrow> arg_loop (if arg = ''-p'' then KV_ARG_PORT_SETTING else state) port argv
      | KV_ARG_PORT_SETTING \<Rightarrow> bind_res (digit_to_int arg) (\<lambda>port. arg_loop state port argv))"

text \<open>The port goes to \<open>kv_run_server\<close> as 16 bits.\<close>

definition DEFAULT_PORT :: int where
  "DEFAULT_PORT = 1234"

definition main_port :: "string list \<Rightarrow> 16 word res" where
  "main_port argv =
     bind_res (arg_loop KV_ARG_READY 0 argv) (\<lambda>port.
     Inr (word_of_int (if port = 0 then DEFAULT_PORT else port)))"

subsection \<open>Start and end of a server\<close>

text \<open>
  \<open>kv_recovery_init\<close> opens the log again for appending; it keeps the number that
  \<open>kv_recovery_recover\<close> found.
\<close>

definition kv_recovery_init :: "kv_rec \<Rightarrow> kv_rec" where
  "kv_recovery_init st = st"

text \<open>The order of the calls in \<open>kv_run_server\<close>; the log is the one recover leaves.\<close>

definition server_start :: "kv_files \<Rightarrow> string \<Rightarrow> string \<Rightarrow> kv_db res" where
  "server_start files log_file tx_ids =
     bind_res (kv_ht_create 2 str_hash_func str_cmp_func) (\<lambda>ht.
     bind_res (kv_recovery_recover files log_file) (\<lambda>st.
     bind_res (kv_recovery_redo files (recovery_file st) ht) (\<lambda>ht.
     let st = kv_recovery_init st in
     bind_res (kv_txm_init tx_ids) (\<lambda>txm.
     Inr \<lparr>db_ht = ht, db_lm = kv_lm_create, db_txm = txm, db_rec = st\<rparr>))))"

text \<open>
  The loop that takes clients.  An entry is the value of \<open>is_running\<close> when the loop looks at
  it and what \<open>accept\<close>, the greeting and the creation of the thread returned; the result is
  the list of the sockets handed to client threads, each with whether it is open.
\<close>

datatype accept_result = Accept_Error | Accepted (client_fd: int) (write_ret: int) (create_ret: int)

fun accept_loop :: "(bool \<times> accept_result) list \<Rightarrow> (int \<times> bool) list" where
  "accept_loop [] = []"
| "accept_loop ((is_running, r) # rs) =
     (if \<not> is_running then []
      else
        (case r of
           Accept_Error \<Rightarrow> []
         | Accepted fd written ret \<Rightarrow>
             if ret \<noteq> 0 then accept_loop rs else (fd, \<not> written < 11) # accept_loop rs))"

text \<open>
  The end: the transactions still open are freed; locks, log and sockets are only freed and
  closed.
\<close>

definition server_stop :: "kv_db \<Rightarrow> kv_db res" where
  "server_stop db = bind_res (kv_txm_destroy (db_txm db)) (\<lambda>txm. Inr (db\<lparr>db_txm := txm\<rparr>))"

text \<open>
  What the system calls of \<open>kv_run_server\<close> return; \<open>bind\<close> is given the port.
\<close>

record server_calls =
  signal_ok :: bool
  atexit_ret :: int
  snapshot_create_ret :: int
  socket_ret :: int
  bind_ret :: "16 word \<Rightarrow> int"
  listen_ret :: int
  ended_by_thread :: "fault option"

text \<open>
  The checkpoint thread is woken at the end and not waited for.  If it goes on to write a snapshot
  (\<open>snapshot_tail\<close>, and \<open>snapshot_thread_ends\<close> says when), it ends the whole process with \<open>exit\<close> or a
  fault, and that can come before the main thread is through: \<open>ended_by_thread\<close> is the fault then, \<open>Exit0\<close>
  when the snapshot was written.
\<close>

definition thread_ends_process :: "server_calls \<Rightarrow> fault option" where
  "thread_ends_process calls = (if snapshot_create_ret calls = 0 then ended_by_thread calls else None)"

text \<open>
  The whole of \<open>kv_run_server\<close>.  \<open>threads\<close> is what the clients taken and the checkpoint thread, if it
  could be created, do to the state until the transactions are freed.  The client threads are not
  joined either: one that goes on after that uses freed memory, which is not in the model.  The
  result is the number returned, the clients taken and the state left; \<open>exit (EXIT_FAILURE)\<close> is the
  fault \<open>Exit1\<close>.
\<close>

definition kv_run_server ::
  "server_calls \<Rightarrow> (bool \<times> accept_result) list \<Rightarrow> (bool \<Rightarrow> (int \<times> bool) list \<Rightarrow> kv_db \<Rightarrow> kv_db) \<Rightarrow>
   16 word \<Rightarrow> kv_files \<Rightarrow> string \<Rightarrow> string \<Rightarrow> (int \<times> ((int \<times> bool) list \<times> kv_db) option) res" where
  "kv_run_server calls conns threads port files log_file tx_ids =
     (if \<not> signal_ok calls then Inr (1, None)
      else if atexit_ret calls \<noteq> 0 then Inr (1, None)
      else
        bind_res (server_start files log_file tx_ids) (\<lambda>db.
        let has_snapshot_thread = (snapshot_create_ret calls = 0) in
        if socket_ret calls = -1 then Inl Exit1
        else if bind_ret calls port < 0 then Inl Exit1
        else if listen_ret calls < 0 then Inl Exit1
        else
          let clients = accept_loop conns; db = threads has_snapshot_thread clients db in
          case thread_ends_process calls of
            Some e \<Rightarrow> Inl e
          | None \<Rightarrow> bind_res (server_stop db) (\<lambda>db. Inr (0, Some (clients, db)))))"

text \<open>What \<open>main\<close> reports of the number returned; its own result is 0 in any case.\<close>

datatype main_message = Sucessfully_Terminated | No_Message | Terminated_With int

definition main_report :: "int \<Rightarrow> main_message \<times> int" where
  "main_report server_termination_state =
     (if server_termination_state = 0 then Sucessfully_Terminated
      else if server_termination_state = 4 then No_Message
      else Terminated_With server_termination_state, 0)"

definition main_program ::
  "string list \<Rightarrow> server_calls \<Rightarrow> (bool \<times> accept_result) list \<Rightarrow> (bool \<Rightarrow> (int \<times> bool) list \<Rightarrow> kv_db \<Rightarrow> kv_db) \<Rightarrow>
   kv_files \<Rightarrow> string \<Rightarrow> string \<Rightarrow> (main_message \<times> int) res" where
  "main_program argv calls conns threads files log_file tx_ids =
     bind_res (main_port argv) (\<lambda>port.
     bind_res (kv_run_server calls conns threads port files log_file tx_ids) (\<lambda>(ret, _). Inr (main_report ret)))"

section \<open>Lemmas\<close>

lemma arg_loop_skip:
  "''-p'' \<notin> set as \<Longrightarrow> arg_loop KV_ARG_READY port (as @ bs) = arg_loop KV_ARG_READY port bs"
  by (induction as) auto

lemma arg_loop_ports:
  "\<forall>p \<in> set ps. list_all is_digit p \<and> length p \<le> 9 \<Longrightarrow>
   arg_loop KV_ARG_PORT_SETTING port ps = Inr (if ps = [] then port else dec_value (rev (last ps)))"
  by (induction ps arbitrary: port) (auto simp: digit_to_int_eq)

text \<open>Without \<open>-p\<close> the other arguments are ignored.\<close>

lemma main_port_without: "''-p'' \<notin> set as \<Longrightarrow> main_port as = Inr 1234"
  using arg_loop_skip [of as 0 "[]"] by (simp add: main_port_def DEFAULT_PORT_def)

text \<open>Clients are taken until the server is told to end or \<open>accept\<close> fails.\<close>

lemma accept_loop_eq:
  "accept_loop rs =
     [(fd, 11 \<le> w). Accepted fd w ret \<leftarrow> map snd (takeWhile (\<lambda>(is_running, r). is_running \<and> r \<noteq> Accept_Error) rs), ret = 0]"
  by (induction rs rule: accept_loop.induct) (auto split: accept_result.splits)

lemma open_two:
  assumes inv: "db_inv c as rs db"
  shows "(\<exists>a b bs. as = a # b # bs) \<longleftrightarrow> (\<exists>u v. u \<noteq> v \<and> c u \<noteq> None \<and> c v \<noteq> None)"
proof
  assume "\<exists>a b bs. as = a # b # bs"
  then obtain a b bs where "as = a # b # bs" by blast
  then have ab: "a \<in> set as" "b \<in> set as" "a \<noteq> b" using txm_repD(2) [OF db_invD(1) [OF inv]] by auto
  obtain u v where "c u = Some a" "c v = Some b" using db_invD(10) [OF inv ab(1)] db_invD(10) [OF inv ab(2)] by blast
  then show "\<exists>u v. u \<noteq> v \<and> c u \<noteq> None \<and> c v \<noteq> None" using ab(3) by (intro exI [of _ u] exI [of _ v]) auto
next
  assume "\<exists>u v. u \<noteq> v \<and> c u \<noteq> None \<and> c v \<noteq> None"
  then obtain u v a b where "u \<noteq> v" "c u = Some a" "c v = Some b" by auto
  then have "a \<in> set as" "b \<in> set as" "a \<noteq> b" using db_invD(6,7) [OF inv] by blast+
  then show "\<exists>a b bs. as = a # b # bs" by (cases as rule: remdups_adj.cases) auto
qed

text \<open>A server started on nothing has the state runs begin with.\<close>

lemma recover_nothing:
  "last_lsn_file files = None \<Longrightarrow> kv_recovery_recover files [] = Inr \<lparr>recovery_file = [], rec_lsn = 0\<rparr>"
  by (simp add: kv_recovery_recover_def last_checked_def read_last_lsn_short)

lemma redo_nothing:
  assumes "last_lsn_file files = None"
  shows "kv_recovery_redo files [] ht = Inr ht"
proof -
  have rep: "log_rep \<lparr>recovery_file = [], rec_lsn = 0\<rparr> []" by (rule log_rep_empty)
  have "kv_recovery_get_log 1 [] = Inr None" using log.get_out [OF rep, of 1] by simp
  then show ?thesis using assms by (simp add: kv_recovery_redo_def redo_checked_def)
qed

lemma start_fresh: "last_lsn_file files = None \<Longrightarrow> server_start files [] [] = Inr fresh_db"
  by (simp add: server_start_def recover_nothing redo_nothing kv_recovery_init_def kv_txm_init_def kv_ht_create_def
      fresh_db_def numeral_2_eq_2)

text \<open>
  Freeing the open transactions at the end of the server works when at most one
  is open; with two or more it follows the \<open>prev\<close> pointer that \<open>kv_ll_add\<close> never writes.
\<close>

lemma shutdown_cases:
  assumes run: "sys_run es sg"
  shows "if \<exists>u v. u \<noteq> v \<and> sys_tx sg u \<noteq> None \<and> sys_tx sg v \<noteq> None
     then server_stop (sys_db sg) = Inl Uninit
     else \<exists>db. server_stop (sys_db sg) = Inr db \<and> txm_mem (db_txm db) = (\<lambda>_. None)"
proof -
  obtain s as rs where sim: "sim s (sys_tx sg) as rs (sys_db sg)" by (rule run_simE [OF run])
  note inv = simD(1) [OF sim]
  note rep = db_invD(1) [OF inv]
  note d = kv_txm_destroy_eq [OF rep]
  consider "as = []" | a where "as = [a]" | a b bs where "as = a # b # bs" by (metis neq_Nil_conv)
  then show ?thesis
  proof cases
    case 1
    have "txm_mem (db_txm (sys_db sg)) = (\<lambda>_. None)" using txm_repD(3) [OF rep] 1 by (simp add: dom_def fun_eq_iff)
    then show ?thesis using d 1 open_two [OF inv] by (simp add: server_stop_def)
  next
    case (2 a)
    obtain ll where "kv_ll_del_tail (tx_list (db_txm (sys_db sg))) = Inr (Some a, ll)"
      using kv_ll_del_tail_eq(2) [of "tx_list (db_txm (sys_db sg))" a] txm_repD(1) [OF rep] 2 by auto
    then show ?thesis using d 2 open_two [OF inv] by (simp add: server_stop_def)
  next
    case 3
    then show ?thesis using d open_two [OF inv] by (simp add: server_stop_def)
  qed
qed

text \<open>The way of \<open>kv_run_server\<close> when every system call succeeds, to the end of the main thread or of the process.\<close>

definition calls_ok :: "server_calls \<Rightarrow> 16 word \<Rightarrow> bool" where
  "calls_ok calls port \<longleftrightarrow> signal_ok calls \<and> atexit_ret calls = 0 \<and> socket_ret calls \<noteq> -1 \<and>
     0 \<le> bind_ret calls port \<and> 0 \<le> listen_ret calls"

lemma run_server_ok:
  assumes "calls_ok calls port"
  shows "kv_run_server calls conns threads port files log_file tx_ids =
     bind_res (server_start files log_file tx_ids) (\<lambda>db.
     case thread_ends_process calls of
       Some e \<Rightarrow> Inl e
     | None \<Rightarrow>
         bind_res (server_stop (threads (snapshot_create_ret calls = 0) (accept_loop conns) db)) (\<lambda>db.
         Inr (0, Some (accept_loop conns, db))))"
  using assms by (auto simp: calls_ok_def kv_run_server_def Let_def)

text \<open>When one fails, the process ends or returns 1; with the port taken, recovery has already been done.\<close>

lemma run_server_fails:
  assumes "\<not> calls_ok calls port"
  shows "kv_run_server calls conns threads port files log_file tx_ids =
     (if signal_ok calls \<and> atexit_ret calls = 0 then bind_res (server_start files log_file tx_ids) (\<lambda>_. Inl Exit1)
      else Inr (1, None))"
  using assms by (auto simp: calls_ok_def kv_run_server_def Let_def not_le intro!: bind_res_cong)

section \<open>Properties\<close>

text \<open>
  The port.  Without \<open>-p\<close> it is 1234.  Every argument behind \<open>-p\<close> is read as a port, not
  just the next one, and the last one counts: with up to nine digits it is taken modulo 2^16,
  with 0 standing for 1234.
\<close>

theorem main_port_cases:
  assumes "''-p'' \<notin> set as" "\<forall>p \<in> set ps. list_all is_digit p \<and> length p \<le> 9"
  shows "main_port (as @ ''-p'' # ps) =
    Inr (let port = (if ps = [] then 0 else dec_value (rev (last ps))) in word_of_int (if port = 0 then 1234 else port))"
  using arg_loop_skip [OF assms(1), of 0 "''-p'' # ps"] arg_loop_ports [OF assms(2)]
  by (simp add: main_port_def DEFAULT_PORT_def Let_def)

theorem main_port_cases_witness:
  "main_port ([''x''] @ ''-p'' # [''80'', ''65537'']) = Inr 1"
proof -
  have "(word_of_int 65537 :: 16 word) = 1" by (simp add: word_of_int_eq_iff take_bit_eq_mod)
  then show ?thesis
    using main_port_cases [of "[''x'']" "[''80'', ''65537'']"] by (simp add: is_digit_def schar_def Let_def)
qed

text \<open>
  C17. From the start of the program to its end, started without files and with arguments that
  give a port.  If \<open>signal\<close> or \<open>atexit\<close> fails, the program reports that the server was terminated
  with 1; if \<open>socket\<close>, \<open>bind\<close> or \<open>listen\<close> fails, it exits with 1; if the checkpoint thread ends the
  process first, that is the end.  Otherwise it serves its clients and, told to end, frees the
  transactions still open, if at most one is open, and reports a successful end; with two or
  more open it follows the \<open>prev\<close> pointer that \<open>kv_ll_add\<close> never writes.
\<close>

theorem program_lifecycle:
  assumes port: "main_port argv = Inr port" and files: "last_lsn_file files = None"
    and run: "sys_run es sg" and threads: "threads (snapshot_create_ret calls = 0) (accept_loop conns) fresh_db = sys_db sg"
  shows "main_program argv calls conns threads files [] [] =
     (if \<not> signal_ok calls \<or> atexit_ret calls \<noteq> 0 then Inr (Terminated_With 1, 0)
      else if socket_ret calls = -1 \<or> bind_ret calls port < 0 \<or> listen_ret calls < 0 then Inl Exit1
      else
        case thread_ends_process calls of
          Some e \<Rightarrow> Inl e
        | None \<Rightarrow>
            if \<exists>u v. u \<noteq> v \<and> sys_tx sg u \<noteq> None \<and> sys_tx sg v \<noteq> None then Inl Uninit
            else Inr (Sucessfully_Terminated, 0))"
proof (cases "calls_ok calls port")
  case True
  then have "\<not> (\<not> signal_ok calls \<or> atexit_ret calls \<noteq> 0)" "\<not> (socket_ret calls = -1 \<or> bind_ret calls port < 0 \<or> listen_ret calls < 0)"
    by (auto simp: calls_ok_def)
  moreover obtain db where "server_stop (sys_db sg) =
      (if \<exists>u v. u \<noteq> v \<and> sys_tx sg u \<noteq> None \<and> sys_tx sg v \<noteq> None then Inl Uninit else Inr db)"
    using shutdown_cases [OF run] by (metis (lifting))
  ultimately show ?thesis using start_fresh [OF files] threads
    by (cases "thread_ends_process calls")
      (simp_all add: main_program_def port run_server_ok [OF True] main_report_def del: not_None_eq)
next
  case False
  then have "signal_ok calls \<and> atexit_ret calls = 0 \<longrightarrow> socket_ret calls = -1 \<or> bind_ret calls port < 0 \<or> listen_ret calls < 0"
    by (auto simp: calls_ok_def)
  then show ?thesis
    by (auto simp: main_program_def port run_server_fails [OF False] start_fresh [OF files] main_report_def)
qed

theorem program_lifecycle_witness:
  "\<exists>sg. sys_run [(1, C_Begin, transaction_started), (1, C_Set ''k'' ''v'', set_success)] sg \<and>
    main_program [''-p'', ''80''] \<lparr>signal_ok = True, atexit_ret = 0, snapshot_create_ret = 0, socket_ret = 3,
        bind_ret = (\<lambda>_. 0), listen_ret = 0, ended_by_thread = None\<rparr> [(True, Accepted 4 11 0), (False, Accept_Error)] (\<lambda>_ _ _. sys_db sg)
      \<lparr>last_lsn_file = None, snapshot_dir = Map.empty\<rparr> [] [] = Inr (Sucessfully_Terminated, 0)"
proof -
  obtain sg a where sg: "sys_run [(1, C_Begin, transaction_started), (1, C_Set ''k'' ''v'', set_success)] sg" "sys_tx sg = [1 \<mapsto> a]"
    using set_run by blast
  let ?calls = "\<lparr>signal_ok = True, atexit_ret = 0, snapshot_create_ret = 0, socket_ret = 3, bind_ret = (\<lambda>_. 0), listen_ret = 0,
      ended_by_thread = None\<rparr>"
  have "\<not> (\<exists>u v. u \<noteq> v \<and> sys_tx sg u \<noteq> None \<and> sys_tx sg v \<noteq> None)" using sg(2) by simp
  moreover obtain port where "main_port [''-p'', ''80''] = Inr port"
    using arg_loop_ports [of "[''80'']" 0] by (auto simp: main_port_def is_digit_def schar_def)
  ultimately show ?thesis
    using program_lifecycle [of "[''-p'', ''80'']" _ "\<lparr>last_lsn_file = None, snapshot_dir = Map.empty\<rparr>" _ sg
        "\<lambda>_ _ _. sys_db sg" ?calls "[(True, Accepted 4 11 0), (False, Accept_Error)]"] sg(1)
    by (intro exI [of _ sg]) (simp add: thread_ends_process_def)
qed

end
