(* ===== verification/Restart.thy ===== *)
theory Restart
  imports Server
begin

text \<open>
  A crash in any state of a run and the start of a server on the files it leaves: the log, the
  file of transaction numbers, the snapshots and the number of the last checkpoint.

  The lemmas carry through every run what the files have to do with the state of the server:
  the numbers of transactions, and the last checkpoint with its snapshot and its list, whose
  transactions have ended in the log since or are still running.  They give what the table of
  the new server holds.
\<close>

section \<open>The numbers of transactions\<close>

definition id_state :: "kv_db \<Rightarrow> string \<times> u32" where
  "id_state db = (tx_id_file (db_txm db), transaction_id (db_txm db))"

definition numbered :: "kv_db \<Rightarrow> bool" where
  "numbered db \<longleftrightarrow> (\<exists>xs. id_state db = (id_lines xs, if xs = [] then 0 else last xs))"

lemma numbered_cong: "id_state db' = id_state db \<Longrightarrow> numbered db \<Longrightarrow> numbered db'"
  by (simp add: numbered_def)

lemma id_state_update [simp]:
  "tx_id_file (tx_update txm a tx) = tx_id_file txm" "transaction_id (tx_update txm a tx) = transaction_id txm"
  "id_state (db\<lparr>db_ht := ht\<rparr>) = id_state db" "id_state (db\<lparr>db_lm := lm\<rparr>) = id_state db"
  "id_state (db\<lparr>db_rec := st\<rparr>) = id_state db"
  by (simp_all add: tx_update_def id_state_def)

named_theorems same_ids \<open>operations that start no transaction\<close>

lemma id_state_log [same_ids]: "tx_log f a db = Inr db' \<Longrightarrow> id_state db' = id_state db"
  by (auto simp: tx_log_def res_iff id_state_def)

lemma id_state_end [same_ids]: "end_tx u a db = Inr db' \<Longrightarrow> id_state db' = id_state db"
  by (auto simp: end_tx_def kv_txm_end_transaction_def res_iff id_state_def Let_def case_prod_unfold)

lemma id_state_lock [same_ids]: "lock_key u b k a db = Inr db' \<Longrightarrow> id_state db' = id_state db"
  by (auto simp: lock_key_def res_iff id_state_def)

lemma id_state_rollback [same_ids]: "rollback_tx a db = Inr db' \<Longrightarrow> id_state db' = id_state db"
  by (auto simp: rollback_tx_def res_iff id_state_def)

lemma id_state_commit [same_ids]: "commit_tx u a db = Inr db' \<Longrightarrow> id_state db' = id_state db"
  by (auto simp: commit_tx_def res_iff dest!: same_ids)

lemma id_state_abort [same_ids]: "abort_tx u a db = Inr db' \<Longrightarrow> id_state db' = id_state db"
  by (auto simp: abort_tx_def res_iff dest!: same_ids)

lemma id_state_finish [same_ids]: "finish_command u single k a db = Inr (c_tx, db') \<Longrightarrow> id_state db' = id_state db"
  by (auto simp: finish_command_def res_iff split: if_splits dest!: same_ids)

lemma id_state_set [same_ids]: "set_log u k v a db = Inr db' \<Longrightarrow> id_state db' = id_state db"
  by (auto simp: set_log_def res_iff dest!: same_ids)

lemma id_state_del [same_ids]: "del_log u k a db = Inr (found, db') \<Longrightarrow> id_state db' = id_state db"
  by (auto simp: del_log_def res_iff split: option.splits dest!: same_ids)

lemma id_state_data [same_ids]: "data_step u cmd result a db = Inr (result', db') \<Longrightarrow> id_state db' = id_state db"
  by (cases cmd)
    (auto simp: res_iff set_apply_def del_apply_def Let_def split: option.splits if_splits prod.splits dest!: same_ids)

lemma id_state_rest: "rest_of_data u junk cmd result a single db = Inr (result', c_tx, db') \<Longrightarrow> id_state db' = id_state db"
  by (auto simp: rest_of_data_def res_iff dest!: same_ids)

lemma id_state_snapshot: "take_snapshot usable db files = Inr (db', files') \<Longrightarrow> id_state db' = id_state db"
  by (auto simp: take_snapshot_def snapshot_check_def res_iff)

lemma numbered_begin:
  assumes "begin_tx db = Inr (a, db')" "txm_rep (db_txm db) as" "numbered db"
  shows "numbered db'"
proof -
  obtain txm where t: "kv_txm_start_new_transaction (db_txm db) = Inr (a, txm)"
    "tx_log (\<lambda>prev t st. Inr (kv_recovery_begin_log prev t st)) a (db\<lparr>db_txm := txm\<rparr>) = Inr db'"
    using assms(1) by (auto simp: begin_tx_def res_iff)
  obtain xs where xs: "tx_id_file (db_txm db) = id_lines xs" using assms(3) by (auto simp: numbered_def id_state_def)
  have "tx_id_file txm = id_lines (xs @ [transaction_id (db_txm db) + 1])" "transaction_id txm = transaction_id (db_txm db) + 1"
    using t(1) xs start_eq [OF assms(2)] by auto
  then have "numbered (db\<lparr>db_txm := txm\<rparr>)"
    unfolding numbered_def by (intro exI [of _ "xs @ [transaction_id (db_txm db) + 1]"]) (simp add: id_state_def)
  with id_state_log [OF t(2)] show ?thesis by (rule numbered_cong)
qed

lemma numbered_ensure:
  "ensure_tx c_tx db = Inr (a, single, db') \<Longrightarrow> txm_rep (db_txm db) as \<Longrightarrow> numbered db \<Longrightarrow> numbered db'"
  using numbered_begin by (auto simp: ensure_tx_def res_iff split: option.splits)

lemma numbered_exec:
  assumes ex: "exec_command u junk cmd result c_tx db = Inr (result', c_tx', db')" and rep: "txm_rep (db_txm db) as" and n: "numbered db"
  shows "numbered db'"
proof (cases "command_key cmd")
  case (Some k)
  then obtain a single db1 where e: "ensure_tx c_tx db = Inr (a, single, db1)"
    "rest_of_data u junk cmd result a single db1 = Inr (result', c_tx', db')"
    using ex by (auto simp: exec_data [OF Some] res_iff)
  show ?thesis by (rule numbered_cong [OF id_state_rest [OF e(2)] numbered_ensure [OF e(1) rep n]])
next
  case None
  then consider "cmd = C_Empty" | "cmd = C_Begin" | "cmd = C_Commit" | "cmd = C_Abort" by (cases cmd) auto
  then show ?thesis
  proof cases
    case 2
    then show ?thesis using ex n numbered_begin [OF _ rep n]
      by (auto simp: run_begin_def res_iff split: option.splits)
  next
    case 3
    then have "id_state db' = id_state db" using ex by (auto simp: run_commit_def res_iff split: option.splits dest!: same_ids)
    then show ?thesis using n by (rule numbered_cong)
  next
    case 4
    then have "id_state db' = id_state db" using ex by (auto simp: run_abort_def res_iff split: option.splits dest!: same_ids)
    then show ?thesis using n by (rule numbered_cong)
  qed (use ex n in \<open>auto simp: res_iff\<close>)
qed

lemma numbered_step:
  assumes st: "sys_step sg e sg'" and rep: "txm_rep (db_txm (sys_db sg)) as" and n: "numbered (sys_db sg)"
  shows "numbered (sys_db sg')"
  using st
proof cases
  case step_command
  then show ?thesis using numbered_exec [OF step_command(6) rep n] by simp
next
  case step_wait
  then show ?thesis using numbered_ensure [OF step_wait(6) rep n] by simp
next
  case step_resume
  then show ?thesis using numbered_cong [OF id_state_rest [OF step_resume(6)] n] by simp
next
  case step_checkpoint
  then show ?thesis using numbered_cong [OF id_state_snapshot [OF step_checkpoint(3)] n] by simp
qed

lemma run_numbered: "sys_run es sg \<Longrightarrow> numbered (sys_db sg)"
proof (induction rule: sys_run.induct)
  case run_init
  show ?case unfolding numbered_def by (intro exI [of _ "[]"]) (simp add: init_sys_def fresh_db_def id_state_def)
next
  case (run_step es sg e sg')
  obtain s as rs where "sim s (sys_tx sg) as rs (sys_db sg)" by (rule run_simE [OF run_step.hyps(1)])
  then have "txm_rep (db_txm (sys_db sg)) as" by (rule db_invD [OF simD(1)])
  then show ?case by (rule numbered_step [OF run_step.hyps(3) _ run_step.IH])
qed


section \<open>The last checkpoint\<close>

text \<open>
  A transaction of the checkpoint's list: it has ended in the records \<open>ls\<close> written since and no
  thread has it any more, or it is still open and its last record is the last of its records
  there.
\<close>

definition listed :: "kv_sys \<Rightarrow> kv_recovery_log_line list \<Rightarrow> kv_recovery_tx \<Rightarrow> bool" where
  "listed sg ls tx \<longleftrightarrow>
     rtx_id tx \<le> transaction_id (db_txm (sys_db sg)) \<and>
     (tx_ended (rtx_id tx) ls \<and> (\<forall>u a. sys_tx sg u = Some a \<longrightarrow> tx_id (tx_of (sys_db sg) a) \<noteq> rtx_id tx) \<or>
      (\<exists>u a. sys_tx sg u = Some a \<and> tx_id (tx_of (sys_db sg) a) = rtx_id tx \<and> tx_open (rtx_id tx) ls \<and>
         last_of (rtx_id tx) ls (rtx_last_lsn tx) = tx_last_lsn (tx_of (sys_db sg) a)))"

lemma running_ids:
  assumes inv: "db_inv c as rs db" and u: "c u = Some a"
  shows "tx_id (tx_of db a) \<le> transaction_id (db_txm db)"
    and "c v = Some b \<Longrightarrow> tx_id (tx_of db a) = tx_id (tx_of db b) \<Longrightarrow> u = v"
proof -
  have a: "a \<in> set as" by (rule db_invD(6) [OF inv u])
  show "tx_id (tx_of db a) \<le> transaction_id (db_txm db)"
    using txm_repD(6) [OF db_invD(1) [OF inv] a] by (simp add: tx_of_def)
  assume v: "c v = Some b" "tx_id (tx_of db a) = tx_id (tx_of db b)"
  then have "a = b" using inj_onD [OF txm_repD(5) [OF db_invD(1) [OF inv]] _ a db_invD(6) [OF inv v(1)]]
    by (simp add: tx_of_def)
  then show "u = v" using db_invD(7) [OF inv u] v(1) by blast
qed

lemma listed_other:
  assumes l: "listed sg ls tx" and u: "sys_tx sg u = None \<or> (\<exists>a. sys_tx sg u = Some a \<and> tx_id (tx_of (sys_db sg) a) \<noteq> rtx_id tx)"
    and qs: "\<forall>q \<in> set qs. log_tx_id q \<noteq> rtx_id tx"
    and tx': "sys_tx sg' = (sys_tx sg)(u := c_tx)" "\<And>v b. v \<noteq> u \<Longrightarrow> sys_tx sg v = Some b \<Longrightarrow> tx_of (sys_db sg') b = tx_of (sys_db sg) b"
      "\<And>a. c_tx = Some a \<Longrightarrow> tx_id (tx_of (sys_db sg') a) \<noteq> rtx_id tx"
    and t: "transaction_id (db_txm (sys_db sg)) \<le> transaction_id (db_txm (sys_db sg'))"
  shows "listed sg' (ls @ qs) tx"
proof -
  note o = other_records [OF qs]
  have t': "rtx_id tx \<le> transaction_id (db_txm (sys_db sg'))" using l t unfolding listed_def by (blast intro: order_trans)
  from l consider (ended) "tx_ended (rtx_id tx) ls" "\<forall>v a. sys_tx sg v = Some a \<longrightarrow> tx_id (tx_of (sys_db sg) a) \<noteq> rtx_id tx"
    | (live) v a where "sys_tx sg v = Some a" "tx_id (tx_of (sys_db sg) a) = rtx_id tx" "tx_open (rtx_id tx) ls"
      "last_of (rtx_id tx) ls (rtx_last_lsn tx) = tx_last_lsn (tx_of (sys_db sg) a)" unfolding listed_def by blast
  then show ?thesis
  proof cases
    case ended
    have "tx_id (tx_of (sys_db sg') a) \<noteq> rtx_id tx" if "sys_tx sg' v = Some a" for v a
      using that ended(2) tx' by (cases "v = u") auto
    then show ?thesis using t' o(3) [OF ended(1)] unfolding listed_def by blast
  next
    case (live v a)
    then have "v \<noteq> u" using u by auto
    then have "sys_tx sg' v = Some a" "tx_of (sys_db sg') a = tx_of (sys_db sg) a" using live tx' by simp_all
    then show ?thesis unfolding listed_def using t' live o(1,2) by metis
  qed
qed

lemma listed_step:
  assumes inv: "db_inv (sys_tx sg) as rs (sys_db sg)" and rm: "room (sys_db sg)" and st: "tx_step sg qs sg'"
    and l: "listed sg ls tx"
  shows "listed sg' (ls @ qs) tx"
proof -
  let ?db = "sys_db sg" and ?db' = "sys_db sg'" and ?t = "rtx_id tx"
  obtain u c_tx where s: "log_step u (sys_tx sg) ?db c_tx qs ?db'" and tx': "sys_tx sg' = (sys_tx sg)(u := c_tx)"
    using st by (auto simp: tx_step_def tx_step_by_def)
  let ?n = "tx_number u (sys_tx sg) ?db"
  have other: "tx_of ?db' b = tx_of ?db b" if "v \<noteq> u" "sys_tx sg v = Some b" for v b using s that by (simp add: log_step_def)
  have ids: "\<forall>q \<in> set qs. log_tx_id q = ?n" using s by (simp add: log_step_def)
  have c_tx: "tx_id (tx_of ?db' a) = ?n" if "c_tx = Some a" for a using s that by (simp add: log_step_def)
  have less: "transaction_id (db_txm ?db) < transaction_id (db_txm ?db) + 1"
    using rm by (simp add: room_def word_less_nat_alt unat_word_ariths)
  have t': "transaction_id (db_txm ?db) \<le> transaction_id (db_txm ?db')" using s less by (auto simp: log_step_def)
  show ?thesis
  proof (cases "?n = ?t")
    case False
    then show ?thesis
      using ids c_tx by (intro listed_other [OF l _ _ tx' other _ t']) (auto simp: tx_number_def split: option.splits)
  next
    case True
    have "?t \<le> transaction_id (db_txm ?db)" using l by (simp add: listed_def)
    then have "sys_tx sg u \<noteq> None" using True less by (auto simp: tx_number_def split: option.splits)
    then obtain a where a: "sys_tx sg u = Some a" "tx_id (tx_of ?db a) = ?t" using True by (auto simp: tx_number_def)
    have own: "v = u \<and> b = a" if "sys_tx sg v = Some b" "tx_id (tx_of ?db b) = ?t" for v b
      using running_ids(2) [OF inv a(1) that(1)] that a by auto
    have op: "tx_open ?t ls" "last_of ?t ls (rtx_last_lsn tx) = tx_last_lsn (tx_of ?db a)"
      using l a own unfolding listed_def by blast+
    have t2: "?t \<le> transaction_id (db_txm ?db')" using l t' unfolding listed_def by (blast intro: order_trans)
    show ?thesis
    proof (cases c_tx)
      case None
      then have "tx_ended ?t qs" using s a(1) True by (auto simp: log_step_def)
      then have e: "tx_ended ?t (ls @ qs)" by (intro tx_ended_append disjI2)
      have "tx_id (tx_of ?db' b) \<noteq> ?t" if "sys_tx sg' v = Some b" for v b
      proof -
        have v: "v \<noteq> u" "sys_tx sg v = Some b" using that tx' None by (auto split: if_splits)
        then show ?thesis using own [OF v(2)] other [OF v] by auto
      qed
      then show ?thesis unfolding listed_def using e t2 by blast
    next
      case (Some a')
      then have "tx_open ?t qs" "last_of ?t qs (tx_last_lsn (tx_of ?db a)) = tx_last_lsn (tx_of ?db' a')" "sys_tx sg' u = Some a'"
        "tx_id (tx_of ?db' a') = ?t" using s a(1) True tx' by (auto simp: log_step_def)
      then show ?thesis unfolding listed_def using op t2 tx_records_append(1,2) by metis
    qed
  qed
qed

subsection \<open>Keys and values without spaces\<close>

text \<open>What a snapshot gives back unchanged: keys and values without spaces.\<close>

fun clean_command :: "command \<Rightarrow> bool" where
  "clean_command (C_Set k v) = (SP \<notin> set k \<and> SP \<notin> set v)"
| "clean_command c = True"

definition clean_run :: "event list \<Rightarrow> bool" where
  "clean_run es \<longleftrightarrow> (\<forall>(u, cmd, r) \<in> set es. clean_command cmd)"

definition clean_map :: "contents \<Rightarrow> bool" where
  "clean_map m \<longleftrightarrow> (\<forall>k v. m k = Some v \<longrightarrow> SP \<notin> set k \<and> SP \<notin> set v)"

definition clean_store :: "store \<Rightarrow> bool" where
  "clean_store s \<longleftrightarrow> clean_map (committed s) \<and> (\<forall>u ops. running s u = Some ops \<longrightarrow> (\<forall>c \<in> fst ` set ops. clean_command c))"

lemma clean_data: "clean_command c \<Longrightarrow> clean_map m \<Longrightarrow> clean_map (map_writes (data_writes c m) m)"
  by (cases c) (auto simp: clean_map_def)

lemma clean_serial: "\<forall>c \<in> set cs. clean_command c \<Longrightarrow> clean_map m \<Longrightarrow> clean_map (map_writes (snd (serial cs m)) m)"
proof (induction cs arbitrary: m)
  case (Cons c cs)
  then have "clean_map (map_writes (data_writes c m) m)" by (intro clean_data) simp_all
  then show ?case using Cons by (simp add: Let_def case_prod_unfold)
qed simp

lemma clean_view: "\<forall>c \<in> fst ` set ops. clean_command c \<Longrightarrow> clean_map m \<Longrightarrow> clean_map (tx_view m ops)"
  using clean_serial [of "map fst ops" m] by (simp add: tx_view_def tx_writes_def)

lemma clean_spec:
  assumes "clean_store s" "clean_command cmd"
  shows "clean_store (snd (spec_command u cmd s))"
proof (cases "command_key cmd")
  case (Some k)
  then show ?thesis using assms clean_data [OF assms(2), of "committed s"]
    by (auto simp: spec_data [OF Some] clean_store_def split: option.splits)
next
  case None
  then show ?thesis using assms clean_view [of _ "committed s"]
    by (cases cmd) (auto simp: clean_store_def split: option.splits)
qed

lemma clean_accepts: "accepts es s = Some s' \<Longrightarrow> clean_run es \<Longrightarrow> clean_store s \<Longrightarrow> clean_store s'"
proof (induction es arbitrary: s)
  case (Cons e es)
  obtain u cmd r s1 where e: "e = (u, cmd, r)" "spec_command u cmd s = (r, s1)" "accepts es s1 = Some s'"
    using Cons.prems(1) by (cases e) (auto simp: case_prod_unfold Let_def prod_eq_iff split: if_splits)
  have "clean_store s1" using clean_spec [OF Cons.prems(3), of cmd u] Cons.prems(2) by (simp add: e clean_run_def)
  then show ?case using Cons.IH [OF e(3)] Cons.prems(2) by (simp add: clean_run_def)
qed simp

lemma clean_run_append: "clean_run (es @ fs) \<Longrightarrow> clean_run es"
  by (auto simp: clean_run_def)

text \<open>The table of a run of such commands can be put into a snapshot.\<close>

lemma clean_table:
  assumes inv: "sys_inv es sg s as rs" and cl: "clean_run es"
  shows "table_ok (db_ht (sys_db sg))"
proof -
  have sim: "sim s (sys_tx sg) as rs (sys_db sg)" and ok: "waits_ok sg s" and acc: "accepts es empty_store = Some (hide sg s)"
    using inv by (simp_all add: sys_inv_def)
  have "clean_store (hide sg s)"
    by (rule clean_accepts [OF acc cl]) (simp add: empty_store_def clean_store_def clean_map_def)
  moreover have "ops = []" if "running s u = Some ops" "running (hide sg s) u = None" for u ops
    using that ok by (auto simp: hide_def waits_ok_def split: if_splits)
  moreover have "running (hide sg s) u \<in> {None, running s u}" for u by (simp add: hide_def)
  ultimately have st: "clean_map (committed s)" "\<forall>u ops. running s u = Some ops \<longrightarrow> (\<forall>c \<in> fst ` set ops. clean_command c)"
    unfolding clean_store_def by (simp add: hide_def, metis (no_types, opaque_lifting) empty_iff image_empty insertE list.set(1) singletonD)
  have "binding_ok (k, v) \<and> SP \<notin> set k \<and> SP \<notin> set v" if kv: "kv_ht_get (db_ht (sys_db sg)) k = Some v" for k v
  proof -
    have "small_str k" "small_str v" using simD(2) [OF sim] kv unfolding vals_ok_def by blast+
    then have "binding_ok (k, v)" by (auto simp: small_str_def binding_ok_def)
    moreover have "SP \<notin> set k \<and> SP \<notin> set v"
    proof (cases "\<exists>u a. sys_tx sg u = Some a \<and> k \<in> sys_locks sg a")
      case True
      then obtain u a where a: "sys_tx sg u = Some a" "k \<in> sys_locks sg a" by blast
      obtain ops where ops: "running s u = Some ops" by (rule sim_opsE [OF sim a(1)])
      have "k \<notin> sys_locks sg b" if "v \<noteq> u" "sys_tx sg v = Some b" for v b
        using locks_disjoint [OF simD(1) [OF sim] a(1) that(2) _ a(2)] that(1) by blast
      then have "tx_view (committed s) ops k = Some v" using sim_view [OF sim a(1) ops, of k] kv by simp
      then show ?thesis using clean_view [OF _ st(1)] st(2) ops unfolding clean_map_def by blast
    next
      case False
      then have "committed s k = Some v" using simD(5) [OF sim, of k] kv by auto
      then show ?thesis using st(1) unfolding clean_map_def by blast
    qed
    ultimately show ?thesis by blast
  qed
  then show ?thesis unfolding table_ok_def by blast
qed

subsection \<open>The files in a run\<close>

text \<open>
  The last checkpoint is record \<open>n\<close> of the log, with the list \<open>txs\<close>; its snapshot holds what
  replaying the log up to it gives.
\<close>

definition checked :: "event list \<Rightarrow> kv_sys \<Rightarrow> kv_recovery_log_line list \<Rightarrow> nat \<Rightarrow> kv_recovery_tx list \<Rightarrow> bool" where
  "checked es sg rs n txs \<longleftrightarrow>
     0 < n \<and> n \<le> length rs \<and> length txs \<le> 4 \<and> distinct (map rtx_id txs) \<and>
     (\<exists>t. last_lsn_file (sys_files sg) = Some (fmt_08X (of_nat n) @ t)) \<and> log_tx_list (rs ! (n - 1)) = Some txs \<and>
     (\<exists>content ht. snapshot_dir (sys_files sg) (snapshot_file_name (fmt_08X (of_nat n))) = Some content \<and>
        kv_ht_foreach ht kv_hashtable_foreach (Inr []) = Inr content \<and> ht_inv ht \<and>
        kv_ht_get ht = replay (take n rs) Map.empty \<and> (clean_run es \<longrightarrow> table_ok ht)) \<and>
     (\<forall>tx \<in> set txs. unat (rtx_last_lsn tx) \<le> n \<and> listed sg (drop n rs) tx)"

definition files_inv :: "event list \<Rightarrow> kv_sys \<Rightarrow> kv_recovery_log_line list \<Rightarrow> kv_recovery_tx list \<Rightarrow> bool" where
  "files_inv es sg rs txs \<longleftrightarrow> last_lsn_file (sys_files sg) = None \<and> txs = [] \<or> (\<exists>n. checked es sg rs n txs)"

lemma checked_tx_step:
  assumes inv: "sys_inv es sg s as rs" and rm: "room (sys_db sg)" and st: "tx_step sg qs sg'" and ch: "checked es sg rs n txs"
  shows "checked (es @ e) sg' (rs @ qs) n txs"
proof -
  have db: "db_inv (sys_tx sg) as rs (sys_db sg)" using inv by (simp add: sys_inv_def sim_def)
  have f: "sys_files sg' = sys_files sg" using st by (auto simp: tx_step_def tx_step_by_def)
  have n: "0 < n" "n \<le> length rs" using ch by (simp_all add: checked_def)
  have r: "(rs @ qs) ! (n - 1) = rs ! (n - 1)" "take n (rs @ qs) = take n rs" "drop n (rs @ qs) = drop n rs @ qs"
    using n nth_append_first [of n rs qs] by simp_all
  have "\<forall>tx \<in> set txs. unat (rtx_last_lsn tx) \<le> n \<and> listed sg' (drop n rs @ qs) tx"
    using ch listed_step [OF db rm st] unfolding checked_def by blast
  then show ?thesis
    using ch clean_run_append [of es e] unfolding checked_def f r by (auto simp del: of_nat_Suc)
qed

lemma checked_check_step:
  assumes inv: "sys_inv es sg s as rs" and rm: "room (sys_db sg)" and st: "check_step sg qs sg'"
  shows "\<exists>txs. checked (es @ e) sg' (rs @ qs) (length rs + 1) txs"
proof -
  let ?db = "sys_db sg"
  let ?n = "rec_lsn (db_rec ?db) + 1"
  have sim: "sim s (sys_tx sg) as rs ?db" using inv by (simp add: sys_inv_def)
  have db: "db_inv (sys_tx sg) as rs ?db" by (rule simD [OF sim])
  have rep: "txm_rep (db_txm ?db) as" by (rule db_invD [OF db])
  obtain txs usable files' where c: "qs = [check_rec ?n txs]" "kv_txm_ongoing_transaction_ids usable (db_txm ?db) = Inr txs"
    "length txs \<le> 4" "snapshot_child ?n (db_ht ?db) (sys_files sg) = Inr files'"
    "sg' = sg\<lparr>sys_db := ?db\<lparr>db_rec := append_rec (check_rec ?n txs) (db_rec ?db)\<rparr>, sys_files := files'\<rparr>"
    using st by (auto simp: check_step_def)
  have n: "?n = of_nat (length rs + 1)" using log_rep_lsn [OF db_invD(4) [OF db]] by simp
  have txs: "txs = map (\<lambda>a. \<lparr>rtx_id = tx_id (tx_of ?db a), rtx_last_lsn = tx_last_lsn (tx_of ?db a)\<rparr>) as"
    using c(2) ongoing_eq [OF rep, of usable] by (simp add: tx_of_def split: if_splits)
  obtain content where f: "kv_ht_foreach (db_ht ?db) kv_hashtable_foreach (Inr []) = Inr content"
    "snapshot_dir files' (snapshot_file_name (fmt_08X ?n)) = Some content"
    "last_lsn_file files' = Some (write_last_lsn ?n (last_lsn_file (sys_files sg)))"
    using c(4) by (auto simp: snapshot_child_def res_iff)
  have "kv_ht_get (db_ht ?db) = replay (take (length rs + 1) (rs @ qs)) Map.empty"
    using simD(4) [OF sim] by (simp add: c(1) replay_skip check_rec_def)
  moreover have "distinct (map rtx_id txs)"
    using txm_repD(2,5) [OF rep] by (simp add: txs comp_def distinct_map tx_of_def)
  moreover have "unat (rtx_last_lsn tx) \<le> length rs + 1 \<and> listed sg' (drop (length rs + 1) (rs @ qs)) tx" if t: "tx \<in> set txs" for tx
  proof -
    obtain a where a: "a \<in> set as" "tx = \<lparr>rtx_id = tx_id (tx_of ?db a), rtx_last_lsn = tx_last_lsn (tx_of ?db a)\<rparr>"
      using t txs by auto
    obtain u where u: "sys_tx sg u = Some a" using db_invD(10) [OF db a(1)] by blast
    obtain ops where "tx_sim rs (committed s) (kv_ht_get (db_ht ?db)) (tx_of ?db a) ops" by (rule sim_opsE [OF sim u])
    then have "unat (tx_last_lsn (tx_of ?db a)) \<le> length rs" using chain_bounds unfolding tx_sim_def by blast
    moreover have "tx_of (sys_db sg') a = tx_of ?db a" "sys_tx sg' = sys_tx sg" "transaction_id (db_txm (sys_db sg')) = transaction_id (db_txm ?db)"
      by (simp_all add: c(5) tx_of_def)
    ultimately show ?thesis using u running_ids(1) [OF db u] unfolding listed_def
      by (simp add: a(2) c(1)) (intro disjI2 exI [of _ u] exI [of _ a] conjI; simp)
  qed
  moreover have "clean_run (es @ e) \<longrightarrow> table_ok (db_ht ?db)" using clean_table [OF inv] clean_run_append by blast
  moreover have "log_tx_list ((rs @ qs) ! (length rs + 1 - 1)) = Some txs" by (simp add: c(1) check_rec_def)
  moreover have "sys_files sg' = files'" "length rs + 1 \<le> length (rs @ qs)" by (simp_all add: c(1,5))
  ultimately show ?thesis
    using f c(3) db_invD(3) [OF db] write_last_lsn_prefix [of ?n "last_lsn_file (sys_files sg)"] n
    unfolding checked_def by (intro exI [of _ txs]) (simp del: of_nat_Suc of_nat_add; blast)
qed

lemma run_files: "sys_run es sg \<Longrightarrow> \<exists>s as rs txs. sys_inv es sg s as rs \<and> files_inv es sg rs txs"
proof (induction rule: sys_run.induct)
  case run_init
  have "files_inv [] init_sys [] []" by (simp add: files_inv_def init_sys_def)
  then show ?case using sys_inv_init by blast
next
  case (run_step es sg e sg')
  obtain s as rs txs where inv: "sys_inv es sg s as rs" and f: "files_inv es sg rs txs" using run_step.IH by blast
  obtain s' as' qs where inv': "sys_inv (es @ e) sg' s' as' (rs @ qs)" and st: "tx_step sg qs sg' \<or> check_step sg qs sg'"
    using inv_step [OF inv run_step.hyps(2,3,4,5)] by blast
  have "\<exists>txs. files_inv (es @ e) sg' (rs @ qs) txs"
  proof (cases "tx_step sg qs sg'")
    case True
    then have "sys_files sg' = sys_files sg" by (auto simp: tx_step_def tx_step_by_def)
    then show ?thesis using f checked_tx_step [OF inv run_step.hyps(2) True] unfolding files_inv_def by metis
  next
    case False
    then show ?thesis using st checked_check_step [OF inv run_step.hyps(2)] unfolding files_inv_def by blast
  qed
  then show ?case using inv' by blast
qed

section \<open>The table after a restart\<close>

text \<open>The updates recover undoes for an entry of the checkpoint.\<close>

definition undone :: "store \<Rightarrow> (thread \<Rightarrow> nat option) \<Rightarrow> kv_db \<Rightarrow> kv_recovery_tx \<Rightarrow> upd list \<Rightarrow> bool" where
  "undone s c db tx us \<longleftrightarrow>
     us = [] \<and> (\<forall>u a. c u = Some a \<longrightarrow> tx_id (tx_of db a) \<noteq> rtx_id tx) \<or>
     (\<exists>u a ops. c u = Some a \<and> tx_id (tx_of db a) = rtx_id tx \<and> running s u = Some ops \<and>
        map upd_write us = tx_writes (committed s) ops \<and> consistent us (committed s))"

text \<open>The keys of the transactions that recover undoes.\<close>

definition undone_keys :: "(thread \<Rightarrow> nat option) \<Rightarrow> kv_db \<Rightarrow> kv_recovery_tx list \<Rightarrow> string set" where
  "undone_keys c db txs =
     {k. \<exists>u a. c u = Some a \<and> tx_id (tx_of db a) \<in> rtx_id ` set txs \<and> k \<in> set (tx_locks (tx_of db a))}"

lemma undo_all:
  assumes inv: "db_inv c as rs db"
    and "list_all2 (undone s c db) txs uss" "distinct (map rtx_id txs)"
    and "\<And>u a. c u = Some a \<Longrightarrow> tx_id (tx_of db a) \<in> rtx_id ` set txs \<Longrightarrow>
       \<exists>ops. running s u = Some ops \<and> tx_sim rs (committed s) h (tx_of db a) ops"
  shows "fold undo_upd (all_upds uss) h = (\<lambda>k. if k \<in> undone_keys c db txs then committed s k else h k)"
  using assms(2-)
proof (induction txs arbitrary: uss h)
  case Nil
  then show ?case by (simp add: undone_keys_def)
next
  case (Cons tx txs)
  obtain us uss' where uss: "uss = us # uss'" "undone s c db tx us" "list_all2 (undone s c db) txs uss'"
    using Cons.prems(1) by (auto simp: list_all2_Cons1)
  have d: "distinct (map rtx_id txs)" "rtx_id tx \<notin> rtx_id ` set txs" using Cons.prems(2) by simp_all
  from uss(2) consider (ended) "us = []" "\<forall>u a. c u = Some a \<longrightarrow> tx_id (tx_of db a) \<noteq> rtx_id tx"
    | (live) u a ops where "c u = Some a" "tx_id (tx_of db a) = rtx_id tx" "running s u = Some ops"
      "map upd_write us = tx_writes (committed s) ops" "consistent us (committed s)"
    unfolding undone_def by blast
  then show ?case
  proof cases
    case ended
    have "undone_keys c db (tx # txs) = undone_keys c db txs" using ended(2) by (auto simp: undone_keys_def)
    moreover have "fold undo_upd (all_upds uss') h = (\<lambda>k. if k \<in> undone_keys c db txs then committed s k else h k)"
      using Cons.prems(3) by (intro Cons.IH [OF uss(3) d(1)]) simp
    ultimately show ?thesis by (simp add: uss(1) ended(1))
  next
    case (live u a ops)
    let ?locks = "set (tx_locks (tx_of db a))"
    let ?h = "\<lambda>k. if k \<in> ?locks then committed s k else h k"
    have "tx_sim rs (committed s) h (tx_of db a) ops" using Cons.prems(3) [OF live(1)] live(2,3) by auto
    then have h: "fold undo_upd (rev us) h = ?h" by (rule undo_locked [OF _ live(4,5)])
    have "\<exists>ops. running s v = Some ops \<and> tx_sim rs (committed s) ?h (tx_of db b) ops"
      if v: "c v = Some b" "tx_id (tx_of db b) \<in> rtx_id ` set txs" for v b
    proof -
      have "u \<noteq> v"
      proof
        assume "u = v"
        then have "tx_id (tx_of db b) = rtx_id tx" using v(1) live(1,2) by simp
        then show False using v(2) d(2) by simp
      qed
      then have "k \<notin> ?locks" if "k \<in> set (tx_locks (tx_of db b))" for k
        using locks_disjoint [OF inv live(1) v(1), of k] that by blast
      moreover obtain ops' where "running s v = Some ops'" "tx_sim rs (committed s) h (tx_of db b) ops'"
        using Cons.prems(3) [OF v(1)] v(2) by auto
      ultimately show ?thesis unfolding tx_sim_def by (intro exI [of _ ops']) simp
    qed
    then have "fold undo_upd (all_upds uss') ?h = (\<lambda>k. if k \<in> undone_keys c db txs then committed s k else ?h k)"
      by (intro Cons.IH [OF uss(3) d(1)])
    moreover have "undone_keys c db (tx # txs) = ?locks \<union> undone_keys c db txs"
    proof -
      have own: "b = a" if v: "c v = Some b" "tx_id (tx_of db b) = rtx_id tx" for v b
      proof -
        have "u = v" using v(2) live(2) by (intro running_ids(2) [OF inv live(1) v(1)]) simp
        then show ?thesis using v(1) live(1) by simp
      qed
      have "k \<in> undone_keys c db (tx # txs) \<longleftrightarrow> k \<in> ?locks \<or> k \<in> undone_keys c db txs" for k
      proof
        assume "k \<in> undone_keys c db (tx # txs)"
        then obtain v b where v: "c v = Some b" "tx_id (tx_of db b) \<in> rtx_id ` set (tx # txs)" "k \<in> set (tx_locks (tx_of db b))"
          unfolding undone_keys_def by blast
        show "k \<in> ?locks \<or> k \<in> undone_keys c db txs"
        proof (cases "tx_id (tx_of db b) = rtx_id tx")
          case True
          then show ?thesis using own [OF v(1)] v(3) by simp
        next
          case False
          then have "tx_id (tx_of db b) \<in> rtx_id ` set txs" using v(2) by simp
          then show ?thesis using v(1,3) unfolding undone_keys_def by blast
        qed
      next
        have "tx_id (tx_of db a) \<in> rtx_id ` set (tx # txs)" using live(2) by simp
        moreover assume "k \<in> ?locks \<or> k \<in> undone_keys c db txs"
        ultimately show "k \<in> undone_keys c db (tx # txs)"
          using live(1) unfolding undone_keys_def by (elim disjE; simp) blast+
      qed
      then show ?thesis by blast
    qed
    ultimately show ?thesis by (simp add: uss(1) h fun_eq_iff)
  qed
qed

text \<open>Every entry of the last checkpoint can be undone, within bounds.\<close>

lemma checked_recoverable:
  assumes inv: "sys_inv es sg s as rs" and ch: "checked es sg rs n txs" and tx: "tx \<in> set txs"
  shows "\<exists>us. recoverable rs n tx us \<and> undone s (sys_tx sg) (sys_db sg) tx us \<and> length us \<le> length rs \<and>
    (\<forall>u \<in> set us. upd_old u \<noteq> [] \<or> upd_new u \<noteq> [])"
proof -
  have sim: "sim s (sys_tx sg) as rs (sys_db sg)" using inv by (simp add: sys_inv_def)
  have l: "unat (rtx_last_lsn tx) \<le> n" "listed sg (drop n rs) tx" "n \<le> length rs" using ch tx by (simp_all add: checked_def)
  then have m: "max n (unat (rtx_last_lsn tx)) = n" "unat (rtx_last_lsn tx) \<le> length rs" by simp_all
  from l(2) consider (ended) "tx_ended (rtx_id tx) (drop n rs)" "\<forall>u a. sys_tx sg u = Some a \<longrightarrow> tx_id (tx_of (sys_db sg) a) \<noteq> rtx_id tx"
    | (live) u a where "sys_tx sg u = Some a" "tx_id (tx_of (sys_db sg) a) = rtx_id tx" "tx_open (rtx_id tx) (drop n rs)"
      "last_of (rtx_id tx) (drop n rs) (rtx_last_lsn tx) = tx_last_lsn (tx_of (sys_db sg) a)" unfolding listed_def by blast
  then show ?thesis
  proof cases
    case ended
    then show ?thesis using m by (intro exI [of _ "[]"]) (simp add: recoverable_def undone_def)
  next
    case (live u a)
    obtain ops where ops: "running s u = Some ops" "tx_sim rs (committed s) (kv_ht_get (db_ht (sys_db sg))) (tx_of (sys_db sg) a) ops"
      by (rule sim_opsE [OF sim live(1)])
    then obtain us where us: "chain rs (unat (tx_last_lsn (tx_of (sys_db sg) a))) us"
      "map upd_write us = tx_writes (committed s) ops" "consistent us (committed s)" unfolding tx_sim_def by blast
    have "undone s (sys_tx sg) (sys_db sg) tx us" unfolding undone_def using live(1,2) ops(1) us(2,3) by blast
    moreover have "recoverable rs n tx us" using live(3,4) us(1) m by (simp add: recoverable_def)
    moreover have "length us \<le> length rs" using chain_bounds [OF us(1)] by simp
    ultimately show ?thesis using consistent_effective [OF us(3)] by blast
  qed
qed

lemma checked_recoverable_all:
  assumes inv: "sys_inv es sg s as rs" and ch: "checked es sg rs n txs"
  obtains uss where "list_all2 (recoverable rs n) txs uss" "list_all2 (undone s (sys_tx sg) (sys_db sg)) txs uss"
    "\<forall>u \<in> set (all_upds uss). upd_old u \<noteq> [] \<or> upd_new u \<noteq> []" "length (all_upds uss) \<le> length txs * length rs"
proof -
  have "\<exists>uss. list_all2 (\<lambda>tx us. recoverable rs n tx us \<and> undone s (sys_tx sg) (sys_db sg) tx us \<and> length us \<le> length rs \<and>
      (\<forall>u \<in> set us. upd_old u \<noteq> [] \<or> upd_new u \<noteq> [])) ts uss" if "set ts \<subseteq> set txs" for ts
    using that
  proof (induction ts)
    case Nil
    show ?case by (intro exI [of _ "[]"]) simp
  next
    case (Cons t ts)
    then show ?case using checked_recoverable [OF inv ch, of t] by (auto simp: list_all2_Cons1)
  qed
  then obtain uss where uss: "list_all2 (\<lambda>tx us. recoverable rs n tx us \<and> undone s (sys_tx sg) (sys_db sg) tx us \<and> length us \<le> length rs \<and>
      (\<forall>u \<in> set us. upd_old u \<noteq> [] \<or> upd_new u \<noteq> [])) txs uss" by blast
  have "length (all_upds uss) \<le> length txs * length rs" "\<forall>u \<in> set (all_upds uss). upd_old u \<noteq> [] \<or> upd_new u \<noteq> []"
    using uss by (induction rule: list_all2_induct) auto
  then show thesis using uss by (intro that [of uss]) (auto elim: list.rel_mono_strong)
qed

text \<open>
  The new server: its log is the old one with the records of the transactions undone, its table
  what that log gives, and it is in the relation again.
\<close>

lemma new_server:
  assumes ht: "kv_ht_create 2 str_hash_func str_cmp_func = Inr ht0"
    and rc: "kv_recovery_recover files log = Inr st" "log_rep st rs"
    and rd: "kv_recovery_redo files (recovery_file st) ht0 = Inr ht" "ht_inv ht" "kv_ht_get ht = replay rs Map.empty"
    and ids: "tx_ids = id_lines xs" and vals: "vals_ok (kv_ht_get ht)"
  shows "\<exists>db. server_start files log tx_ids = Inr db \<and> kv_ht_get (db_ht db) = kv_ht_get ht \<and>
     transaction_id (db_txm db) = (if xs = [] then 0 else last xs) \<and> db_rec db = st \<and>
     sim \<lparr>committed = kv_ht_get ht, running = (\<lambda>_. None)\<rparr> (\<lambda>_. None) [] rs db"
proof -
  obtain txm where txm: "kv_txm_init tx_ids = Inr txm" "transaction_id txm = (if xs = [] then 0 else last xs)" "txm_rep txm []"
    using kv_txm_init_eq [of xs] kv_txm_init_rep [of xs] ids by auto
  let ?db = "\<lparr>db_ht = ht, db_lm = kv_lm_create, db_txm = txm, db_rec = st\<rparr>"
  have "server_start files log tx_ids = Inr ?db"
    using ht rc(1) rd(1) txm(1) by (simp add: server_start_def kv_recovery_init_def)
  moreover have "db_inv (\<lambda>_. None) [] rs ?db"
    using txm(3) lm_inv_create rd(2) rc(2) by (simp add: db_inv_def lm.holds_exactly_def)
  moreover from this have "sim \<lparr>committed = kv_ht_get ht, running = (\<lambda>_. None)\<rparr> (\<lambda>_. None) [] rs ?db"
    using vals rd(3) by (intro simI) simp_all
  ultimately show ?thesis using txm(2) by (intro exI [of _ ?db]) simp
qed

text \<open>\<open>survives s sg txs\<close>: the contents after a restart that undoes the open transactions of \<open>txs\<close>.\<close>

definition survives :: "store \<Rightarrow> kv_sys \<Rightarrow> kv_recovery_tx list \<Rightarrow> contents" where
  "survives s sg txs =
     (\<lambda>k. if k \<in> undone_keys (sys_tx sg) (sys_db sg) txs then committed s k else kv_ht_get (db_ht (sys_db sg)) k)"

lemma vals_ok_survives: "sim s (sys_tx sg) as rs (sys_db sg) \<Longrightarrow> vals_ok (survives s sg txs)"
  using simD(2,3) [of s "sys_tx sg" as rs "sys_db sg"] unfolding vals_ok_def survives_def by (metis)

lemma restart_files:
  assumes inv: "sys_inv es sg s as rs" and f: "files_inv es sg rs txs" and cl: "clean_run es"
    and len: "length rs \<noteq> 1" "length rs < 2 ^ 29" and ht0: "ht_inv ht0" "kv_ht_get ht0 = Map.empty"
  shows "\<exists>st qs ht. kv_recovery_recover (sys_files sg) (recovery_file (db_rec (sys_db sg))) = Inr st \<and> log_rep st (rs @ qs) \<and>
     kv_recovery_redo (sys_files sg) (recovery_file st) ht0 = Inr ht \<and> ht_inv ht \<and>
     kv_ht_get ht = replay (rs @ qs) Map.empty \<and> kv_ht_get ht = survives s sg txs \<and> length qs \<le> 4 * length rs + 8"
proof -
  have sim: "sim s (sys_tx sg) as rs (sys_db sg)" using inv by (simp add: sys_inv_def)
  note db = simD(1) [OF sim]
  have rep: "log_rep (db_rec (sys_db sg)) rs" by (rule db_invD [OF db])
  from f consider (none) "last_lsn_file (sys_files sg) = None" "txs = []" | (some) n where "checked es sg rs n txs"
    unfolding files_inv_def by (elim disjE exE conjE)
  then show ?thesis
  proof cases
    case none
    have "length rs + 1 < 2 ^ 32" using len(2) by simp
    then obtain ht where "kv_recovery_redo (sys_files sg) (recovery_file (db_rec (sys_db sg))) ht0 = Inr ht" "ht_inv ht"
      "kv_ht_get ht = replay rs (kv_ht_get ht0)" using redo_whole_log [OF rep _ ht0(1) none(1)] by blast
    moreover have "survives s sg txs = replay rs Map.empty"
      using simD(4) [OF sim] none(2) by (simp add: survives_def undone_keys_def)
    ultimately show ?thesis using recover_no_checkpoint [OF rep len(1) none(1)] rep ht0(2)
      by (intro exI [of _ "db_rec (sys_db sg)"] exI [of _ "[]"] exI [of _ ht]) simp
  next
    case (some n)
    obtain uss where uss: "list_all2 (recoverable rs n) txs uss" "list_all2 (undone s (sys_tx sg) (sys_db sg)) txs uss"
      "\<forall>u \<in> set (all_upds uss). upd_old u \<noteq> [] \<or> upd_new u \<noteq> []" "length (all_upds uss) \<le> length txs * length rs"
      by (rule checked_recoverable_all [OF inv some])
    obtain t content ht1 where c: "0 < n" "n \<le> length rs" "length txs \<le> 4" "distinct (map rtx_id txs)"
      "last_lsn_file (sys_files sg) = Some (fmt_08X (of_nat n) @ t)" "log_tx_list (rs ! (n - 1)) = Some txs"
      "snapshot_dir (sys_files sg) (snapshot_file_name (fmt_08X (of_nat n))) = Some content"
      "kv_ht_foreach ht1 kv_hashtable_foreach (Inr []) = Inr content" "ht_inv ht1"
      "kv_ht_get ht1 = replay (take n rs) Map.empty" "table_ok ht1"
      using some cl unfolding checked_def by blast
    have "length txs * length rs \<le> 4 * length rs" by (rule mult_le_mono1 [OF c(3)])
    with uss(4) have small: "length (all_upds uss) \<le> 4 * length rs" by (rule order_trans)
    then have room: "length rs + length (all_upds uss) + 2 * length txs + 1 < 2 ^ 32" using len(2) c(3) by simp
    have len2: "2 \<le> length rs" using len(1) c(1,2) by simp
    obtain st qs where r: "kv_recovery_recover (sys_files sg) (recovery_file (db_rec (sys_db sg))) = Inr st" "log_rep st (rs @ qs)"
      "length qs \<le> length (all_upds uss) + 2 * length txs" "\<forall>m. replay qs m = fold undo_upd (all_upds uss) m"
      using recover_checkpoint [OF rep len2 c(1,2,5,6) uss(1) c(4) uss(3) room] by blast
    have l: "length (rs @ qs) + 1 < 2 ^ 32" "n \<le> length (rs @ qs)" using r(3) room c(2) by simp_all
    obtain ht where h: "kv_recovery_redo (sys_files sg) (recovery_file st) ht0 = Inr ht" "ht_inv ht"
      "kv_ht_get ht = replay (drop n (rs @ qs)) (kv_ht_get ht1)"
      using redo_from_snapshot [OF r(2) l(1) c(1) l(2) ht0 c(5,7,8,9,11)] by blast
    have "replay (drop n (rs @ qs)) (replay (take n rs) Map.empty) = replay (rs @ qs) Map.empty"
    proof -
      have "rs @ qs = take n rs @ drop n (rs @ qs)" using c(2) by simp
      then show ?thesis by (metis replay_simps(3))
    qed
    then have g: "kv_ht_get ht = replay (rs @ qs) Map.empty" using h(3) c(10) by simp
    moreover have "replay (rs @ qs) Map.empty = survives s sg txs"
    proof -
      have "replay (rs @ qs) Map.empty = fold undo_upd (all_upds uss) (kv_ht_get (db_ht (sys_db sg)))"
        using r(4) simD(4) [OF sim] by simp
      also have "\<dots> = survives s sg txs"
        unfolding survives_def
      proof (rule undo_all [OF db uss(2) c(4)])
        fix u a assume a: "sys_tx sg u = Some a"
        show "\<exists>ops. running s u = Some ops \<and> tx_sim rs (committed s) (kv_ht_get (db_ht (sys_db sg))) (tx_of (sys_db sg) a) ops"
          by (rule sim_opsE [OF sim a]) blast
      qed
      finally show ?thesis .
    qed
    moreover have "length qs \<le> 4 * length rs + 8" using r(3) small c(3) by simp
    ultimately show ?thesis using r(1,2) h(1,2)
      by (intro exI [of _ st] exI [of _ qs] exI [of _ ht]) simp
  qed
qed

lemma restart_sim:
  assumes run: "sys_run es sg" and cl: "clean_run es"
    and len: "rec_lsn (db_rec (sys_db sg)) \<noteq> 1" "unat (rec_lsn (db_rec (sys_db sg))) < 2 ^ 29"
  obtains s as rs txs db qs where "sys_inv es sg s as rs" "files_inv es sg rs txs"
    "server_start (sys_files sg) (recovery_file (db_rec (sys_db sg))) (tx_id_file (db_txm (sys_db sg))) = Inr db"
    "kv_ht_get (db_ht db) = survives s sg txs" "transaction_id (db_txm db) = transaction_id (db_txm (sys_db sg))"
    "sim \<lparr>committed = survives s sg txs, running = (\<lambda>_. None)\<rparr> (\<lambda>_. None) [] (rs @ qs) db" "length qs \<le> 4 * length rs + 8"
proof -
  obtain s as rs txs where inv: "sys_inv es sg s as rs" and f: "files_inv es sg rs txs" using run_files [OF run] by blast
  have sim: "sim s (sys_tx sg) as rs (sys_db sg)" using inv by (simp add: sys_inv_def)
  have l: "unat (rec_lsn (db_rec (sys_db sg))) = length rs" by (rule log_rep_length [OF db_invD(4) [OF simD(1) [OF sim]]])
  have "rec_lsn (db_rec (sys_db sg)) = 1" if "length rs = 1"
    using that l by (simp add: word_unat_eq_iff)
  then have len': "length rs \<noteq> 1" "length rs < 2 ^ 29" using len l by auto
  obtain ht0 :: kv_table where ht0: "kv_ht_create 2 str_hash_func str_cmp_func = Inr ht0" "ht_inv ht0" "kv_ht_get ht0 = Map.empty"
    using kv_ht_create_correct [of 2 str_cmp_func str_hash_func] by auto
  obtain st qs ht where r: "kv_recovery_recover (sys_files sg) (recovery_file (db_rec (sys_db sg))) = Inr st" "log_rep st (rs @ qs)"
     "kv_recovery_redo (sys_files sg) (recovery_file st) ht0 = Inr ht" "ht_inv ht"
     "kv_ht_get ht = replay (rs @ qs) Map.empty" "kv_ht_get ht = survives s sg txs" "length qs \<le> 4 * length rs + 8"
    using restart_files [OF inv f cl len' ht0(2,3)] by blast
  obtain xs where xs: "tx_id_file (db_txm (sys_db sg)) = id_lines xs"
    "transaction_id (db_txm (sys_db sg)) = (if xs = [] then 0 else last xs)"
    using run_numbered [OF run] by (auto simp: numbered_def id_state_def)
  have v: "vals_ok (kv_ht_get ht)" using vals_ok_survives [OF sim] r(6) by simp
  show thesis using new_server [OF ht0(1) r(1-5) xs(1) v] that [OF inv f] xs(2) r(6,7) by auto
qed

text \<open>A checkpoint of up to four transactions succeeds when the table can be put into a snapshot.\<close>

definition listed_txs :: "kv_db \<Rightarrow> nat list \<Rightarrow> kv_recovery_tx list" where
  "listed_txs db as = map (\<lambda>a. \<lparr>rtx_id = tx_id (tx_of db a), rtx_last_lsn = tx_last_lsn (tx_of db a)\<rparr>) as"

lemma checkpoint_taken:
  assumes inv: "db_inv c as rs db" and len: "length rs + 1 < 2 ^ 32" "length as \<le> 4" and ok: "table_ok (db_ht db)"
  defines "r \<equiv> check_rec (rec_lsn (db_rec db) + 1) (listed_txs db as)"
  obtains db' files' content t where "db' = db\<lparr>db_rec := append_rec r (db_rec db)\<rparr>" "db_inv c as (rs @ [r]) db'"
    "take_snapshot (\<lambda>n. 8 * n) db files = Inr (db', files')"
    "last_lsn_file files' = Some (fmt_08X (rec_lsn (db_rec db) + 1) @ t)"
    "snapshot_dir files' (snapshot_file_name (fmt_08X (rec_lsn (db_rec db) + 1))) = Some content"
    "kv_ht_foreach (db_ht db) kv_hashtable_foreach (Inr []) = Inr content"
proof -
  let ?db = "db\<lparr>db_rec := append_rec r (db_rec db)\<rparr>"
  have on: "kv_txm_ongoing_transaction_ids (\<lambda>n. 8 * n) (db_txm db) = Inr (listed_txs db as)"
    using ongoing_eq [OF db_invD(1) [OF inv], of "\<lambda>n. 8 * n"] by (simp add: listed_txs_def tx_of_def)
  obtain ht0 :: kv_table where "ht_inv ht0" "kv_ht_get ht0 = Map.empty"
    using kv_ht_create_correct [of 2 str_cmp_func str_hash_func] by auto
  then obtain content where content: "kv_ht_foreach (db_ht db) kv_hashtable_foreach (Inr []) = Inr content"
    using snapshot_load [OF db_invD(3) [OF inv] ok] by blast
  then obtain files' where f: "snapshot_child (rec_lsn (db_rec db) + 1) (db_ht db) files = Inr files'"
    "last_lsn_file files' = Some (write_last_lsn (rec_lsn (db_rec db) + 1) (last_lsn_file files))"
    "snapshot_dir files' (snapshot_file_name (fmt_08X (rec_lsn (db_rec db) + 1))) = Some content"
    by (simp add: snapshot_child_def)
  have txs: "length (listed_txs db as) \<le> 4" using len(2) by (simp add: listed_txs_def)
  have snap: "take_snapshot (\<lambda>n. 8 * n) db files = Inr (?db, files')"
    using on f(1) check_log_eq [OF txs, of "db_rec db"] by (simp add: take_snapshot_def snapshot_check_def r_def)
  have "log_rep (append_rec r (db_rec db)) (rs @ [r])"
    using txs len(1) by (intro log_rep_append [OF db_invD(4) [OF inv]]) (simp_all add: r_def line_ok_def check_rec_def)
  moreover have txo: "tx_of ?db b = tx_of db b" for b by (simp add: tx_of_def)
  moreover have sel: "db_ht ?db = db_ht db" "db_lm ?db = db_lm db" "db_txm ?db = db_txm db" "db_rec ?db = append_rec r (db_rec db)"
    by simp_all
  ultimately have "db_inv c as (rs @ [r]) ?db" using inv unfolding db_inv_def txo sel by blast
  with snap show thesis using that [of ?db files'] f(2,3) content write_last_lsn_prefix by metis
qed

text \<open>What recover reads of the last checkpoint: its list of transactions.\<close>

definition last_listed :: "kv_files \<Rightarrow> string \<Rightarrow> kv_recovery_tx list \<Rightarrow> bool" where
  "last_listed files log txs \<longleftrightarrow>
     last_lsn_file files = None \<and> txs = [] \<or>
     (\<exists>n l. last_checked (last_lsn_file files) = Inr n \<and> kv_recovery_get_log n log = Inr (Some l) \<and> log_tx_list l = Some txs)"

lemma files_inv_listed:
  assumes inv: "sys_inv es sg s as rs" and f: "files_inv es sg rs txs"
  shows "last_listed (sys_files sg) (recovery_file (db_rec (sys_db sg))) txs"
proof -
  have rep: "log_rep (db_rec (sys_db sg)) rs" using inv by (simp add: sys_inv_def sim_def db_inv_def)
  show ?thesis
  proof (cases "last_lsn_file (sys_files sg) = None \<and> txs = []")
    case False
    then obtain n where n: "checked es sg rs n txs" using f unfolding files_inv_def by blast
    then obtain t where c: "0 < n" "n \<le> length rs" "last_lsn_file (sys_files sg) = Some (fmt_08X (of_nat n) @ t)"
      "log_tx_list (rs ! (n - 1)) = Some txs" unfolding checked_def by blast
    then have "kv_recovery_get_log (of_nat n) (recovery_file (db_rec (sys_db sg))) = Inr (Some (rs ! (n - 1)))"
      using log.get_in [OF rep, of "n - 1"] by simp
    then show ?thesis unfolding last_listed_def using c(3,4) last_checked_hex by metis
  qed (simp add: last_listed_def)
qed

subsection \<open>Sample runs\<close>

lemma check_run: "\<exists>sg a. sys_run [(1, C_Begin, transaction_started), (1, C_Set ''k'' ''v'', set_success)] sg \<and>
   sys_tx sg = [1 \<mapsto> a] \<and> ''k'' \<in> sys_locks sg a \<and> rec_lsn (db_rec (sys_db sg)) \<noteq> 1 \<and>
   unat (rec_lsn (db_rec (sys_db sg))) \<le> 3 \<and> last_lsn_file (sys_files sg) \<noteq> None \<and>
   (\<forall>txs. last_listed (sys_files sg) (recovery_file (db_rec (sys_db sg))) txs \<longrightarrow> tx_id (tx_of (sys_db sg) a) \<in> rtx_id ` set txs)"
proof -
  let ?es = "[(1, C_Begin, transaction_started), (1, C_Set ''k'' ''v'', set_success)]"
  obtain sg a where sg: "sys_run ?es sg" "room (sys_db sg)" "sys_wait sg = (\<lambda>_. None)" "sys_tx sg = [1 \<mapsto> a]" "''k'' \<in> sys_locks sg a"
    and small: "unat (rec_lsn (db_rec (sys_db sg))) = 2" using set_run by blast
  let ?db = "sys_db sg"
  obtain s as rs where inv: "sys_inv ?es sg s as rs" using run_inv [OF sg(1)] by blast
  have sim: "sim s (sys_tx sg) as rs ?db" using inv by (simp add: sys_inv_def)
  note db = simD(1) [OF sim]
  have as: "as = [a]" by (rule only_tx [OF db, of 1]) (simp_all add: sg(4))
  let ?tx = "\<lparr>rtx_id = tx_id (tx_of ?db a), rtx_last_lsn = tx_last_lsn (tx_of ?db a)\<rparr>"
  let ?n = "rec_lsn (db_rec ?db) + 1"
  let ?r = "check_rec ?n [?tx]"
  let ?db' = "?db\<lparr>db_rec := append_rec ?r (db_rec ?db)\<rparr>"
  have txs: "listed_txs ?db as = [?tx]" using as by (simp add: listed_txs_def)
  have len: "length rs = 2" using small log_rep_length [OF db_invD(4) [OF db]] by simp
  have tok: "table_ok (db_ht ?db)" by (rule clean_table [OF inv]) (simp add: clean_run_def)
  obtain files' t where c: "db_inv (sys_tx sg) as (rs @ [?r]) ?db'" "take_snapshot (\<lambda>n. 8 * n) ?db (sys_files sg) = Inr (?db', files')"
    "last_lsn_file files' = Some (fmt_08X ?n @ t)"
    by (rule checkpoint_taken [OF db _ _ tok, of "sys_files sg", unfolded txs]) (use len as in auto)
  let ?sg = "sg\<lparr>sys_db := ?db', sys_files := files'\<rparr>"
  have "sys_step sg [] ?sg" using c(2) by (rule step_checkpoint)
  then have run: "sys_run (?es @ []) ?sg" using sg(3) by (intro run_step [OF sg(1,2)]) (simp_all add: waits_small_def)
  have l: "unat ?n = length rs + 1"
    using lsn_nat [OF db_invD(4) [OF db]] room_length [OF sim sg(2)] by simp
  have rec: "rec_lsn (db_rec ?db') = ?n" by (simp add: append_rec_def check_rec_def)
  have get: "kv_recovery_get_log ?n (recovery_file (db_rec ?db')) = Inr (Some ?r)"
    using log.get_in [OF db_invD(4) [OF c(1)], of "length rs"] log_rep_lsn [OF db_invD(4) [OF db]] by (simp add: add.commute)
  have lc: "last_checked (last_lsn_file files') = Inr ?n" using c(3) by simp
  have ids: "tx_of ?db' a = tx_of ?db a" by (simp add: tx_of_def)
  have only: "txs = [?tx]" if "last_listed files' (recovery_file (db_rec ?db')) txs" for txs
    using that lc get c(3) unfolding last_listed_def by (auto simp: check_rec_def)
  have "\<forall>txs. last_listed files' (recovery_file (db_rec ?db')) txs \<longrightarrow> tx_id (tx_of ?db' a) \<in> rtx_id ` set txs"
  proof (intro allI impI)
    fix txs assume "last_listed files' (recovery_file (db_rec ?db')) txs"
    then have "txs = [?tx]" by (rule only)
    then show "tx_id (tx_of ?db' a) \<in> rtx_id ` set txs" unfolding ids by simp
  qed
  moreover have "rec_lsn (db_rec ?db') \<noteq> 1" "unat (rec_lsn (db_rec ?db')) \<le> 3" unfolding rec using l len by auto
  moreover have "''k'' \<in> sys_locks ?sg a" using sg(5) by (simp add: tx_of_def)
  ultimately show ?thesis using run sg(4) c(3) by (intro exI [of _ ?sg] exI [of _ a] conjI) simp_all
qed

section \<open>Properties\<close>

text \<open>
  C3. What a crash leaves, in runs of \<open>sys_run\<close>, whose checkpoints fall between commands (Windows has
  runs in which they do not).  After a crash in any state of such a run, a new server starts on the files.
  Its table holds, for the keys of the open transactions that the last checkpoint lists, the
  committed contents, and for all other keys what the table held at the crash; the numbers
  of transactions go on.  The snapshot of the checkpoint, the records behind it and the
  compensation records recover writes are all involved.  The log must not consist of exactly
  one record, keys and values must have no spaces, and the log must be shorter than 2^29 records.
\<close>

theorem crash_restart:
  assumes "sys_run es sg" "clean_run es"
    "rec_lsn (db_rec (sys_db sg)) \<noteq> 1" "unat (rec_lsn (db_rec (sys_db sg))) < 2 ^ 29"
  shows "\<exists>s txs db. accepts es empty_store = Some s \<and>
    last_listed (sys_files sg) (recovery_file (db_rec (sys_db sg))) txs \<and>
    server_start (sys_files sg) (recovery_file (db_rec (sys_db sg))) (tx_id_file (db_txm (sys_db sg))) = Inr db \<and>
    transaction_id (db_txm db) = transaction_id (db_txm (sys_db sg)) \<and>
    (\<forall>k. kv_ht_get (db_ht db) k =
       (if \<exists>u a. sys_tx sg u = Some a \<and> tx_id (tx_of (sys_db sg) a) \<in> rtx_id ` set txs \<and>
               k \<in> set (tx_locks (tx_of (sys_db sg) a))
        then committed s k else kv_ht_get (db_ht (sys_db sg)) k))"
proof -
  obtain s as rs txs db where r: "sys_inv es sg s as rs" "files_inv es sg rs txs"
    "server_start (sys_files sg) (recovery_file (db_rec (sys_db sg))) (tx_id_file (db_txm (sys_db sg))) = Inr db"
    "kv_ht_get (db_ht db) = survives s sg txs" "transaction_id (db_txm db) = transaction_id (db_txm (sys_db sg))"
    by (rule restart_sim [OF assms])
  have "accepts es empty_store = Some (hide sg s)" "committed (hide sg s) = committed s"
    using r(1) by (simp_all add: sys_inv_def hide_def)
  moreover have "kv_ht_get (db_ht db) k =
       (if \<exists>u a. sys_tx sg u = Some a \<and> tx_id (tx_of (sys_db sg) a) \<in> rtx_id ` set txs \<and> k \<in> sys_locks sg a
        then committed s k else kv_ht_get (db_ht (sys_db sg)) k)" for k
    unfolding r(4) survives_def undone_keys_def mem_Collect_eq by (rule refl)
  ultimately show ?thesis using files_inv_listed [OF r(1,2)] r(3,5)
    by (intro exI [of _ "hide sg s"] exI [of _ txs] exI [of _ db] conjI allI) (simp_all only:)
qed

theorem crash_restart_witness:
  "\<exists>sg db. sys_run [(1, C_Begin, transaction_started), (1, C_Set ''k'' ''v'', set_success)] sg \<and>
    server_start (sys_files sg) (recovery_file (db_rec (sys_db sg))) (tx_id_file (db_txm (sys_db sg))) = Inr db \<and>
    kv_ht_get (db_ht db) ''k'' = None"
proof -
  let ?es = "[(1, C_Begin, transaction_started), (1, C_Set ''k'' ''v'', set_success)]"
  obtain sg a where sg: "sys_run ?es sg" "sys_tx sg = [1 \<mapsto> a]" "''k'' \<in> sys_locks sg a"
    "rec_lsn (db_rec (sys_db sg)) \<noteq> 1" "unat (rec_lsn (db_rec (sys_db sg))) \<le> 3"
    "\<forall>txs. last_listed (sys_files sg) (recovery_file (db_rec (sys_db sg))) txs \<longrightarrow> tx_id (tx_of (sys_db sg) a) \<in> rtx_id ` set txs"
    using check_run by blast
  have cl: "clean_run ?es" by (simp add: clean_run_def)
  have small: "unat (rec_lsn (db_rec (sys_db sg))) < 2 ^ 29" using sg(5) by simp
  obtain s txs db where r: "accepts ?es empty_store = Some s" "last_listed (sys_files sg) (recovery_file (db_rec (sys_db sg))) txs"
    "server_start (sys_files sg) (recovery_file (db_rec (sys_db sg))) (tx_id_file (db_txm (sys_db sg))) = Inr db"
    "\<forall>k. kv_ht_get (db_ht db) k =
       (if \<exists>u a. sys_tx sg u = Some a \<and> tx_id (tx_of (sys_db sg) a) \<in> rtx_id ` set txs \<and> k \<in> sys_locks sg a
        then committed s k else kv_ht_get (db_ht (sys_db sg)) k)"
    using crash_restart [OF sg(1) cl sg(4) small] by blast
  have "\<exists>u a. sys_tx sg u = Some a \<and> tx_id (tx_of (sys_db sg) a) \<in> rtx_id ` set txs \<and> ''k'' \<in> sys_locks sg a"
    using sg(2,3,6) r(2) by (intro exI [of _ 1] exI [of _ a]) simp
  then have "kv_ht_get (db_ht db) ''k'' = committed s ''k''" using r(4) by presburger
  moreover have "committed s ''k'' = None" using r(1) by (auto simp: empty_store_def Let_def)
  ultimately show ?thesis using sg(1) r(3) by auto
qed

text \<open>
  C4. Durability, in runs of \<open>sys_run\<close>, whose checkpoints fall between commands (with a checkpoint in
  the middle of a command it fails, see Windows).  Keys and values have no spaces, the log has
  fewer than 2^29 records and not exactly one.  Then what a transaction has committed is there
  after a crash: on every key no open transaction has locked, the new server holds the contents
  that the committed transactions, run one after the other, give.
\<close>

theorem commits_survive_crash:
  assumes "sys_run es sg" "clean_run es"
    "rec_lsn (db_rec (sys_db sg)) \<noteq> 1" "unat (rec_lsn (db_rec (sys_db sg))) < 2 ^ 29"
    and k: "\<forall>u a. sys_tx sg u = Some a \<longrightarrow> k \<notin> set (tx_locks (tx_of (sys_db sg) a))"
  shows "\<exists>m db. serially (snd (history es)) Map.empty = Some m \<and>
    server_start (sys_files sg) (recovery_file (db_rec (sys_db sg))) (tx_id_file (db_txm (sys_db sg))) = Inr db \<and>
    kv_ht_get (db_ht db) k = m k"
proof -
  obtain s as rs txs db where r: "sys_inv es sg s as rs"
    "server_start (sys_files sg) (recovery_file (db_rec (sys_db sg))) (tx_id_file (db_txm (sys_db sg))) = Inr db"
    "kv_ht_get (db_ht db) = survives s sg txs"
    by (rule restart_sim [OF assms(1-4)])
  have sim: "sim s (sys_tx sg) as rs (sys_db sg)" "serially (snd (history es)) Map.empty = Some (committed s)"
    using r(1) by (simp_all add: sys_inv_def)
  have "kv_ht_get (db_ht (sys_db sg)) k = committed s k" using simD(5) [OF sim(1), of k] k by blast
  then show ?thesis using sim(2) r(2,3) by (intro exI [of _ "committed s"] exI [of _ db]) (simp add: survives_def)
qed

theorem commits_survive_crash_witness:
  "\<exists>sg m db. sys_run [(1, C_Begin, transaction_started), (1, C_Set ''k'' ''v'', set_success), (1, C_Commit, transaction_committed)] sg \<and>
    server_start (sys_files sg) (recovery_file (db_rec (sys_db sg))) (tx_id_file (db_txm (sys_db sg))) = Inr db \<and>
    serially (snd (history [(1, C_Begin, transaction_started), (1, C_Set ''k'' ''v'', set_success), (1, C_Commit, transaction_committed)])) Map.empty = Some m \<and>
    kv_ht_get (db_ht db) ''k'' = m ''k''"
proof -
  let ?es = "[(1, C_Begin, transaction_started), (1, C_Set ''k'' ''v'', set_success), (1, C_Commit, transaction_committed)]"
  obtain sg where sg: "sys_run ?es sg" "sys_tx sg = (\<lambda>_. None)" "unat (rec_lsn (db_rec (sys_db sg))) = 3"
    using commit_run by blast
  have "clean_run ?es" by (simp add: clean_run_def)
  moreover have "rec_lsn (db_rec (sys_db sg)) \<noteq> 1" "unat (rec_lsn (db_rec (sys_db sg))) < 2 ^ 29" using sg(3) by auto
  moreover have "\<forall>u a. sys_tx sg u = Some a \<longrightarrow> ''k'' \<notin> sys_locks sg a" using sg(2) by simp
  ultimately show ?thesis using commits_survive_crash [OF sg(1)] sg(1) by meson
qed

text \<open>
  C27. A transaction without a checkpoint is not undone: a client starts a transaction, sets a
  key and does not commit, and the server crashes before it has taken a checkpoint.  The new
  server, in which nothing is open, holds the value that was never committed.
\<close>

theorem uncommitted_survives_crash:
  "\<exists>sg s db. sys_run [(1, C_Begin, transaction_started), (1, C_Set ''k'' ''v'', set_success)] sg \<and>
    accepts [(1, C_Begin, transaction_started), (1, C_Set ''k'' ''v'', set_success)] empty_store = Some s \<and> committed s = Map.empty \<and>
    server_start (sys_files sg) (recovery_file (db_rec (sys_db sg))) (tx_id_file (db_txm (sys_db sg))) = Inr db \<and>
    txm_mem (db_txm db) = (\<lambda>_. None) \<and> kv_ht_get (db_ht db) ''k'' = Some ''v''"
proof -
  let ?es = "[(1, C_Begin, transaction_started), (1, C_Set ''k'' ''v'', set_success)]"
  obtain sg a where sg: "sys_run ?es sg" "sys_wait sg = (\<lambda>_. None)" "sys_tx sg = [1 \<mapsto> a]" "''k'' \<in> sys_locks sg a"
    "unat (rec_lsn (db_rec (sys_db sg))) = 2" "last_lsn_file (sys_files sg) = None" using set_run by blast
  have a: "sys_tx sg 1 = Some a" using sg(3) by simp
  have cl: "clean_run ?es" by (simp add: clean_run_def)
  have len: "rec_lsn (db_rec (sys_db sg)) \<noteq> 1" "unat (rec_lsn (db_rec (sys_db sg))) < 2 ^ 29" using sg(5) by auto
  obtain s as rs txs db qs where r: "sys_inv ?es sg s as rs" "files_inv ?es sg rs txs"
    "server_start (sys_files sg) (recovery_file (db_rec (sys_db sg))) (tx_id_file (db_txm (sys_db sg))) = Inr db"
    "kv_ht_get (db_ht db) = survives s sg txs"
    "sim \<lparr>committed = survives s sg txs, running = (\<lambda>_. None)\<rparr> (\<lambda>_. None) [] (rs @ qs) db"
    by (rule restart_sim [OF sg(1) cl len])
  have hid: "hide sg s = s" using sg(2) by (intro store.equality) (simp_all add: hide_def)
  have acc: "accepts ?es empty_store = Some s" and sim: "sim s (sys_tx sg) as rs (sys_db sg)"
    using r(1) hid by (simp_all add: sys_inv_def)
  have s: "committed s = Map.empty" "running s 1 = Some [(C_Set ''k'' ''v'', set_success)]"
    using acc by (auto simp: empty_store_def Let_def)
  have txs: "txs = []" using r(2) sg(6) by (auto simp: files_inv_def checked_def)
  obtain ops where "running s 1 = Some ops" "tx_sim rs (committed s) (kv_ht_get (db_ht (sys_db sg))) (tx_of (sys_db sg) a) ops"
    by (rule sim_opsE [OF sim a])
  then have "kv_ht_get (db_ht (sys_db sg)) ''k'' = tx_view (committed s) [(C_Set ''k'' ''v'', set_success)] ''k''"
    using s(2) sg(4) unfolding tx_sim_def by auto
  then have "kv_ht_get (db_ht db) ''k'' = Some ''v''"
    using r(4) txs s(1) by (simp add: survives_def undone_keys_def tx_view_def tx_writes_def Let_def)
  moreover have "txm_mem (db_txm db) = (\<lambda>_. None)"
    using txm_repD(3) [OF db_invD(1) [OF simD(1) [OF r(5)]]] by (simp add: dom_def fun_eq_iff)
  ultimately show ?thesis using sg(1) acc s(1) r(3) by (intro exI [of _ sg] exI [of _ s] exI [of _ db]) simp
qed

text \<open>
  C28. A server started on a log of exactly one record does not find the number of the record: it
  starts counting from 0 again, and the next record gets a number that is in the log already.
\<close>

theorem one_record_restart:
  "\<exists>sg db. sys_run [(1, C_Begin, transaction_started)] sg \<and> rec_lsn (db_rec (sys_db sg)) = 1 \<and>
    server_start (sys_files sg) (recovery_file (db_rec (sys_db sg))) (tx_id_file (db_txm (sys_db sg))) = Inr db \<and>
    rec_lsn (db_rec db) = 0 \<and> fst (kv_recovery_begin_log 0 2 (db_rec db)) = 1"
proof -
  obtain sg where sg: "sys_run [(1, C_Begin, transaction_started)] sg" "rec_lsn (db_rec (sys_db sg)) = 1"
    "last_lsn_file (sys_files sg) = None" using begin_run by blast
  obtain s as rs where sim: "sim s (sys_tx sg) as rs (sys_db sg)" by (rule run_simE [OF sg(1)])
  have rep: "log_rep (db_rec (sys_db sg)) rs" by (rule db_invD [OF simD(1) [OF sim]])
  then have len: "length rs = 1" using log_rep_length [OF rep] sg(2) by simp
  then obtain r where rs: "rs = [r]" by (cases rs) auto
  let ?log = "recovery_file (db_rec (sys_db sg))"
  have log: "?log = line_text r" "line_ok r" using rep by (simp_all add: log_rep_def rs log_text_def)
  have rec: "kv_recovery_recover (sys_files sg) ?log = Inr \<lparr>recovery_file = ?log, rec_lsn = 0\<rparr>"
    using read_last_lsn_one [OF log(2)] sg(3) log(1) by (simp add: kv_recovery_recover_def last_checked_def)
  obtain ht0 :: kv_table where ht0: "kv_ht_create 2 str_hash_func str_cmp_func = Inr ht0" "ht_inv ht0"
    using kv_ht_create_correct [of 2 str_cmp_func str_hash_func] by auto
  obtain ht where ht: "kv_recovery_redo (sys_files sg) ?log ht0 = Inr ht"
    using redo_whole_log [OF rep _ ht0(2) sg(3)] len by auto
  obtain txm where "kv_txm_init (tx_id_file (db_txm (sys_db sg))) = Inr txm"
    using run_numbered [OF sg(1)] kv_txm_init_eq by (auto simp: numbered_def id_state_def)
  moreover define db where "db = \<lparr>db_ht = ht, db_lm = kv_lm_create, db_txm = txm, db_rec = \<lparr>recovery_file = ?log, rec_lsn = 0\<rparr>\<rparr>"
  ultimately have "server_start (sys_files sg) ?log (tx_id_file (db_txm (sys_db sg))) = Inr db"
    using ht0(1) rec ht by (simp add: server_start_def kv_recovery_init_def)
  moreover have "rec_lsn (db_rec db) = 0" by (simp add: db_def)
  ultimately show ?thesis using sg(1,2) by (intro exI [of _ sg] exI [of _ db]) (simp add: simple_logs)
qed

text \<open>
  C26. The new server serves: every command its first client sends is answered as the abstract
  store with the surviving contents answers it.
\<close>

theorem restarted_server_serves:
  assumes "sys_run es sg" "clean_run es"
    and len: "rec_lsn (db_rec (sys_db sg)) \<noteq> 1" "unat (rec_lsn (db_rec (sys_db sg))) < 2 ^ 27"
      "unat (transaction_id (db_txm (sys_db sg))) < 2 ^ 30"
    and u: "0 < u" "command_small cmd" "length result = RESULT_SIZE"
  shows "\<exists>db result' c_tx db'.
    server_start (sys_files sg) (recovery_file (db_rec (sys_db sg))) (tx_id_file (db_txm (sys_db sg))) = Inr db \<and>
    exec_command u junk cmd result None db = Inr (result', c_tx, db') \<and>
    cstr result' = fst (spec_command u cmd \<lparr>committed = kv_ht_get (db_ht db), running = (\<lambda>_. None)\<rparr>)"
proof -
  have "unat (rec_lsn (db_rec (sys_db sg))) < 2 ^ 29" using len(2) by simp
  from restart_sim [OF assms(1-3) this] obtain s as rs txs db qs where r: "sys_inv es sg s as rs"
    "server_start (sys_files sg) (recovery_file (db_rec (sys_db sg))) (tx_id_file (db_txm (sys_db sg))) = Inr db"
    "kv_ht_get (db_ht db) = survives s sg txs" "transaction_id (db_txm db) = transaction_id (db_txm (sys_db sg))"
    "sim \<lparr>committed = survives s sg txs, running = (\<lambda>_. None)\<rparr> (\<lambda>_. None) [] (rs @ qs) db" "length qs \<le> 4 * length rs + 8" by metis
  have "unat (rec_lsn (db_rec (sys_db sg))) = length rs"
    using r(1) by (intro log_rep_length) (simp add: sys_inv_def sim_def db_inv_def)
  moreover have "unat (rec_lsn (db_rec db)) = length (rs @ qs)" by (rule log_rep_length [OF db_invD(4) [OF simD(1) [OF r(5)]]])
  ultimately have rm: "room db" using len(2,3) r(4,6) by (simp add: room_def)
  have ref: "refines u cmd \<lparr>committed = survives s sg txs, running = (\<lambda>_. None)\<rparr> (\<lambda>_. None) (rs @ qs) db (exec_command u junk cmd result None db)"
    using exec_command_refines [OF r(5) u(1) rm u(2,3), of junk] by simp
  have "lm_held (db_lm db) v i = 0" for v i using held_owner [OF simD(1) [OF r(5)], of v i] by auto
  then show ?thesis using ref r(2,3) unfolding refines_def by (elim disjE exE conjE) auto
qed

theorem restarted_server_serves_witness:
  "\<exists>sg db result' c_tx db'. sys_run [(1, C_Begin, transaction_started), (1, C_Set ''k'' ''v'', set_success), (1, C_Commit, transaction_committed)] sg \<and>
    server_start (sys_files sg) (recovery_file (db_rec (sys_db sg))) (tx_id_file (db_txm (sys_db sg))) = Inr db \<and>
    exec_command 1 [] (C_Get ''k'') (replicate 64 NUL) None db = Inr (result', c_tx, db')"
proof -
  let ?es = "[(1, C_Begin, transaction_started), (1, C_Set ''k'' ''v'', set_success), (1, C_Commit, transaction_committed)]"
  obtain sg where sg: "sys_run ?es sg" "unat (rec_lsn (db_rec (sys_db sg))) = 3" "transaction_id (db_txm (sys_db sg)) = 1"
    using commit_run by blast
  have "clean_run ?es" by (simp add: clean_run_def)
  moreover have "rec_lsn (db_rec (sys_db sg)) \<noteq> 1" "unat (rec_lsn (db_rec (sys_db sg))) < 2 ^ 27"
    "unat (transaction_id (db_txm (sys_db sg))) < 2 ^ 30" using sg(2,3) by auto
  moreover have "command_small (C_Get ''k'')" "length (replicate 64 NUL :: string) = RESULT_SIZE" by simp_all
  ultimately show ?thesis using restarted_server_serves [OF sg(1), of 1 "C_Get ''k''" "replicate 64 NUL" "[]"] sg(1) by fastforce
qed


text \<open>
  C29. Recover trusts the list of the checkpoint: an entry whose transaction has no record in the log
  makes it follow a null pointer.  A checkpoint between \<open>kv_txm_start_new_transaction\<close> and the
  BEGIN record writes such an entry, with 0 for the last record: the lock the checkpoint takes
  does not cover the two together.
\<close>

theorem recover_without_begin:
  assumes rep: "log_rep st rs" and n: "n \<le> length rs" and none: "\<forall>r \<in> set (drop n rs). log_tx_id r \<noteq> t"
    and room: "length rs + 2 < 2 ^ 32"
  shows "recover_tx (of_nat n) \<lparr>rtx_id = t, rtx_last_lsn = 0\<rparr> st = Inl Null_Deref"
proof -
  let ?an = "\<lparr>last_tx_lsn = 0, is_abort_started = False, is_abort_end = False, is_committed = False\<rparr>"
  let ?a = "short_rec KV_REC_ABORT (rec_lsn st + 1) 0 t"
  have len: "length rs - n < length (recovery_file st) + 1" using rep length_log_text [of rs] by (simp add: log_rep_def)
  have "length rs + 1 < 2 ^ 32" using room by simp
  from analyze_tx_eq [OF rep this n len, of t ?an]
  have an: "analyze_tx (length (recovery_file st) + 1) (of_nat n) t ?an (recovery_file st) = Inr ?an"
    using analyze_none [OF none] by simp
  have rep1: "log_rep (append_rec ?a st) (rs @ [?a])"
    using rep room by (intro log_rep_append) (simp_all add: short_line_eq(2), simp add: short_rec_def)
  have lsn: "rec_lsn st + 1 = of_nat (length rs + 1)" using log_rep_lsn [OF rep] by simp
  have get: "kv_recovery_get_log (rec_lsn st + 1) (recovery_file (append_rec ?a st)) = Inr (Some ?a)"
    using log.get_in [OF rep1, of "length rs"] lsn by (simp add: add.commute)
  have zero: "kv_recovery_get_log 0 (recovery_file (append_rec ?a st)) = Inr None"
    by (rule log_rep_get_zero [OF rep1]) simp
  have "length (rs @ [?a]) \<le> length (recovery_file (append_rec ?a st))"
    using rep1 length_log_text [of "rs @ [?a]"] by (simp add: log_rep_def)
  then obtain f where f: "length (recovery_file (append_rec ?a st)) + 1 = Suc (Suc f)"
    by (cases "length (recovery_file (append_rec ?a st))") auto
  have "undo_tx (length (recovery_file (append_rec ?a st)) + 1) (rec_lsn st + 1) t 0 (append_rec ?a st) = Inl Null_Deref"
    unfolding f using get zero by (simp add: short_rec_def)
  moreover have temp: "(if of_nat n > (0 :: u32) then of_nat n else 0) = (of_nat n :: u32)" by (simp add: word_gt_0)
  ultimately show ?thesis using an
    unfolding recover_tx_def Let_def kv_recovery_tx.select_convs temp
    by (simp add: undo_start_def simple_logs del: undo_tx.simps analyze_tx.simps)
qed

theorem recover_without_begin_witness:
  "\<exists>a txm db files. kv_txm_start_new_transaction (db_txm fresh_db) = Inr (a, txm) \<and>
    take_snapshot (\<lambda>_. 8) (fresh_db\<lparr>db_txm := txm\<rparr>) \<lparr>last_lsn_file = None, snapshot_dir = Map.empty\<rparr> = Inr (db, files) \<and>
    recover_tx 1 \<lparr>rtx_id = 1, rtx_last_lsn = 0\<rparr> (db_rec db) = Inl Null_Deref"
proof -
  have rep0: "txm_rep (db_txm fresh_db) []" using sim_fresh by (simp add: sim_def db_inv_def)
  obtain a txm where t: "kv_txm_start_new_transaction (db_txm fresh_db) = Inr (a, txm)" using start_eq [OF rep0] by auto
  have s: "txm_rep txm [a]" "txm_mem txm a = Some (kv_tx_create 1)"
    using start_rep(1,3) [OF rep0 _ t] by (simp_all add: fresh_db_def)
  have on: "kv_txm_ongoing_transaction_ids (\<lambda>_. 8) txm = Inr [\<lparr>rtx_id = 1, rtx_last_lsn = 0\<rparr>]"
    using ongoing_eq [OF s(1), of "\<lambda>_. 8"] s(2) by (simp add: kv_tx_create_def)
  let ?r = "check_rec 1 [\<lparr>rtx_id = 1, rtx_last_lsn = 0\<rparr>]"
  let ?st = "append_rec ?r (db_rec fresh_db)"
  have lg: "kv_recovery_check_log [\<lparr>rtx_id = 1, rtx_last_lsn = 0\<rparr>] (db_rec fresh_db) = Inr (1, ?st)"
    using check_log_eq [of "[\<lparr>rtx_id = 1, rtx_last_lsn = 0\<rparr>]" "db_rec fresh_db"] by (simp add: fresh_db_def)
  obtain files where f: "snapshot_child 1 (db_ht fresh_db) \<lparr>last_lsn_file = None, snapshot_dir = Map.empty\<rparr> = Inr files"
    by (simp add: snapshot_child_def kv_ht_foreach_def fresh_db_def)
  have "take_snapshot (\<lambda>_. 8) (fresh_db\<lparr>db_txm := txm\<rparr>) \<lparr>last_lsn_file = None, snapshot_dir = Map.empty\<rparr> =
      Inr (fresh_db\<lparr>db_txm := txm, db_rec := ?st\<rparr>, files)"
    using on lg f by (simp add: take_snapshot_def snapshot_check_def)
  moreover have "log_rep ?st ([] @ [?r])"
    by (rule log_rep_append) (simp_all add: log_rep_def line_ok_def check_rec_def fresh_db_def)
  from recover_without_begin [OF this, of 1 1] have "recover_tx 1 \<lparr>rtx_id = 1, rtx_last_lsn = 0\<rparr> ?st = Inl Null_Deref" by simp
  ultimately show ?thesis using t by (intro exI [of _ a] exI [of _ txm] exI [of _ "fresh_db\<lparr>db_txm := txm, db_rec := ?st\<rparr>"] exI [of _ files]) simp
qed

end
