(* ===== verification/Fine_Runs.thy ===== *)
theory Fine_Runs
  imports Fine_Refinement Restart
begin

text \<open>
  Runs in small steps that exist: one client that sets a key in a transaction, one lemma for each
  of its steps, and a checkpoint between any two of them.
\<close>

section \<open>One client, step by step\<close>

text \<open>
  \<open>stage p rs a n m fg\<close>: the only open transaction is number 1, at address \<open>a\<close>, of thread 1, which
  is at \<open>p\<close>; \<open>n\<close> is its last record, \<open>rs\<close> the log and \<open>m\<close> the contents of the table.
\<close>

definition stage ::
  "progress \<Rightarrow> kv_recovery_log_line list \<Rightarrow> nat \<Rightarrow> u32 \<Rightarrow> contents \<Rightarrow> fine_sys \<Rightarrow> bool" where
  "stage p rs a n m fg \<longleftrightarrow>
     fine_tx fg = [1 \<mapsto> a] \<and> fine_at fg = (\<lambda>_. Idle)(1 := p) \<and> db_inv [1 \<mapsto> a] [a] rs (fine_db fg) \<and> length rs < 10 \<and>
     kv_ht_get (db_ht (fine_db fg)) = m \<and> tx_id (tx_of (fine_db fg) a) = 1 \<and> tx_last_lsn (tx_of (fine_db fg) a) = n \<and>
     transaction_id (db_txm (fine_db fg)) = 1 \<and> numbered (fine_db fg)"

lemma stageD:
  assumes "stage p rs a n m fg"
  shows "fine_tx fg 1 = Some a" "fine_tx fg = [1 \<mapsto> a]" "fine_at fg 1 = p" "fine_at fg = (\<lambda>_. Idle)(1 := p)"
    "db_inv [1 \<mapsto> a] [a] rs (fine_db fg)" "length rs < 10" "length rs + 1 < 2 ^ 32" "rec_lsn (db_rec (fine_db fg)) = of_nat (length rs)"
    "kv_ht_get (db_ht (fine_db fg)) = m" "tx_id (tx_of (fine_db fg) a) = 1" "tx_last_lsn (tx_of (fine_db fg) a) = n"
    "transaction_id (db_txm (fine_db fg)) = 1" "numbered (fine_db fg)"
    "ht_inv (db_ht (fine_db fg))" "log_rep (db_rec (fine_db fg)) rs"
  using assms log_rep_lsn [OF db_invD(4)] db_invD(3,4) by (auto simp: stage_def simp del: of_nat_Suc)

lemma stage_room:
  assumes "stage p rs a n m fg"
  shows "room (fine_db fg)"
proof -
  have "unat (rec_lsn (db_rec (fine_db fg))) = length rs" by (rule log_rep_length [OF stageD(15) [OF assms]])
  then show ?thesis using stageD(6,12) [OF assms] by (simp add: room_def)
qed

lemma stage_more:
  assumes "fine_run es fg" "stage p rs a n m fg" "fine_step fg e fg'" "at_small fg'" "buckets_current fg'"
  shows "fine_run (es @ e) fg'"
  using fine_more [OF assms(1) stage_room [OF assms(2)] assms(3-5)] .

lemma stage_small: "stage p rs a n m fg \<Longrightarrow> (\<And>cmd single. p = Waiting cmd single \<Longrightarrow> command_small cmd) \<Longrightarrow> at_small fg"
  using stageD(4) [of p rs a n m fg] by (auto simp: at_small_def split: if_splits)

lemma stage_current: "stage p rs a n m fg \<Longrightarrow> (\<And>k h single. p \<noteq> At_Unlink k h single) \<Longrightarrow> buckets_current fg"
  using stageD(4) [of p rs a n m fg] by (intro no_unlink_current) simp

lemma not_waiting:
  "\<forall>cmd single. Idle \<noteq> Waiting cmd single" "\<forall>cmd single. At_Apply c b1 b2 \<noteq> Waiting cmd single"
  "\<forall>cmd single. At_End c r b1 \<noteq> Waiting cmd single" "\<forall>cmd single. At_Unlink k h b1 \<noteq> Waiting cmd single"
  "\<forall>k h single. Idle \<noteq> At_Unlink k h single" "\<forall>k h single. At_Apply c b1 b2 \<noteq> At_Unlink k h single"
  "\<forall>k h single. At_End c r b1 \<noteq> At_Unlink k h single"
  by simp_all

lemma stage_next:
  assumes "fine_run es fg" "stage p rs a n m fg" "stage p' rs' a n' m' fg'" "\<forall>cmd single. p' \<noteq> Waiting cmd single" "fine_step fg e fg'"
    "\<forall>k h single. p' \<noteq> At_Unlink k h single"
  shows "fine_run (es @ e) fg'"
  using assms(4,6) by (intro stage_more [OF assms(1,2,5)] stage_small [OF assms(3)] stage_current [OF assms(3)]) blast+

text \<open>The transaction starts.\<close>

lemma begin_stage:
  "\<exists>fg a. fine_run [(1, C_Begin, transaction_started)] fg \<and> last_lsn_file (fine_files fg) = None \<and>
     db_ht (fine_db fg) = db_ht fresh_db \<and> db_lm (fine_db fg) = kv_lm_create \<and> stage Idle [short_rec KV_REC_BEGIN 1 0 1] a 1 Map.empty fg"
proof -
  let ?r = "replicate 64 NUL" and ?b = "short_rec KV_REC_BEGIN 1 0 1"
  have rec0: "begin_rec fresh_db = ?b" "transaction_id (db_txm fresh_db) = 0" by (simp_all add: begin_rec_def fresh_db_def)
  obtain a db1 where b: "begin_tx fresh_db = Inr (a, db1)" "db_ht db1 = db_ht fresh_db" "transaction_id (db_txm db1) = 1"
    "tx_id (tx_of db1 a) = 1" "tx_last_lsn (tx_of db1 a) = 1" "db_lm db1 = db_lm fresh_db"
    "sim (empty_store\<lparr>running := (running empty_store)(1 \<mapsto> [])\<rparr>) ((\<lambda>_. None)(1 \<mapsto> a)) ([] @ [a]) ([] @ [begin_rec fresh_db]) db1"
    using begin_tx_sim [OF sim_fresh, of 1] rec0 by (auto simp: short_rec_def)
  have inv: "db_inv [1 \<mapsto> a] [a] [?b] db1" using simD(1) [OF b(7)] rec0(1) by simp
  have "numbered fresh_db" unfolding numbered_def by (intro exI [of _ "[]"]) (simp add: fresh_db_def id_state_def)
  then have num: "numbered db1" by (rule numbered_begin [OF b(1) db_invD(1) [OF simD(1) [OF sim_fresh]]])
  let ?fg = "init_fine\<lparr>fine_db := db1, fine_tx := [1 \<mapsto> a]\<rparr>"
  have st: "stage Idle [?b] a 1 Map.empty ?fg"
    using inv b(2-5) num fresh_ht(2) by (simp add: stage_def init_fine_def fun_eq_iff)
  obtain r where r: "strcpy ?r transaction_started = Inr r" "cstr r = transaction_started"
    using strcpy_reply [of ?r transaction_started] by auto
  have "exec_command 1 [] C_Begin ?r (fine_tx init_fine 1) (fine_db init_fine) = Inr (r, Some a, db1)"
    using b(1) r(1) by (simp add: init_fine_def run_begin_def)
  then have "fine_step init_fine [(1, C_Begin, cstr r)] ?fg"
    using fine_reply [of 1 init_fine C_Begin ?r "[]" r "Some a" db1] by (simp add: init_fine_def)
  moreover have "room (fine_db init_fine)" by (simp add: init_fine_def room_def fresh_db_def)
  moreover have "at_small ?fg" by (rule stage_small [OF st]) simp
  moreover have "buckets_current ?fg" by (rule stage_current [OF st]) simp
  ultimately have "fine_run [(1, C_Begin, transaction_started)] ?fg"
    using fine_more [OF fine_init, of "[(1, C_Begin, transaction_started)]" ?fg] r(2) by simp
  then show ?thesis using st b(2,6) by (intro exI [of _ ?fg] exI [of _ a]) (simp add: init_fine_def fresh_db_def)
qed

text \<open>A \<open>set\<close> up to its record in the log; the table knows nothing yet.\<close>

lemma stage_write:
  assumes run: "fine_run es fg" and st: "stage Idle rs a n m fg" and s: "small_str k" "small_str v" "v \<noteq> []"
    and m: "m k = None" "length rs < 9"
  shows "\<exists>fg'. fine_run es fg' \<and> fine_files fg' = fine_files fg \<and> db_ht (fine_db fg') = db_ht (fine_db fg) \<and>
     kv_lm_wlock 1 (db_lm (fine_db fg)) k = Inr (db_lm (fine_db fg')) \<and>
     stage (At_Apply (C_Set k v) True False) (rs @ [update_rec (of_nat (length rs + 1)) n 1 k [] v]) a (of_nat (length rs + 1)) m fg'"
proof -
  let ?db = "fine_db fg"
  note d = stageD [OF st]
  let ?fg1 = "fg\<lparr>fine_at := (\<lambda>_. Idle)(1 := Waiting (C_Set k v) False)\<rparr>"
  have st1: "stage (Waiting (C_Set k v) False) rs a n m ?fg1" using st by (simp add: stage_def)
  have same: "(fine_tx fg)(1 := Some a) = fine_tx fg" using d(1) by (auto simp: fun_eq_iff)
  have "fine_step fg [] ?fg1"
    using fine_start [of 1 fg "C_Set k v" k a False ?db] d(1,3,4) unfolding same by (simp add: ensure_tx_def)
  then have run1: "fine_run es ?fg1" using stage_more [OF run st, of "[]" ?fg1] stage_small [OF st1] stage_current [OF st1] s by simp
  have "\<not> 0 < lm_held (db_lm ?db) w (slot k)" if "w \<noteq> 1" for w using held_owner [OF d(5), of w "slot k"] that by auto
  then obtain lm where lm: "kv_lm_wlock 1 (db_lm ?db) k = Inr lm" using wlock_cases [OF d(5), of 1 k] by auto
  let ?dbl = "lock_db a k lm ?db"
  let ?u = "update_rec (of_nat (length rs + 1)) n 1 k [] v"
  let ?db' = "log_db a ?u ?dbl"
  have invl: "db_inv [1 \<mapsto> a] [a] rs ?dbl" by (rule db_inv_lock [OF d(5) _ lm]) simp
  have lsn: "rec_lsn (db_rec ?db) + 1 = of_nat (length rs + 1)" using d(8) by simp
  have u: "line_ok ?u" using s by (simp add: line_ok_def update_rec_def)
  have sl: "set_log 1 k v a ?db = Inr ?db'"
    using set_log_eq [OF d(5), of a 1 k v] lm tx_log_update [OF invl, of a k "[]" v] lsn d(9-11) m s by (simp add: str_of_def)
  have ids: "id_state ?db' = id_state ?db" by (rule id_state_set [OF sl])
  have inv: "db_inv [1 \<mapsto> a] [a] (rs @ [?u]) ?db'"
    by (rule db_inv_log [OF invl _ u]) (use d(6) lsn in \<open>simp_all add: update_rec_def\<close>)
  let ?fg = "?fg1\<lparr>fine_db := ?db', fine_at := (\<lambda>_. Idle)(1 := At_Apply (C_Set k v) True False)\<rparr>"
  have st': "stage (At_Apply (C_Set k v) True False) (rs @ [?u]) a (of_nat (length rs + 1)) m ?fg"
    using inv m(2) d numbered_cong [OF ids] ids unfolding stage_def
    by (simp add: id_state_def del: of_nat_Suc of_nat_add) (simp add: update_rec_def)
  have "fine_step ?fg1 [] ?fg" using fine_log [of ?fg1 1 "C_Set k v" False a True ?db'] sl d(1) by simp
  then have "fine_run es ?fg" using stage_more [OF run1 st1, of "[]" ?fg] stage_small [OF st'] stage_current [OF st'] by simp
  then show ?thesis using st' lm by (intro exI [of _ ?fg]) simp
qed

text \<open>The change of the table.\<close>

lemma stage_apply:
  assumes run: "fine_run es fg" and st: "stage (At_Apply (C_Set k v) True False) rs a n m fg"
  shows "\<exists>fg'. fine_run (es @ [(1, C_Set k v, set_success)]) fg' \<and> fine_files fg' = fine_files fg \<and>
     db_ht (fine_db fg') = snd (kv_ht_set (db_ht (fine_db fg)) k v) \<and> db_lm (fine_db fg') = db_lm (fine_db fg) \<and> stage Idle rs a n (m(k \<mapsto> v)) fg'"
proof -
  note d = stageD [OF st]
  obtain ht where ht: "snd (kv_ht_set (db_ht (fine_db fg)) k v) = ht" "ht_inv ht" "kv_ht_get ht = m(k \<mapsto> v)"
    using kv_ht_set_correct [OF d(14), of k v] d(9) by simp
  let ?fg = "fg\<lparr>fine_db := set_apply k v (fine_db fg), fine_at := (\<lambda>_. Idle)(1 := Idle)\<rparr>"
  have db: "set_apply k v (fine_db fg) = (fine_db fg)\<lparr>db_ht := ht\<rparr>" using ht(1) by (simp add: set_apply_def)
  have "stage Idle rs a n (m(k \<mapsto> v)) ?fg"
    using d db_inv_ht [OF d(5) ht(2)] ht(3) numbered_cong [OF id_state_update(3)] by (simp add: stage_def db)
  moreover from this have "fine_run (es @ [(1, C_Set k v, set_success)]) ?fg"
    using fine_apply [of fg 1 "C_Set k v" True False set_success "set_apply k v (fine_db fg)"] d(3,4)
    by (intro stage_next [OF run st _ not_waiting(1)]) simp_all
  ultimately show ?thesis using ht(1) by (intro exI [of _ ?fg]) (simp add: db)
qed

text \<open>The COMMIT record.\<close>

lemma stage_commit:
  assumes run: "fine_run es fg" and st: "stage Idle rs a n m fg" and len: "length rs < 9"
  shows "\<exists>fg'. fine_run es fg' \<and> fine_files fg' = fine_files fg \<and>
     stage (At_End C_Commit transaction_committed False)
       (rs @ [short_rec KV_REC_COMMIT (of_nat (length rs + 1)) n 1]) a (of_nat (length rs + 1)) m fg'"
proof -
  note d = stageD [OF st]
  let ?c = "short_rec KV_REC_COMMIT (of_nat (length rs + 1)) n 1"
  let ?db = "log_db a ?c (fine_db fg)"
  have lsn: "rec_lsn (db_rec (fine_db fg)) + 1 = of_nat (length rs + 1)" using d(8) by simp
  have tl: "tx_log (\<lambda>prev t st. Inr (kv_recovery_commit_log prev t st)) a (fine_db fg) = Inr ?db"
    using tx_log_eq [OF d(5), of a "\<lambda>prev t st. Inr (kv_recovery_commit_log prev t st)" ?c] d(10,11) lsn
    by (simp add: simple_logs commit_rec_ok)
  have inv: "db_inv [1 \<mapsto> a] [a] (rs @ [?c]) ?db"
    using db_inv_log [OF d(5), of a ?c] d(7) lsn by (simp add: commit_rec_ok)
  have ids: "id_state ?db = id_state (fine_db fg)" by (rule id_state_log [OF tl])
  let ?fg = "fg\<lparr>fine_db := ?db, fine_at := (\<lambda>_. Idle)(1 := At_End C_Commit transaction_committed False)\<rparr>"
  have "stage (At_End C_Commit transaction_committed False) (rs @ [?c]) a (of_nat (length rs + 1)) m ?fg"
    using inv len d numbered_cong [OF ids] ids unfolding stage_def
    by (simp add: id_state_def commit_rec_ok del: of_nat_Suc of_nat_add)
  moreover from this have "fine_run (es @ []) ?fg"
    using fine_commit [of fg 1 a ?db] d(1,3,4) tl by (intro stage_next [OF run st _ not_waiting(3)]) simp_all
  ultimately show ?thesis by (intro exI [of _ ?fg]) simp
qed

text \<open>The end, with the reply.\<close>

lemma stage_end:
  assumes run: "fine_run es fg" and st: "stage (At_End C_Commit transaction_committed False) rs a n m fg"
  shows "\<exists>fg'. fine_run (es @ [(1, C_Commit, transaction_committed)]) fg' \<and> fine_files fg' = fine_files fg \<and>
     fine_tx fg' = (\<lambda>_. None) \<and> kv_ht_get (db_ht (fine_db fg')) = m \<and> log_rep (db_rec (fine_db fg')) rs \<and> numbered (fine_db fg')"
proof -
  note d = stageD [OF st]
  obtain db where e: "end_tx 1 a (fine_db fg) = Inr db" "db_ht db = db_ht (fine_db fg)" "db_rec db = db_rec (fine_db fg)"
    using db_inv_end [OF d(5), of 1] by auto
  let ?fg = "fg\<lparr>fine_db := db, fine_tx := (fine_tx fg)(1 := None), fine_at := (fine_at fg)(1 := Idle)\<rparr>"
  have "at_small ?fg" using d(4) by (simp add: at_small_def)
  moreover have "buckets_current ?fg" using d(4) by (intro no_unlink_current) simp
  moreover have "fine_step fg [(1, C_Commit, transaction_committed)] ?fg"
    using fine_end [OF d(3,1) e(1)] by simp
  ultimately have "fine_run (es @ [(1, C_Commit, transaction_committed)]) ?fg" by (intro stage_more [OF run st])
  then show ?thesis using d(2,9,13,15) e numbered_cong [OF id_state_end [OF e(1)]] by (intro exI [of _ ?fg]) simp
qed

text \<open>A checkpoint at any moment.\<close>

lemma stage_check:
  assumes run: "fine_run es fg" and st: "stage p rs a n m fg" and len: "length rs < 9"
    and p: "\<forall>cmd single. p \<noteq> Waiting cmd single" "\<forall>k h single. p \<noteq> At_Unlink k h single" and ok: "table_ok (db_ht (fine_db fg))"
  shows "\<exists>fg' content t. fine_run es fg' \<and>
     stage p (rs @ [check_rec (of_nat (length rs + 1)) [\<lparr>rtx_id = 1, rtx_last_lsn = n\<rparr>]]) a n m fg' \<and>
     last_lsn_file (fine_files fg') = Some (fmt_08X (of_nat (length rs + 1)) @ t) \<and>
     snapshot_dir (fine_files fg') (snapshot_file_name (fmt_08X (of_nat (length rs + 1)))) = Some content \<and>
     kv_ht_foreach (db_ht (fine_db fg)) kv_hashtable_foreach (Inr []) = Inr content"
proof -
  note d = stageD [OF st]
  let ?r = "check_rec (of_nat (length rs + 1)) [\<lparr>rtx_id = 1, rtx_last_lsn = n\<rparr>]"
  have lsn: "rec_lsn (db_rec (fine_db fg)) + 1 = of_nat (length rs + 1)" using d(8) by simp
  have txs: "listed_txs (fine_db fg) [a] = [\<lparr>rtx_id = 1, rtx_last_lsn = n\<rparr>]" using d(10,11) by (simp add: listed_txs_def)
  obtain db files content t where c: "db = (fine_db fg)\<lparr>db_rec := append_rec ?r (db_rec (fine_db fg))\<rparr>"
    "db_inv [1 \<mapsto> a] [a] (rs @ [?r]) db" "take_snapshot (\<lambda>n. 8 * n) (fine_db fg) (fine_files fg) = Inr (db, files)"
    "last_lsn_file files = Some (fmt_08X (of_nat (length rs + 1)) @ t)"
    "snapshot_dir files (snapshot_file_name (fmt_08X (of_nat (length rs + 1)))) = Some content"
    "kv_ht_foreach (db_ht (fine_db fg)) kv_hashtable_foreach (Inr []) = Inr content"
    by (rule checkpoint_taken [OF d(5,7) _ ok, of "fine_files fg", unfolded txs lsn]) (simp, rule that)
  let ?fg = "fg\<lparr>fine_db := db, fine_files := files\<rparr>"
  have "tx_of db a = tx_of (fine_db fg) a" by (simp add: c(1) tx_of_def)
  then have "stage p (rs @ [?r]) a n m ?fg"
    using c(2) len d numbered_cong [OF id_state_snapshot [OF c(3)]] unfolding stage_def by (simp add: c(1))
  moreover have "fine_step fg [] ?fg" by (rule fine_check [OF c(3)])
  ultimately have "stage p (rs @ [?r]) a n m ?fg \<and> fine_run es ?fg"
    using stage_next [OF run st _ p(1) _ p(2), where e = "[]" and fg' = ?fg] by fastforce
  then show ?thesis using c(4-6) by (intro exI [of _ ?fg] exI [of _ content] exI [of _ t]) simp
qed

section \<open>The run of the client\<close>

abbreviation set_commit :: "event list" where
  "set_commit \<equiv> [(1, C_Begin, transaction_started), (1, C_Set ''k'' ''v'', set_success), (1, C_Commit, transaction_committed)]"

lemma set_commit_accepted: "\<exists>s. accepts set_commit empty_store = Some s \<and> committed s ''k'' = Some ''v''"
  by (simp add: empty_store_def Let_def tx_view_def tx_writes_def)

abbreviation begin1 :: kv_recovery_log_line where "begin1 \<equiv> short_rec KV_REC_BEGIN 1 0 1"

abbreviation update1 :: kv_recovery_log_line where "update1 \<equiv> update_rec 2 1 1 ''k'' [] ''v''"

abbreviation commit1 :: kv_recovery_log_line where "commit1 \<equiv> short_rec KV_REC_COMMIT 3 2 1"

text \<open>Its \<open>set\<close> is in the log.\<close>

lemma write_run:
  obtains fg a where "fine_run [(1, C_Begin, transaction_started)] fg" "last_lsn_file (fine_files fg) = None"
    "stage (At_Apply (C_Set ''k'' ''v'') True False) [begin1, update1] a 2 Map.empty fg"
proof -
  obtain fg a where b: "fine_run [(1, C_Begin, transaction_started)] fg" "stage Idle [begin1] a 1 Map.empty fg"
    and f: "last_lsn_file (fine_files fg) = None"
    using begin_stage by blast
  show thesis using stage_write [OF b, of "''k''" "''v''"] f that by (auto simp: small_str_def)
qed

text \<open>Its COMMIT record is in the log; and all of it, with no checkpoint.\<close>

lemma commit_logged:
  obtains fg a where "fine_run [(1, C_Begin, transaction_started), (1, C_Set ''k'' ''v'', set_success)] fg"
    "last_lsn_file (fine_files fg) = None"
    "stage (At_End C_Commit transaction_committed False) [begin1, update1, commit1] a 3 [''k'' \<mapsto> ''v''] fg"
proof -
  obtain fg1 a where w: "fine_run [(1, C_Begin, transaction_started)] fg1"
    "stage (At_Apply (C_Set ''k'' ''v'') True False) [begin1, update1] a 2 Map.empty fg1"
    and f: "last_lsn_file (fine_files fg1) = None" by (rule write_run)
  obtain fg2 where a: "fine_run [(1, C_Begin, transaction_started), (1, C_Set ''k'' ''v'', set_success)] fg2"
    "stage Idle [begin1, update1] a 2 [''k'' \<mapsto> ''v''] fg2" and f2: "fine_files fg2 = fine_files fg1"
    using stage_apply [OF w] by auto
  show thesis using stage_commit [OF a] f f2 that by auto
qed

lemma commit_fine_run:
  "\<exists>fg. fine_run set_commit fg \<and> fine_tx fg = (\<lambda>_. None) \<and> last_lsn_file (fine_files fg) = None \<and>
     log_rep (db_rec (fine_db fg)) [begin1, update1, commit1]"
proof -
  obtain fg a where m: "fine_run [(1, C_Begin, transaction_started), (1, C_Set ''k'' ''v'', set_success)] fg"
    "stage (At_End C_Commit transaction_committed False) [begin1, update1, commit1] a 3 [''k'' \<mapsto> ''v''] fg"
    and f: "last_lsn_file (fine_files fg) = None" by (rule commit_logged)
  show ?thesis using stage_end [OF m] f by auto
qed

text \<open>Without bindings, or with this one, a table can be put into a snapshot.\<close>

lemma small_tables: "kv_ht_get ht = Map.empty \<or> kv_ht_get ht = [''k'' \<mapsto> ''v''] \<Longrightarrow> table_ok ht"
  by (auto simp: table_ok_def binding_ok_def split: if_splits)

end
