(* ===== verification/Fine_System.thy ===== *)
theory Fine_System
  imports Fine_Runs
begin

text \<open>
  What holds in every run of the smaller steps in which no delete has a stale bucket number
  (\<open>fine_run\<close>): the replies are those of the abstract store, the committed transactions can be run
  one after the other, the log is ahead of the table by the unfinished changes only, and every
  thread that is in the middle of a command can go on.  Stale_Bucket has a run with a stale bucket
  number.
\<close>

section \<open>The table and the contents\<close>

text \<open>On a key no transaction has locked, the table is neither behind nor ahead.\<close>

lemma unlocked_current:
  assumes inv: "fine_inv es fg s as rs hv" and k: "\<forall>u a. fine_tx fg u = Some a \<longrightarrow> k \<notin> fine_locks fg a"
  shows "kv_ht_get (db_ht (fine_db fg)) k = committed s k"
proof -
  have "k \<notin> behind (fine_at fg v)" for v using behind_locked [OF inv, of k v] k by blast
  then have "kv_ht_get (db_ht (fine_db fg)) k = kv_ht_get hv k" by (rule fine_invD(3) [OF inv])
  also have "\<dots> = committed s k" using simD(5) [OF fine_invD(1) [OF inv], of k] k by simp
  finally show ?thesis .
qed

section \<open>Going on\<close>

lemma fine_ops:
  assumes inv: "fine_inv es fg s as rs hv" and at: "fine_at fg u \<noteq> Idle"
  obtains a where "fine_tx fg u = Some a" "a \<in> set as"
proof -
  have "at_ok fg s (kv_ht_get hv) u" by (rule fine_invD(4) [OF inv])
  then have "fine_tx fg u \<noteq> None"
    using at sim_serial(2) [OF fine_invD(1) [OF inv]] by (cases "fine_at fg u") (auto simp: at_ok_def split: if_splits)
  then show thesis using that db_invD(6) [OF fine_db_inv [OF inv]] by blast
qed

text \<open>A thread whose lock is granted gets its reply, or its record into the log.\<close>

lemma waiting_goes_on:
  assumes inv: "fine_inv es fg s as rs hv" and small: "at_small fg" and at: "fine_at fg u = Waiting cmd single"
    and u: "fine_tx fg u = Some a" and k: "command_key cmd = Some k" and lm: "kv_lm_wlock u (db_lm (fine_db fg)) k = Inr lm"
  shows "\<exists>e fg'. fine_step fg e fg' \<and> fine_at fg' u \<noteq> fine_at fg u"
proof -
  let ?db = "fine_db fg" and ?r = "replicate 64 NUL"
  note db = fine_db_inv [OF inv]
  have cur: "kv_ht_get (db_ht ?db) k = kv_ht_get hv k" by (rule locked_current [OF inv u _ lm]) (simp add: at)
  have vals: "vals_ok (kv_ht_get hv)" using simD(2) [OF fine_invD(1) [OF inv]] by simp
  show ?thesis
  proof (cases "is_write cmd")
    case True
    have "command_small cmd" using small at unfolding at_small_def by blast
    moreover have "small_str k" if "kv_ht_get (db_ht ?db) k \<noteq> None" using vals that cur unfolding vals_ok_def by auto
    moreover have "small_str (str_of (kv_ht_get (db_ht ?db) k))" unfolding cur by (rule small_old [OF vals])
    ultimately obtain found db' where "log_part u cmd a ?db = Inr (found, db')"
      using log_part_total [OF db u True k _ _ _ lm] by blast
    from fine_log [OF at True u this] show ?thesis using at by (intro exI conjI) (assumption, simp)
  next
    case False
    then have get: "cmd = C_Get k" using k by (cases cmd) auto
    have len: "length ?r = RESULT_SIZE" by simp
    obtain r where "get_reply ?r (kv_ht_get (db_ht ?db) k) = Inr r" using get_reply_ok [OF vals len, of k] cur by auto
    then have "data_step u (C_Get k) ?r a ?db = Inr (r, lock_db a k lm ?db)"
      using lock_key_eq [OF db db_invD(6) [OF db u], of u True k] lm by simp
    from fine_get [OF at [unfolded get] u len this] show ?thesis using at get by (intro exI conjI) (assumption, simp)
  qed
qed

lemma waiting_cases:
  assumes inv: "fine_inv es fg s as rs hv" and small: "at_small fg" and at: "fine_at fg u = Waiting cmd single"
  obtains e fg' where "fine_step fg e fg'" "fine_at fg' u \<noteq> fine_at fg u"
    | v b j k where "command_key cmd = Some j" "v \<noteq> u" "fine_tx fg v = Some b" "k \<in> fine_locks fg b" "slot j = slot k"
proof -
  note db = fine_db_inv [OF inv]
  obtain a where u: "fine_tx fg u = Some a" using fine_ops [OF inv, of u] at by auto
  obtain j where j: "command_key cmd = Some j" using fine_invD(4) [OF inv, of u] at by (auto simp: at_ok_def)
  show thesis
  proof (rule wlock_cases [OF db db_invD(5) [OF db u], of j])
    fix lm assume "kv_lm_wlock u (db_lm (fine_db fg)) j = Inr lm"
    then show thesis using waiting_goes_on [OF inv small at u j] that(1) by blast
  next
    fix v assume "v \<noteq> u" "0 < lm_held (db_lm (fine_db fg)) v (slot j)"
    then show thesis using held_owner [OF db] that(2) [OF j] by blast
  qed
qed

text \<open>A COMMIT record can always be written.\<close>

lemma commit_recorded:
  assumes "db_inv c as rs db" "a \<in> set as"
  obtains db' where "tx_log (\<lambda>prev t st. Inr (kv_recovery_commit_log prev t st)) a db = Inr db'"
  using tx_log_eq [OF assms, where logger = "\<lambda>prev t st. Inr (kv_recovery_commit_log prev t st)" and r = "commit_rec a db"]
  by (auto simp: simple_logs commit_rec_ok)

text \<open>With no other transaction open, a rollback comes to its end.\<close>

lemma alone_rolls_back:
  assumes inv: "fine_inv es fg s [a] rs hv" and rm: "room (fine_db fg)" and u: "fine_tx fg u = Some a"
  shows "\<exists>db1 db'. rollback_tx a (fine_db fg) = Inr db1 \<and> end_tx u a db1 = Inr db'"
proof -
  obtain ops where ops: "running s u = Some ops" by (rule fine_sim_opsE [OF inv u])
  have rl: "2 * length rs + 1 < 2 ^ 32" using fine_room [OF inv rm] by simp
  obtain cs e db1 hv' where r: "rollback_tx a (fine_db fg) = Inr db1" "ht_inv (db_ht db1)"
    "db_inv (fine_tx fg) [a] (rs @ cs @ [e]) (db1\<lparr>db_ht := hv'\<rparr>)"
    using rollback_sim [OF fine_invD(1) [OF inv] fine_invD(2) [OF inv] u ops rl] by blast
  have "db_inv (fine_tx fg) [a] (rs @ cs @ [e]) ((db1\<lparr>db_ht := hv'\<rparr>)\<lparr>db_ht := db_ht db1\<rparr>)" by (rule db_inv_ht [OF r(3,2)])
  then have "db_inv (fine_tx fg) [a] (rs @ cs @ [e]) db1" by simp
  then show ?thesis using r(1) db_inv_end u by blast
qed

section \<open>Properties\<close>

text \<open>
  C1. Refinement of an abstract store, in small steps.  Commands are taken apart: the start of the
  transaction, the lock with the record in the log, the bucket number of a delete, the change of
  the table, the COMMIT record and the end of the transaction are steps of their own, with steps
  of any other threads and checkpoints between them.  In every such run in which no growth of the
  table makes the bucket number of a delete stale, every reply is the one the abstract store gives
  when the commands are applied in the order of the steps that end them, where the model puts their
  replies; and at the end the table agrees with the committed contents on every key no open
  transaction has locked.
\<close>

theorem fine_run_refines_store:
  assumes "fine_run es fg"
  shows "\<exists>s. accepts es empty_store = Some s \<and>
    (\<forall>k. (\<forall>u a. fine_tx fg u = Some a \<longrightarrow> k \<notin> set (tx_locks (tx_of (fine_db fg) a))) \<longrightarrow>
       kv_ht_get (db_ht (fine_db fg)) k = committed s k)"
proof -
  obtain s as rs hv where inv: "fine_inv es fg s as rs hv" using fine_run_inv [OF assms] by blast
  have "committed (vis fg s) = committed s" by (simp add: vis_def)
  then show ?thesis using fine_invD(5) [OF inv] unlocked_current [OF inv] by metis
qed

theorem fine_run_refines_store_witness:
  "\<exists>fg s. fine_run [(1, C_Begin, transaction_started)] fg \<and> fine_at fg 1 = At_Apply (C_Set ''k'' ''v'') True False \<and>
     accepts [(1, C_Begin, transaction_started)] empty_store = Some s"
proof -
  obtain fg a where w: "fine_run [(1, C_Begin, transaction_started)] fg"
    "stage (At_Apply (C_Set ''k'' ''v'') True False) [begin1, update1] a 2 Map.empty fg" by (rule write_run)
  show ?thesis using fine_run_refines_store [OF w(1)] w(1) stageD(3) [OF w(2)] by blast
qed

text \<open>
  C2. Serializability, in small steps.  In a run in which no growth of the table makes the bucket
  number of a delete stale, the transactions committed, single commands included, run one after
  the other in the order of their ends on an empty store, give every reply the clients got and the
  contents of the table on the keys no open transaction has locked.  Aborted transactions leave no
  trace.
\<close>

theorem fine_run_serializable:
  assumes "fine_run es fg"
  shows "\<exists>m. serially (snd (history es)) Map.empty = Some m \<and>
    (\<forall>k. (\<forall>u a. fine_tx fg u = Some a \<longrightarrow> k \<notin> set (tx_locks (tx_of (fine_db fg) a))) \<longrightarrow>
       kv_ht_get (db_ht (fine_db fg)) k = m k)"
proof -
  obtain s as rs hv where inv: "fine_inv es fg s as rs hv" using fine_run_inv [OF assms] by blast
  show ?thesis using fine_invD(7) [OF inv] unlocked_current [OF inv] by blast
qed

theorem fine_run_serializable_witness:
  "\<exists>fg m. fine_run set_commit fg \<and> serially (snd (history set_commit)) Map.empty = Some m \<and> kv_ht_get (db_ht (fine_db fg)) ''k'' = m ''k''"
proof -
  obtain fg where w: "fine_run set_commit fg" "fine_tx fg = (\<lambda>_. None)" using commit_fine_run by blast
  show ?thesis using fine_run_serializable [OF w(1)] w by auto
qed

text \<open>
  The log is ahead of the table.  In every state of such a run, redo of the whole log into a
  new table gives the table, but for the keys whose change is in the log and not yet in the
  table; for them it gives what the change will write.
\<close>

theorem fine_log_ahead:
  assumes run: "fine_run es fg" and rm: "room (fine_db fg)" and files: "last_lsn_file files = None"
    and ht0: "kv_ht_create 2 str_hash_func str_cmp_func = Inr ht0"
  shows "\<exists>ht. kv_recovery_redo files (recovery_file (db_rec (fine_db fg))) ht0 = Inr ht \<and>
    (\<forall>k. (\<forall>u cmd found single. pending (fine_at fg u) = At_Apply cmd found single \<longrightarrow> command_key cmd = Some k \<longrightarrow> kv_ht_get ht k = written cmd) \<and>
         ((\<forall>u cmd found single. pending (fine_at fg u) = At_Apply cmd found single \<longrightarrow> command_key cmd \<noteq> Some k) \<longrightarrow>
            kv_ht_get ht k = kv_ht_get (db_ht (fine_db fg)) k))"
proof -
  obtain s as rs hv where inv: "fine_inv es fg s as rs hv" using fine_run_inv [OF run] by blast
  obtain ht1 :: kv_table where "kv_ht_create 2 str_hash_func str_cmp_func = Inr ht1" "ht_inv ht1" "kv_ht_get ht1 = Map.empty"
    using kv_ht_create_correct [of 2 str_cmp_func str_hash_func] by auto
  then have h0: "ht_inv ht0" "kv_ht_get ht0 = Map.empty" using ht0 by simp_all
  have "length rs + 1 < 2 ^ 32" using fine_room [OF inv rm] by simp
  then obtain ht where r: "kv_recovery_redo files (recovery_file (db_rec (fine_db fg))) ht0 = Inr ht" "kv_ht_get ht = replay rs Map.empty"
    using redo_whole_log [OF db_invD(4) [OF fine_db_inv [OF inv]] _ h0(1) files] h0(2) by metis
  have hv: "kv_ht_get ht = kv_ht_get hv" using r(2) simD(4) [OF fine_invD(1) [OF inv]] by simp
  have "kv_ht_get ht k = written cmd" if "pending (fine_at fg u) = At_Apply cmd found single" "command_key cmd = Some k" for u cmd found single k
    using fine_invD(4) [OF inv, of u] that by (auto simp: at_ok_def hv)
  moreover have "kv_ht_get ht k = kv_ht_get (db_ht (fine_db fg)) k"
    if "\<forall>u cmd found single. pending (fine_at fg u) = At_Apply cmd found single \<longrightarrow> command_key cmd \<noteq> Some k" for k
  proof -
    have "k \<notin> behind (fine_at fg u)" for u
      using that unfolding behind_def by (cases "pending (fine_at fg u)") (auto simp: elem_set)
    then show ?thesis using fine_invD(3) [OF inv, of k] hv by simp
  qed
  ultimately show ?thesis using r(1) by blast
qed

theorem fine_log_ahead_witness:
  "\<exists>fg ht ht0. fine_run [(1, C_Begin, transaction_started)] fg \<and> kv_ht_get (db_ht (fine_db fg)) ''k'' = None \<and>
    kv_recovery_redo \<lparr>last_lsn_file = None, snapshot_dir = Map.empty\<rparr> (recovery_file (db_rec (fine_db fg))) ht0 = Inr ht \<and>
    kv_ht_get ht ''k'' = Some ''v''"
proof -
  obtain fg a where w: "fine_run [(1, C_Begin, transaction_started)] fg"
    "stage (At_Apply (C_Set ''k'' ''v'') True False) [begin1, update1] a 2 Map.empty fg" by (rule write_run)
  obtain ht0 :: kv_table where ht0: "kv_ht_create 2 str_hash_func str_cmp_func = Inr ht0" by (simp add: kv_ht_create_def)
  obtain ht where "kv_recovery_redo \<lparr>last_lsn_file = None, snapshot_dir = Map.empty\<rparr> (recovery_file (db_rec (fine_db fg))) ht0 = Inr ht"
    "kv_ht_get ht ''k'' = written (C_Set ''k'' ''v'')"
    using fine_log_ahead [OF w(1) stage_room [OF w(2)] _ ht0, of "\<lparr>last_lsn_file = None, snapshot_dir = Map.empty\<rparr>"]
      stageD(3) [OF w(2)] by (metis command_key.simps(2) kv_files.select_convs(1) pending.simps(4))
  then show ?thesis using w(1) stageD(9) [OF w(2)] by (intro exI [of _ fg] exI [of _ ht] exI [of _ ht0]) simp
qed

text \<open>
  C11. Progress, in small steps.  A thread that is in the middle of a command can take its next step in
  every state of a run, unless it waits for a lock of the same slot as a key another thread's
  transaction has locked, or is to take its transaction out of the list while another one is
  open.
\<close>

theorem fine_progress:
  assumes run: "fine_run es fg" and rm: "room (fine_db fg)" and at: "fine_at fg u \<noteq> Idle"
  shows "(\<exists>e fg'. fine_step fg e fg' \<and> fine_at fg' u \<noteq> fine_at fg u) \<or>
    (\<exists>cmd single j v b k. fine_at fg u = Waiting cmd single \<and> command_key cmd = Some j \<and> v \<noteq> u \<and> fine_tx fg v = Some b \<and>
       k \<in> set (tx_locks (tx_of (fine_db fg) b)) \<and> slot j = slot k) \<or>
    ((\<exists>cmd r single. fine_at fg u = At_End cmd r single) \<or> fine_at fg u = At_Rollback) \<and> (\<exists>v. v \<noteq> u \<and> fine_tx fg v \<noteq> None)"
proof -
  obtain s as rs hv where inv: "fine_inv es fg s as rs hv" using fine_run_inv [OF run] by blast
  note db = fine_db_inv [OF inv]
  obtain a where u: "fine_tx fg u = Some a" "a \<in> set as" by (rule fine_ops [OF inv at])
  have alone: "as = [a]" if "\<forall>v. v \<noteq> u \<longrightarrow> fine_tx fg v = None" by (rule only_tx [OF db u(1) that])
  show ?thesis
  proof (cases "fine_at fg u")
    case Idle
    then show ?thesis using at by simp
  next
    case (Waiting cmd single)
    show ?thesis by (rule waiting_cases [OF inv fine_run_small [OF run] Waiting]) (use Waiting in blast)+
  next
    case (At_Apply cmd found single)
    obtain r db' where ap: "apply_part cmd found (fine_db fg) = (r, db')" by fastforce
    show ?thesis
    proof (cases "unlinks cmd found")
      case True
      then obtain k where "fine_at fg u = At_Apply (C_Del k) True single" using At_Apply by (cases cmd) auto
      from fine_bucket [OF this] show ?thesis using At_Apply by (intro disjI1 exI conjI) (assumption, simp)
    next
      case False
      from fine_apply [OF At_Apply this ap] show ?thesis using At_Apply by (intro disjI1 exI conjI) (assumption, simp)
    qed
  next
    case (At_Unlink k hash single)
    obtain r db' where "unlink_part k hash (fine_db fg) = (r, db')" by fastforce
    from fine_unlink [OF At_Unlink this] show ?thesis using At_Unlink by (intro disjI1 exI conjI) (assumption, simp)
  next
    case (At_Commit cmd r)
    obtain db' where "tx_log (\<lambda>prev t st. Inr (kv_recovery_commit_log prev t st)) a (fine_db fg) = Inr db'"
      by (rule commit_recorded [OF db u(2)])
    from fine_single_commit [OF At_Commit u(1) this] show ?thesis using At_Commit by (intro disjI1 exI conjI) (assumption, simp)
  next
    case (At_End cmd r single)
    show ?thesis
    proof (cases "\<forall>v. v \<noteq> u \<longrightarrow> fine_tx fg v = None")
      case True
      then obtain db' where "end_tx u a (fine_db fg) = Inr db'" using db_inv_end [of "fine_tx fg" a "[]" rs "fine_db fg" u] db u(1) alone by auto
      from fine_end [OF At_End u(1) this, of "[]"] show ?thesis using At_End by (intro disjI1 exI conjI) (assumption, simp)
    qed (use At_End in blast)
  next
    case At_Rollback
    show ?thesis
    proof (cases "\<forall>v. v \<noteq> u \<longrightarrow> fine_tx fg v = None")
      case True
      then obtain db1 db' where "rollback_tx a (fine_db fg) = Inr db1" "end_tx u a db1 = Inr db'"
        using alone_rolls_back [OF _ rm u(1)] inv alone by blast
      from fine_rollback [OF At_Rollback u(1) this] show ?thesis using At_Rollback by (intro disjI1 exI conjI) (assumption, simp)
    qed (use At_Rollback in blast)
  qed
qed

theorem fine_progress_witness:
  "\<exists>fg e fg'. fine_run [(1, C_Begin, transaction_started)] fg \<and> fine_at fg 1 = At_Apply (C_Set ''k'' ''v'') True False \<and>
     fine_step fg e fg' \<and> fine_at fg' 1 \<noteq> fine_at fg 1"
proof -
  obtain fg a where w: "fine_run [(1, C_Begin, transaction_started)] fg"
    "stage (At_Apply (C_Set ''k'' ''v'') True False) [begin1, update1] a 2 Map.empty fg" by (rule write_run)
  have "fine_at fg 1 \<noteq> Idle" using stageD(3) [OF w(2)] by simp
  then have "\<exists>e fg'. fine_step fg e fg' \<and> fine_at fg' 1 \<noteq> fine_at fg 1"
    using fine_progress [OF w(1) stage_room [OF w(2)], of 1] stageD(3) [OF w(2)] by auto
  then show ?thesis using w(1) stageD(3) [OF w(2)] by blast
qed

end
