(* ===== verification/Windows.thy ===== *)
theory Windows
  imports Fine_Runs
begin

text \<open>
  A checkpoint in the middle of a command: what the smaller steps let happen between the parts
  of \<open>set\<close> and of a commit, and what the next server makes of the files.
\<close>

section \<open>A restart on a log and a snapshot\<close>

lemma start_on_snapshot:
  assumes rep: "log_rep st rs" and n: "0 < n" "n \<le> length rs" "2 \<le> length rs" "length rs < 2 ^ 29"
    and checked: "last_lsn_file files = Some (fmt_08X (of_nat n) @ t)" "log_tx_list (rs ! (n - 1)) = Some txs"
    and snap: "snapshot_dir files (snapshot_file_name (fmt_08X (of_nat n))) = Some content"
      "kv_ht_foreach ht1 kv_hashtable_foreach (Inr []) = Inr content" "ht_inv ht1" "table_ok ht1"
    and txs: "list_all2 (recoverable rs n) txs uss" "distinct (map rtx_id txs)"
      "\<forall>u \<in> set (all_upds uss). upd_old u \<noteq> [] \<or> upd_new u \<noteq> []" "length (all_upds uss) + 2 * length txs < 2 ^ 29"
    and ids: "numbered db" "tx_ids = tx_id_file (db_txm db)"
  shows "\<exists>db'. server_start files (recovery_file st) tx_ids = Inr db' \<and>
     kv_ht_get (db_ht db') = fold undo_upd (all_upds uss) (replay (drop n rs) (kv_ht_get ht1))"
proof -
  obtain ht0 :: kv_table where ht0: "kv_ht_create 2 str_hash_func str_cmp_func = Inr ht0" "ht_inv ht0" "kv_ht_get ht0 = Map.empty"
    using kv_ht_create_correct [of 2 str_cmp_func str_hash_func] by auto
  have room: "length rs + length (all_upds uss) + 2 * length txs + 1 < 2 ^ 32" using n(4) txs(4) by simp
  obtain st' qs where r: "kv_recovery_recover files (recovery_file st) = Inr st'" "log_rep st' (rs @ qs)"
    "length qs \<le> length (all_upds uss) + 2 * length txs" "\<forall>m. replay qs m = fold undo_upd (all_upds uss) m"
    using recover_checkpoint [OF rep n(3,1,2) checked txs(1-3) room] by blast
  have len: "length (rs @ qs) + 1 < 2 ^ 32" "n \<le> length (rs @ qs)" using r(3) room n(2) by simp_all
  obtain ht where h: "kv_recovery_redo files (recovery_file st') ht0 = Inr ht"
    "kv_ht_get ht = replay (drop n (rs @ qs)) (kv_ht_get ht1)"
    using redo_from_snapshot [OF r(2) len(1) n(1) len(2) ht0(2,3) checked(1) snap] by blast
  obtain txm where "kv_txm_init tx_ids = Inr txm"
    using ids kv_txm_init_eq by (auto simp: numbered_def id_state_def)
  then have "server_start files (recovery_file st) tx_ids = Inr \<lparr>db_ht = ht, db_lm = kv_lm_create, db_txm = txm, db_rec = st'\<rparr>"
    using ht0(1) r(1) h(1) by (simp add: server_start_def kv_recovery_init_def)
  moreover have "kv_ht_get ht = fold undo_upd (all_upds uss) (replay (drop n rs) (kv_ht_get ht1))"
    using h(2) r(4) n(2) by simp
  ultimately show ?thesis by simp
qed

section \<open>The numbers of transactions in small steps\<close>

lemma id_state_apply: "apply_part cmd found db = (r, db') \<Longrightarrow> id_state db' = id_state db"
  by (cases cmd) (auto simp: set_apply_def del_apply_def split: if_splits prod.splits option.splits)

lemma id_state_unlink: "unlink_part k hash db = (r, db') \<Longrightarrow> id_state db' = id_state db"
  by (auto simp: unlink_part_def split: prod.splits option.splits)

lemma id_state_part: "log_part u cmd a db = Inr (found, db') \<Longrightarrow> id_state db' = id_state db"
  using id_state_set id_state_del by (cases cmd) (fastforce simp: res_iff)+

lemma fine_numbered_step:
  assumes st: "fine_step fg e fg'" and rep: "txm_rep (db_txm (fine_db fg)) as" and n: "numbered (fine_db fg)"
  shows "numbered (fine_db fg')"
proof -
  have "id_state (fine_db fg') = id_state (fine_db fg) \<or> numbered (fine_db fg')"
    using st
  proof cases
    case fine_reply
    then show ?thesis using numbered_exec [OF fine_reply(8) rep n] by simp
  next
    case fine_start
    then show ?thesis using numbered_ensure [OF fine_start(6) rep n] by simp
  next
    case fine_end
    then show ?thesis using id_state_end [OF fine_end(5)] by simp
  next
    case fine_rollback
    then show ?thesis using id_state_end [OF fine_rollback(6)] id_state_rollback [OF fine_rollback(5)] by simp
  next
    case fine_get
    then show ?thesis using id_state_data [OF fine_get(6)] by simp
  next
    case fine_log
    then show ?thesis using id_state_part [OF fine_log(6)] by simp
  next
    case fine_apply
    then show ?thesis using id_state_apply [OF fine_apply(5)] by simp
  next
    case fine_bucket
    then show ?thesis by simp
  next
    case fine_unlink
    then show ?thesis using id_state_unlink [OF fine_unlink(4)] by simp
  next
    case fine_commit
    then show ?thesis using id_state_log [OF fine_commit(5)] by simp
  next
    case fine_single_commit
    then show ?thesis using id_state_log [OF fine_single_commit(5)] by simp
  next
    case fine_abort
    then show ?thesis using id_state_log [OF fine_abort(5)] by simp
  next
    case fine_check
    then show ?thesis using id_state_snapshot [OF fine_check(3)] by simp
  qed
  then show ?thesis using n numbered_cong by blast
qed

lemma fine_run_numbered: "fine_run es fg \<Longrightarrow> numbered (fine_db fg)"
proof (induction rule: fine_run.induct)
  case fine_init
  show ?case unfolding numbered_def by (intro exI [of _ "[]"]) (simp add: init_fine_def fresh_db_def id_state_def)
next
  case (fine_more es fg e fg')
  obtain s as rs hv where "fine_inv es fg s as rs hv" using fine_run_inv [OF fine_more.hyps(1)] by blast
  then show ?case using fine_numbered_step [OF fine_more.hyps(3) db_invD(1) [OF fine_db_inv] fine_more.IH] by blast
qed

section \<open>Properties\<close>

text \<open>
  C12. Durability, in the middle of commands.  After a crash in any state of a run of the smaller
  steps, with threads anywhere inside their commands, in which no growth of the table makes the
  bucket number of a delete stale, a new server starts, if the log has not exactly one record and
  fewer than 2^29; if no checkpoint has been taken, its table holds what was committed, on every
  key no open transaction has locked.
\<close>

theorem fine_commits_durable:
  assumes run: "fine_run es fg" and files: "last_lsn_file (fine_files fg) = None"
    and len: "rec_lsn (db_rec (fine_db fg)) \<noteq> 1" "unat (rec_lsn (db_rec (fine_db fg))) < 2 ^ 29"
  shows "\<exists>s db. accepts es empty_store = Some s \<and>
    server_start (fine_files fg) (recovery_file (db_rec (fine_db fg))) (tx_id_file (db_txm (fine_db fg))) = Inr db \<and>
    (\<forall>k. (\<forall>u a. fine_tx fg u = Some a \<longrightarrow> k \<notin> set (tx_locks (tx_of (fine_db fg) a))) \<longrightarrow> kv_ht_get (db_ht db) k = committed s k)"
proof -
  let ?st = "db_rec (fine_db fg)"
  obtain s as rs hv where inv: "fine_inv es fg s as rs hv" using fine_run_inv [OF run] by blast
  note sim = fine_invD(1) [OF inv]
  have rep: "log_rep ?st rs" by (rule db_invD [OF fine_db_inv [OF inv]])
  have "length rs \<noteq> 1" using log_rep_lsn [OF rep] len(1) by auto
  then have rc: "kv_recovery_recover (fine_files fg) (recovery_file ?st) = Inr ?st" by (rule recover_no_checkpoint [OF rep _ files])
  obtain ht0 :: kv_table where ht0: "kv_ht_create 2 str_hash_func str_cmp_func = Inr ht0" "ht_inv ht0" "kv_ht_get ht0 = Map.empty"
    using kv_ht_create_correct [of 2 str_cmp_func str_hash_func] by auto
  have "length rs + 1 < 2 ^ 32" using len(2) log_rep_length [OF rep] by simp
  then obtain ht where h: "kv_recovery_redo (fine_files fg) (recovery_file ?st) ht0 = Inr ht" "ht_inv ht" "kv_ht_get ht = replay rs Map.empty"
    using redo_whole_log [OF rep _ ht0(2) files] ht0(3) by metis
  have hv: "kv_ht_get ht = kv_ht_get hv" using h(3) simD(4) [OF sim] by simp
  have "vals_ok (kv_ht_get ht)" unfolding hv using simD(2) [OF sim] by simp
  moreover obtain xs where "tx_id_file (db_txm (fine_db fg)) = id_lines xs"
    using fine_run_numbered [OF run] by (auto simp: numbered_def id_state_def)
  ultimately obtain db where db: "server_start (fine_files fg) (recovery_file ?st) (tx_id_file (db_txm (fine_db fg))) = Inr db"
    "kv_ht_get (db_ht db) = kv_ht_get ht" using new_server [OF ht0(1) rc rep h] by blast
  have "kv_ht_get hv k = committed s k" if "\<forall>u a. fine_tx fg u = Some a \<longrightarrow> k \<notin> fine_locks fg a" for k
    using simD(5) [OF sim, of k] that by simp
  moreover have "accepts es empty_store = Some (vis fg s)" "committed (vis fg s) = committed s"
    using fine_invD(5) [OF inv] by (simp_all add: vis_def)
  ultimately show ?thesis using hv db by (intro exI [of _ "vis fg s"] exI [of _ db]) simp
qed

theorem fine_commits_durable_witness:
  "\<exists>fg s db. fine_run set_commit fg \<and> accepts set_commit empty_store = Some s \<and> kv_ht_get (db_ht db) ''k'' = committed s ''k'' \<and>
    server_start (fine_files fg) (recovery_file (db_rec (fine_db fg))) (tx_id_file (db_txm (fine_db fg))) = Inr db"
proof -
  obtain fg where w: "fine_run set_commit fg" "fine_tx fg = (\<lambda>_. None)" "last_lsn_file (fine_files fg) = None"
    "log_rep (db_rec (fine_db fg)) [begin1, update1, commit1]" using commit_fine_run by blast
  have "rec_lsn (db_rec (fine_db fg)) = 3" using log_rep_lsn [OF w(4)] by simp
  then obtain s db where "accepts set_commit empty_store = Some s" "kv_ht_get (db_ht db) ''k'' = committed s ''k''"
    "server_start (fine_files fg) (recovery_file (db_rec (fine_db fg))) (tx_id_file (db_txm (fine_db fg))) = Inr db"
    using fine_commits_durable [OF w(1,3)] w(2) by auto
  then show ?thesis using w(1) by blast
qed

text \<open>
  C13. A checkpoint between the record of a change and the change.  A client sets a key in a
  transaction; its record is in the log and the table is not changed yet when a checkpoint is
  taken.  The client is told that its command and its commit succeeded.  After a crash the new
  server, which reads the snapshot and the log behind the checkpoint, does not have the key.
\<close>

theorem checkpoint_loses_update:
  "\<exists>fg s db. fine_run [(1, C_Begin, transaction_started), (1, C_Set ''k'' ''v'', set_success), (1, C_Commit, transaction_committed)] fg \<and>
    accepts [(1, C_Begin, transaction_started), (1, C_Set ''k'' ''v'', set_success), (1, C_Commit, transaction_committed)] empty_store = Some s \<and>
    committed s ''k'' = Some ''v'' \<and>
    server_start (fine_files fg) (recovery_file (db_rec (fine_db fg))) (tx_id_file (db_txm (fine_db fg))) = Inr db \<and>
    kv_ht_get (db_ht db) ''k'' = None"
proof -
  obtain fg1 a where w: "fine_run [(1, C_Begin, transaction_started)] fg1"
    "stage (At_Apply (C_Set ''k'' ''v'') True False) [begin1, update1] a 2 Map.empty fg1" by (rule write_run)
  let ?r = "check_rec 3 [\<lparr>rtx_id = 1, rtx_last_lsn = 2\<rparr>]" and ?c = "short_rec KV_REC_COMMIT 4 2 1"
  have ok: "table_ok (db_ht (fine_db fg1))" using small_tables stageD(9) [OF w(2)] by blast
  obtain fg2 content t where c: "fine_run [(1, C_Begin, transaction_started)] fg2"
    "stage (At_Apply (C_Set ''k'' ''v'') True False) [begin1, update1, ?r] a 2 Map.empty fg2"
    "last_lsn_file (fine_files fg2) = Some (fmt_08X 3 @ t)"
    "snapshot_dir (fine_files fg2) (snapshot_file_name (fmt_08X 3)) = Some content"
    "kv_ht_foreach (db_ht (fine_db fg1)) kv_hashtable_foreach (Inr []) = Inr content"
    using stage_check [OF w _ not_waiting(2,6) ok] by auto
  obtain fg3 where a: "fine_run [(1, C_Begin, transaction_started), (1, C_Set ''k'' ''v'', set_success)] fg3"
    "fine_files fg3 = fine_files fg2" "stage Idle [begin1, update1, ?r] a 2 [''k'' \<mapsto> ''v''] fg3"
    using stage_apply [OF c(1,2)] by auto
  obtain fg4 where m: "fine_run [(1, C_Begin, transaction_started), (1, C_Set ''k'' ''v'', set_success)] fg4"
    "fine_files fg4 = fine_files fg3"
    "stage (At_End C_Commit transaction_committed False) [begin1, update1, ?r, ?c] a 4 [''k'' \<mapsto> ''v''] fg4"
    using stage_commit [OF a(1,3)] by auto
  obtain fg5 where e: "fine_run set_commit fg5" "fine_files fg5 = fine_files fg4"
    "log_rep (db_rec (fine_db fg5)) [begin1, update1, ?r, ?c]" "numbered (fine_db fg5)"
    using stage_end [OF m(1,3)] by auto
  have f: "fine_files fg5 = fine_files fg2" using a(2) m(2) e(2) by simp
  have rec: "list_all2 (recoverable [begin1, update1, ?r, ?c] 3) [\<lparr>rtx_id = 1, rtx_last_lsn = 2\<rparr>] [[]]"
    by (simp add: recoverable_def tx_ended_def short_rec_def)
  have "\<exists>db. server_start (fine_files fg5) (recovery_file (db_rec (fine_db fg5))) (tx_id_file (db_txm (fine_db fg5))) = Inr db \<and>
     kv_ht_get (db_ht db) = fold undo_upd (all_upds [[]]) (replay (drop 3 [begin1, update1, ?r, ?c]) (kv_ht_get (db_ht (fine_db fg1))))"
    by (rule start_on_snapshot [OF e(3) _ _ _ _ _ _ _ c(5) stageD(14) [OF w(2)] ok rec _ _ _ e(4) refl])
      (use c(3,4) f in \<open>simp_all add: check_rec_def\<close>)
  then obtain db where "server_start (fine_files fg5) (recovery_file (db_rec (fine_db fg5))) (tx_id_file (db_txm (fine_db fg5))) = Inr db"
    "kv_ht_get (db_ht db) ''k'' = None"
    using stageD(9) [OF w(2)] by (auto simp: replay_skip short_rec_def)
  then show ?thesis using e(1) set_commit_accepted by blast
qed

text \<open>
  C14. A checkpoint between the COMMIT record and the end of the transaction.  The
  checkpoint lists the transaction, the COMMIT record lies in front of it.  The client is told
  that its transaction is committed; after a crash recover aborts it.
\<close>

theorem committed_tx_undone:
  "\<exists>fg s db. fine_run [(1, C_Begin, transaction_started), (1, C_Set ''k'' ''v'', set_success), (1, C_Commit, transaction_committed)] fg \<and>
    accepts [(1, C_Begin, transaction_started), (1, C_Set ''k'' ''v'', set_success), (1, C_Commit, transaction_committed)] empty_store = Some s \<and>
    committed s ''k'' = Some ''v'' \<and> kv_ht_get (db_ht (fine_db fg)) ''k'' = Some ''v'' \<and>
    server_start (fine_files fg) (recovery_file (db_rec (fine_db fg))) (tx_id_file (db_txm (fine_db fg))) = Inr db \<and>
    kv_ht_get (db_ht db) ''k'' = None"
proof -
  let ?r = "check_rec 4 [\<lparr>rtx_id = 1, rtx_last_lsn = 3\<rparr>]"
  obtain fg3 a where m: "fine_run [(1, C_Begin, transaction_started), (1, C_Set ''k'' ''v'', set_success)] fg3"
    "stage (At_End C_Commit transaction_committed False) [begin1, update1, commit1] a 3 [''k'' \<mapsto> ''v''] fg3"
    by (rule commit_logged)
  have ok: "table_ok (db_ht (fine_db fg3))" using small_tables stageD(9) [OF m(2)] by blast
  obtain fg4 content t where c: "fine_run [(1, C_Begin, transaction_started), (1, C_Set ''k'' ''v'', set_success)] fg4"
    "stage (At_End C_Commit transaction_committed False) [begin1, update1, commit1, ?r] a 3 [''k'' \<mapsto> ''v''] fg4"
    "last_lsn_file (fine_files fg4) = Some (fmt_08X 4 @ t)"
    "snapshot_dir (fine_files fg4) (snapshot_file_name (fmt_08X 4)) = Some content"
    "kv_ht_foreach (db_ht (fine_db fg3)) kv_hashtable_foreach (Inr []) = Inr content"
    using stage_check [OF m _ not_waiting(3,7) ok] by auto
  obtain fg5 where e: "fine_run set_commit fg5" "fine_files fg5 = fine_files fg4" "kv_ht_get (db_ht (fine_db fg5)) = [''k'' \<mapsto> ''v'']"
    "log_rep (db_rec (fine_db fg5)) [begin1, update1, commit1, ?r]" "numbered (fine_db fg5)"
    using stage_end [OF c(1,2)] by auto
  let ?u = "rec_upd update1"
  have "chain [begin1] 1 []" by (rule chain_begin) (simp_all add: short_rec_def)
  then have "chain [begin1, update1] 2 [?u]"
    using chain_snoc_update [of "[begin1]" 1 "[]" update1] by (simp add: update_rec_def numeral_2_eq_2)
  then have "chain [begin1, update1, commit1] 3 [?u]"
    using chain_snoc_skip [of "[begin1, update1]" 2 "[?u]" commit1] by (simp add: short_rec_def numeral_3_eq_3)
  then have "chain [begin1, update1, commit1, ?r] 3 [?u]" using chain_append [of "[begin1, update1, commit1]" 3 "[?u]" "[?r]"] by simp
  then have rec: "list_all2 (recoverable [begin1, update1, commit1, ?r] 4) [\<lparr>rtx_id = 1, rtx_last_lsn = 3\<rparr>] [[?u]]"
    by (simp add: recoverable_def)
  have "\<exists>db. server_start (fine_files fg5) (recovery_file (db_rec (fine_db fg5))) (tx_id_file (db_txm (fine_db fg5))) = Inr db \<and>
     kv_ht_get (db_ht db) = fold undo_upd (all_upds [[?u]]) (replay (drop 4 [begin1, update1, commit1, ?r]) (kv_ht_get (db_ht (fine_db fg3))))"
    by (rule start_on_snapshot [OF e(4) _ _ _ _ _ _ _ c(5) stageD(14) [OF m(2)] ok rec _ _ _ e(5) refl])
      (use c(3,4) e(2) in \<open>simp_all add: check_rec_def rec_upd_def update_rec_def\<close>)
  then obtain db where "server_start (fine_files fg5) (recovery_file (db_rec (fine_db fg5))) (tx_id_file (db_txm (fine_db fg5))) = Inr db"
    "kv_ht_get (db_ht db) ''k'' = None"
    by (auto simp: undo_upd_def rec_upd_def update_rec_def val_of_def)
  then show ?thesis using e(1,3) set_commit_accepted by (metis fun_upd_same)
qed

end
