(* ===== verification/Stale_Bucket.thy ===== *)
theory Stale_Bucket
  imports Windows
begin

text \<open>
  A delete whose bucket number is stale.  \<open>kv_ht_del\<close> computes the number from the size of the array
  before it takes the mutex of the table.  When another thread's \<open>set\<close> makes the array grow in
  between, the delete searches a bucket its key is no longer in: it is in the log, it is answered
  as not found, and the key stays.  The run that shows it is one of \<open>raw_run\<close>; up to the growth of the
  array it is one of \<open>fine_run\<close>, and the lemmas of Fine_Runs build it.
\<close>

section \<open>The size of the array\<close>

lemma kv_ht_set_size:
  assumes "ht_inv ht" "kv_ht_get ht k = None"
  shows "ht_count (snd (kv_ht_set ht k v)) = ht_count ht + 1"
    "ht_size (snd (kv_ht_set ht k v)) = (if ht_count ht > ht_size ht then 2 * ht_size ht else ht_size ht)"
  using assms(2) by (auto simp: kv_ht_set_def kv_ht_get_def kv_ht_resize_def Let_def split: option.splits)

text \<open>The table all states of the run have: \<open>n\<close> entries in an array of \<open>sz\<close> buckets.\<close>

definition str_table :: "kv_table \<Rightarrow> nat \<Rightarrow> nat \<Rightarrow> bool" where
  "str_table ht n sz \<longleftrightarrow> ht_inv ht \<and> ht_count ht = n \<and> ht_size ht = sz \<and> hash_func ht = str_hash_func"

lemma str_table_set:
  assumes "str_table ht n sz" "kv_ht_get ht k = None" "sz' = (if sz < n then 2 * sz else sz)" "n' = n + 1"
  shows "str_table (snd (kv_ht_set ht k v)) n' sz'"
  using assms kv_ht_set_correct(1) [of ht k v] kv_ht_set_size [of ht k v] by (simp add: str_table_def)

section \<open>One client\<close>

lemma stage_set:
  assumes run: "fine_run es fg" and st: "stage Idle rs a n m fg" and s: "small_str k" "small_str v" "v \<noteq> []"
    and m: "m k = None" "length rs < 9"
  shows "\<exists>fg'. fine_run (es @ [(1, C_Set k v, set_success)]) fg' \<and> fine_files fg' = fine_files fg \<and>
     db_ht (fine_db fg') = snd (kv_ht_set (db_ht (fine_db fg)) k v) \<and>
     (\<forall>w i. i \<noteq> slot k \<longrightarrow> lm_held (db_lm (fine_db fg')) w i = lm_held (db_lm (fine_db fg)) w i) \<and>
     stage Idle (rs @ [update_rec (of_nat (length rs + 1)) n 1 k [] v]) a (of_nat (length rs + 1)) (m(k \<mapsto> v)) fg'"
proof -
  obtain fg1 where w: "fine_run es fg1" "fine_files fg1 = fine_files fg" "db_ht (fine_db fg1) = db_ht (fine_db fg)"
    "kv_lm_wlock 1 (db_lm (fine_db fg)) k = Inr (db_lm (fine_db fg1))"
    "stage (At_Apply (C_Set k v) True False) (rs @ [update_rec (of_nat (length rs + 1)) n 1 k [] v]) a (of_nat (length rs + 1)) m fg1"
    using stage_write [OF run st s m] by blast
  obtain fg2 where a: "fine_run (es @ [(1, C_Set k v, set_success)]) fg2" "fine_files fg2 = fine_files fg1"
    "db_ht (fine_db fg2) = snd (kv_ht_set (db_ht (fine_db fg1)) k v)" "db_lm (fine_db fg2) = db_lm (fine_db fg1)"
    "stage Idle (rs @ [update_rec (of_nat (length rs + 1)) n 1 k [] v]) a (of_nat (length rs + 1)) (m(k \<mapsto> v)) fg2"
    using stage_apply [OF w(1,5)] by blast
  have "lm_held (db_lm (fine_db fg1)) w i = lm_held (db_lm (fine_db fg)) w i" if "i \<noteq> slot k" for w i
    using lm.acquire_held [OF db_invD(2) [OF stageD(5) [OF st]] _ w(4), of w i] that by simp
  then show ?thesis using a w by (intro exI [of _ fg2]) simp
qed

text \<open>A delete up to its bucket number.\<close>

lemma stage_delete:
  assumes run: "fine_run es fg" and st: "stage Idle rs a n m fg" and s: "small_str k" "small_str v"
    and m: "m k = Some v" "length rs < 9"
  shows "\<exists>fg'. fine_run es fg' \<and> fine_files fg' = fine_files fg \<and> db_ht (fine_db fg') = db_ht (fine_db fg) \<and>
     (\<forall>w i. i \<noteq> slot k \<longrightarrow> lm_held (db_lm (fine_db fg')) w i = lm_held (db_lm (fine_db fg)) w i) \<and>
     stage (At_Unlink k (del_bucket k (fine_db fg)) False) (rs @ [update_rec (of_nat (length rs + 1)) n 1 k v []]) a
       (of_nat (length rs + 1)) m fg'"
proof -
  let ?db = "fine_db fg"
  note d = stageD [OF st]
  let ?fg1 = "fg\<lparr>fine_at := (\<lambda>_. Idle)(1 := Waiting (C_Del k) False)\<rparr>"
  have st1: "stage (Waiting (C_Del k) False) rs a n m ?fg1" using st by (simp add: stage_def)
  have same: "(fine_tx fg)(1 := Some a) = fine_tx fg" using d(1) by (auto simp: fun_eq_iff)
  have "fine_step fg [] ?fg1"
    using fine_start [of 1 fg "C_Del k" k a False ?db] d(1,3,4) unfolding same by (simp add: ensure_tx_def)
  then have run1: "fine_run es ?fg1"
    using stage_more [OF run st, of "[]" ?fg1] stage_small [OF st1] stage_current [OF st1] s by simp
  have "\<not> 0 < lm_held (db_lm ?db) w (slot k)" if "w \<noteq> 1" for w using held_owner [OF d(5), of w "slot k"] that by auto
  then obtain lm where lm: "kv_lm_wlock 1 (db_lm ?db) k = Inr lm" using wlock_cases [OF d(5), of 1 k] by auto
  let ?dbl = "lock_db a k lm ?db" and ?u = "update_rec (of_nat (length rs + 1)) n 1 k v []"
  let ?db' = "log_db a ?u ?dbl"
  have invl: "db_inv [1 \<mapsto> a] [a] rs ?dbl" by (rule db_inv_lock [OF d(5) _ lm]) simp
  have lsn: "rec_lsn (db_rec ?db) + 1 = of_nat (length rs + 1)" using d(8) by simp
  have u: "line_ok ?u" using s by (simp add: line_ok_def update_rec_def small_str_def)
  have dl: "del_log 1 k a ?db = Inr (True, ?db')"
    using lock_key_eq [OF d(5), of a 1 False k] lm tx_log_update [OF invl, of a k v "[]"] lsn d(9-11) m s
    by (simp add: del_log_def small_str_def)
  have ids: "id_state ?db' = id_state ?db" by (rule id_state_del [OF dl])
  have inv: "db_inv [1 \<mapsto> a] [a] (rs @ [?u]) ?db'"
    by (rule db_inv_log [OF invl _ u]) (use d(6) lsn in \<open>simp_all add: update_rec_def\<close>)
  let ?fg2 = "?fg1\<lparr>fine_db := ?db', fine_at := (\<lambda>_. Idle)(1 := At_Apply (C_Del k) True False)\<rparr>"
  have st2: "stage (At_Apply (C_Del k) True False) (rs @ [?u]) a (of_nat (length rs + 1)) m ?fg2"
    using inv m(2) d numbered_cong [OF ids] ids unfolding stage_def
    by (simp add: id_state_def del: of_nat_Suc of_nat_add) (simp add: update_rec_def)
  have "fine_step ?fg1 [] ?fg2" using fine_log [of ?fg1 1 "C_Del k" False a True ?db'] dl d(1) by simp
  then have run2: "fine_run es ?fg2"
    using stage_more [OF run1 st1, of "[]" ?fg2] stage_small [OF st2] stage_current [OF st2] by simp
  let ?h = "del_bucket k ?db"
  let ?fg3 = "?fg2\<lparr>fine_at := (\<lambda>_. Idle)(1 := At_Unlink k ?h False)\<rparr>"
  have h: "del_bucket k ?db' = ?h" by (simp add: del_bucket_def)
  have st3: "stage (At_Unlink k ?h False) (rs @ [?u]) a (of_nat (length rs + 1)) m ?fg3" using st2 by (simp add: stage_def)
  have "fine_step ?fg2 [] ?fg3" using fine_bucket [of ?fg2 1 k False] h by simp
  moreover have "buckets_current ?fg3" by (simp add: buckets_current_def del_bucket_def)
  ultimately have "fine_run es ?fg3" using stage_more [OF run2 st2, of "[]" ?fg3] stage_small [OF st3] by simp
  moreover have "lm_held lm w i = lm_held (db_lm ?db) w i" if "i \<noteq> slot k" for w i
    using lm.acquire_held [OF db_invD(2) [OF d(5)] _ lm, of w i] that by simp
  ultimately show ?thesis using st3 by (intro exI [of _ ?fg3]) simp
qed

section \<open>Two clients\<close>

text \<open>
  \<open>both p q rs a b fg\<close>: two transactions are open, the older one of thread 1, at \<open>p\<close>, the younger one
  of thread 2, at \<open>q\<close>.
\<close>

definition both :: "progress \<Rightarrow> progress \<Rightarrow> kv_recovery_log_line list \<Rightarrow> nat \<Rightarrow> nat \<Rightarrow> fine_sys \<Rightarrow> bool" where
  "both p q rs a b fg \<longleftrightarrow>
     fine_tx fg = [1 \<mapsto> a, 2 \<mapsto> b] \<and> fine_at fg = (\<lambda>_. Idle)(1 := p, 2 := q) \<and> a \<noteq> b \<and>
     db_inv [1 \<mapsto> a, 2 \<mapsto> b] [a, b] rs (fine_db fg) \<and> length rs < 10 \<and>
     transaction_id (db_txm (fine_db fg)) = 2 \<and> numbered (fine_db fg)"

lemma bothD:
  assumes "both p q rs a b fg"
  shows "fine_tx fg 1 = Some a" "fine_tx fg 2 = Some b" "fine_tx fg = [1 \<mapsto> a, 2 \<mapsto> b]" "fine_at fg 1 = p" "fine_at fg 2 = q"
    "fine_at fg = (\<lambda>_. Idle)(1 := p, 2 := q)" "a \<noteq> b" "db_inv [1 \<mapsto> a, 2 \<mapsto> b] [a, b] rs (fine_db fg)" "length rs < 10"
    "length rs + 1 < 2 ^ 32" "rec_lsn (db_rec (fine_db fg)) + 1 = of_nat (length rs + 1)" "ht_inv (db_ht (fine_db fg))"
    "transaction_id (db_txm (fine_db fg)) = 2" "numbered (fine_db fg)"
  using assms log_rep_lsn [OF db_invD(4)] db_invD(3) by (auto simp: both_def)

lemma both_more:
  assumes run: "raw_run es fg" and b: "both p q rs a b fg" and st: "fine_step fg e fg'" and b': "both p' q' rs' a b fg'"
    and small: "\<And>cmd single. p' = Waiting cmd single \<or> q' = Waiting cmd single \<Longrightarrow> command_small cmd"
  shows "raw_run (es @ e) fg'"
proof (rule raw_more [OF run _ st])
  have "unat (rec_lsn (db_rec (fine_db fg))) = length rs" by (rule log_rep_length [OF db_invD(4) [OF bothD(8) [OF b]]])
  then show "room (fine_db fg)" using bothD(9,13) [OF b] by (simp add: room_def)
  show "at_small fg'" using bothD(6) [OF b'] small by (auto simp: at_small_def split: if_splits)
qed

lemma both_next:
  assumes "both p q rs a b fg" "db_inv [1 \<mapsto> a, 2 \<mapsto> b] [a, b] rs' db" "length rs' < 10" "id_state db = id_state (fine_db fg)"
    "at = (\<lambda>_. Idle)(1 := p', 2 := q')"
  shows "both p' q' rs' a b (fg\<lparr>fine_db := db, fine_at := at\<rparr>)"
  using assms numbered_cong [OF assms(4)] by (simp add: both_def id_state_def)

lemma both_at:
  assumes "both p q rs a b fg"
  shows "(fine_at fg)(1 := r) = (\<lambda>_. Idle)(1 := r, 2 := q)" "(fine_at fg)(2 := r) = (\<lambda>_. Idle)(1 := p, 2 := r)"
  using bothD(6) [OF assms] by (auto simp: fun_eq_iff)

text \<open>The second client starts a \<open>set\<close>.\<close>

lemma log_rep_unique:
  assumes "log_rep st rs" "log_rep st rs'"
  shows "rs' = rs"
proof (rule nth_equalityI)
  show len: "length rs' = length rs" using log_rep_length [OF assms(1)] log_rep_length [OF assms(2)] by simp
  show "rs' ! i = rs ! i" if "i < length rs'" for i
    using log_rep_get_in [OF assms(1), of i] log_rep_get_in [OF assms(2), of i] that len by simp
qed

lemma both_start:
  assumes run: "fine_run es fg" and st: "stage p rs a n m fg" and k: "small_str k" "small_str v" "v \<noteq> []" "length rs < 9"
    and p: "\<forall>cmd single. p \<noteq> Waiting cmd single"
  shows "\<exists>fg' b r. raw_run es fg' \<and> fine_files fg' = fine_files fg \<and> db_ht (fine_db fg') = db_ht (fine_db fg) \<and>
     db_lm (fine_db fg') = db_lm (fine_db fg) \<and> log_type r = KV_REC_BEGIN \<and>
     both p (Waiting (C_Set k v) True) (rs @ [r]) a b fg'"
proof -
  let ?db = "fine_db fg"
  note d = stageD [OF st]
  obtain s as rs' hv where inv: "fine_inv es fg s as rs' hv" using fine_run_inv [OF run] by blast
  note db = fine_db_inv [OF inv]
  have rs: "rs' = rs" by (rule log_rep_unique [OF d(15) db_invD(4) [OF db]])
  have as: "as = [a]" by (rule only_tx [OF db d(1)]) (use d(2) in simp)
  let ?v = "?db\<lparr>db_ht := hv\<rparr>" and ?r = "begin_rec ?db"
  have r: "begin_rec ?v = ?r" by (simp add: begin_rec_def)
  have sim: "sim s [1 \<mapsto> a] [a] rs ?v" using fine_invD(1) [OF inv] rs as d(2) by simp
  have num: "unat (transaction_id (db_txm ?v)) + 1 < 2 ^ 32" using d(12) by simp
  obtain b dv where b: "begin_tx ?v = Inr (b, dv)" "b \<notin> set [a]" "db_lm dv = db_lm ?v"
    "transaction_id (db_txm dv) = transaction_id (db_txm ?v) + 1"
    "sim (s\<lparr>running := (running s)(2 \<mapsto> [])\<rparr>) ([1 \<mapsto> a](2 \<mapsto> b)) ([a] @ [b]) (rs @ [begin_rec ?v]) dv"
    using begin_tx_sim [OF sim _ _ num d(7), of 2] by auto
  obtain db1 where b1: "begin_tx ?db = Inr (b, db1)" "dv = db1\<lparr>db_ht := hv\<rparr>"
    using b(1) by (cases "begin_tx ?db") (auto simp: begin_tx_ht)
  have ht: "db_ht db1 = db_ht ?db" by (rule begin_tx_keeps [OF b1(1)])
  have "db_inv [1 \<mapsto> a, 2 \<mapsto> b] [a, b] (rs @ [?r]) (dv\<lparr>db_ht := db_ht ?db\<rparr>)"
    using db_inv_ht [OF simD(1) [OF b(5)] d(14)] r by simp
  then have inv1: "db_inv [1 \<mapsto> a, 2 \<mapsto> b] [a, b] (rs @ [?r]) db1" by (simp add: b1(2) flip: ht)
  have num1: "numbered db1" by (rule numbered_begin [OF b1(1) db_invD(1) [OF db] d(13)])
  let ?fg = "fg\<lparr>fine_db := db1, fine_tx := (fine_tx fg)(2 := Some b), fine_at := (fine_at fg)(2 := Waiting (C_Set k v) True)\<rparr>"
  have bo: "both p (Waiting (C_Set k v) True) (rs @ [?r]) a b ?fg"
    using inv1 num1 b(2-4) b1(2) d(2,4,12) k(4) by (simp add: both_def)
  have "fine_step fg [] ?fg"
    using fine_start [of 2 fg "C_Set k v" k b True db1] b1(1) d(2,4) by (simp add: ensure_tx_def)
  moreover have "at_small ?fg" using d(4) k(1-3) p by (auto simp: at_small_def split: if_splits)
  ultimately have "raw_run (es @ []) ?fg" using raw_more [OF fine_run_raw [OF run] stage_room [OF st]] by blast
  then show ?thesis using bo ht b(3) b1(2) by (intro exI [of _ ?fg] exI [of _ b] exI [of _ ?r]) (simp add: begin_rec_def short_rec_def)
qed

text \<open>Its record, and its change of the table.\<close>

lemma both_write:
  assumes run: "raw_run es fg" and st: "both p (Waiting (C_Set k v) True) rs a b fg" and k: "small_str k" "small_str v" "v \<noteq> []"
    and free: "lm_held (db_lm (fine_db fg)) 1 (slot k) = 0" and new: "kv_ht_get (db_ht (fine_db fg)) k = None" "length rs < 9"
    and p: "\<forall>cmd single. p \<noteq> Waiting cmd single"
  shows "\<exists>fg' u. raw_run es fg' \<and> fine_files fg' = fine_files fg \<and> db_ht (fine_db fg') = db_ht (fine_db fg) \<and>
     log_type u = KV_REC_UPDATE \<and> log_key u = k \<and> log_new_val u = v \<and> both p (At_Apply (C_Set k v) True True) (rs @ [u]) a b fg'"
proof -
  let ?db = "fine_db fg"
  note d = bothD [OF st]
  have "\<not> 0 < lm_held (db_lm ?db) w (slot k)" if "w \<noteq> 2" for w
    using held_owner [OF d(8), of w "slot k"] free that by (cases "w = 1") auto
  then obtain lm where lm: "kv_lm_wlock 2 (db_lm ?db) k = Inr lm" using wlock_cases [OF d(8), of 2 k] by auto
  let ?dbl = "lock_db b k lm ?db"
  let ?u = "update_rec (rec_lsn (db_rec ?dbl) + 1) (tx_last_lsn (tx_of ?dbl b)) (tx_id (tx_of ?dbl b)) k [] v"
  let ?db' = "log_db b ?u ?dbl"
  have invl: "db_inv [1 \<mapsto> a, 2 \<mapsto> b] [a, b] rs ?dbl" by (rule db_inv_lock [OF d(8) _ lm]) simp
  have u: "line_ok ?u" using k by (simp add: line_ok_def update_rec_def small_str_def)
  have sl: "set_log 2 k v b ?db = Inr ?db'"
    using set_log_eq [OF d(8), of b 2 k v] lm tx_log_update [OF invl, of b k "[]" v] new(1) k
    by (simp add: str_of_def small_str_def)
  have ids: "id_state ?db' = id_state ?db" by (rule id_state_set [OF sl])
  have inv: "db_inv [1 \<mapsto> a, 2 \<mapsto> b] [a, b] (rs @ [?u]) ?db'"
    by (rule db_inv_log [OF invl _ u]) (use d(10) in \<open>simp_all add: update_rec_def\<close>)
  let ?fg = "fg\<lparr>fine_db := ?db', fine_at := (fine_at fg)(2 := At_Apply (C_Set k v) True True)\<rparr>"
  have bo: "both p (At_Apply (C_Set k v) True True) (rs @ [?u]) a b ?fg"
    by (rule both_next [OF st inv _ ids both_at(2) [OF st]]) (use new(2) in simp)
  have "fine_step fg [] ?fg" using fine_log [of fg 2 "C_Set k v" True b True ?db'] sl d(2,5) by simp
  from both_more [OF run st this bo] p have "raw_run es ?fg" by simp
  then show ?thesis using bo by (intro exI [of _ ?fg] exI [of _ ?u]) (simp add: update_rec_def)
qed

lemma both_apply:
  assumes run: "raw_run es fg" and st: "both p (At_Apply (C_Set k v) True True) rs a b fg" and p: "\<forall>cmd single. p \<noteq> Waiting cmd single"
  shows "\<exists>fg'. raw_run es fg' \<and> fine_files fg' = fine_files fg \<and> db_ht (fine_db fg') = snd (kv_ht_set (db_ht (fine_db fg)) k v) \<and>
     both p (At_Commit (C_Set k v) set_success) rs a b fg'"
proof -
  note d = bothD [OF st]
  let ?ht = "snd (kv_ht_set (db_ht (fine_db fg)) k v)"
  let ?fg = "fg\<lparr>fine_db := (fine_db fg)\<lparr>db_ht := ?ht\<rparr>, fine_at := (fine_at fg)(2 := At_Commit (C_Set k v) set_success)\<rparr>"
  have bo: "both p (At_Commit (C_Set k v) set_success) rs a b ?fg"
    by (rule both_next [OF st db_inv_ht [OF d(8) kv_ht_set_correct(1) [OF d(12)]] d(9) _ both_at(2) [OF st]]) simp
  have "fine_step fg [] ?fg"
    using fine_apply [of fg 2 "C_Set k v" True True set_success "(fine_db fg)\<lparr>db_ht := ?ht\<rparr>"] d(5) by (simp add: set_apply_def)
  from both_more [OF run st this bo] p have "raw_run es ?fg" by simp
  then show ?thesis using bo by (intro exI [of _ ?fg]) simp
qed

text \<open>The first client's delete, commit and end.\<close>

lemma both_unlink:
  assumes run: "raw_run es fg" and st: "both (At_Unlink k hash False) q rs a b fg" and un: "unlink_part k hash (fine_db fg) = (r, fine_db fg)"
    and q: "\<forall>cmd single. q \<noteq> Waiting cmd single"
  shows "\<exists>fg'. raw_run (es @ [(1, C_Del k, r)]) fg' \<and> fine_files fg' = fine_files fg \<and> fine_db fg' = fine_db fg \<and> both Idle q rs a b fg'"
proof -
  note d = bothD [OF st]
  let ?fg = "fg\<lparr>fine_db := fine_db fg, fine_at := (fine_at fg)(1 := Idle)\<rparr>"
  have bo: "both Idle q rs a b ?fg" by (rule both_next [OF st d(8,9) refl both_at(1) [OF st]])
  have "fine_step fg [(1, C_Del k, r)] ?fg" using fine_unlink [OF d(4) un] by simp
  from both_more [OF run st this bo] q have "raw_run (es @ [(1, C_Del k, r)]) ?fg" by simp
  then show ?thesis using bo by (intro exI [of _ ?fg]) simp
qed

lemma both_commit:
  assumes run: "raw_run es fg" and st: "both Idle q rs a b fg" "length rs < 9" and q: "\<forall>cmd single. q \<noteq> Waiting cmd single"
  shows "\<exists>fg' c. raw_run (es @ [(1, C_Commit, transaction_committed)]) fg' \<and> fine_files fg' = fine_files fg \<and>
     db_ht (fine_db fg') = db_ht (fine_db fg) \<and> fine_tx fg' = [2 \<mapsto> b] \<and> log_type c = KV_REC_COMMIT \<and>
     log_rep (db_rec (fine_db fg')) (rs @ [c]) \<and> numbered (fine_db fg')"
proof -
  note d = bothD [OF st(1)]
  let ?c = "commit_rec a (fine_db fg)"
  let ?db = "log_db a ?c (fine_db fg)"
  have tl: "tx_log (\<lambda>prev t st. Inr (kv_recovery_commit_log prev t st)) a (fine_db fg) = Inr ?db"
    using tx_log_eq [OF d(8), of a "\<lambda>prev t st. Inr (kv_recovery_commit_log prev t st)" ?c] by (simp add: simple_logs commit_rec_ok)
  have inv: "db_inv [1 \<mapsto> a, 2 \<mapsto> b] [a, b] (rs @ [?c]) ?db"
    using db_inv_log [OF d(8), of a ?c] d(10) by (simp add: commit_rec_ok)
  have ids: "id_state ?db = id_state (fine_db fg)" by (rule id_state_log [OF tl])
  let ?fg = "fg\<lparr>fine_db := ?db, fine_at := (fine_at fg)(1 := At_End C_Commit transaction_committed False)\<rparr>"
  have bo: "both (At_End C_Commit transaction_committed False) q (rs @ [?c]) a b ?fg"
    by (rule both_next [OF st(1) inv _ ids both_at(1) [OF st(1)]]) (use st(2) in simp)
  have "fine_step fg [] ?fg" by (rule fine_commit [OF d(4,1) tl])
  from both_more [OF run st(1) this bo] q have run1: "raw_run es ?fg" by simp
  note d1 = bothD [OF bo]
  obtain db where e: "end_tx 1 a ?db = Inr db" "db_ht db = db_ht ?db" "db_rec db = db_rec ?db" "db_inv ([1 \<mapsto> a, 2 \<mapsto> b](1 := None)) [b] (rs @ [?c]) db"
    using db_inv_end [OF inv, of 1] by auto
  let ?fg2 = "?fg\<lparr>fine_db := db, fine_tx := (fine_tx ?fg)(1 := None), fine_at := (fine_at ?fg)(1 := Idle)\<rparr>"
  have "fine_step ?fg [(1, C_Commit, transaction_committed)] ?fg2" using fine_end [of ?fg 1 C_Commit transaction_committed False a db] e(1) d(1) by simp
  moreover have "at_small ?fg2" using d(6) q by (auto simp: at_small_def split: if_splits)
  moreover have "room ?db" using log_rep_length [OF db_invD(4) [OF inv]] d1(9,13) by (simp add: room_def)
  ultimately have "raw_run (es @ [(1, C_Commit, transaction_committed)]) ?fg2" using raw_more [OF run1] by simp
  moreover have "numbered db" by (rule numbered_cong [OF id_state_end [OF e(1)] numbered_cong [OF ids d(14)]])
  moreover have "log_rep (db_rec db) (rs @ [?c])" by (rule db_invD(4) [OF e(4)])
  ultimately show ?thesis using d(3) e(2) by (intro exI [of _ ?fg2] exI [of _ ?c]) (simp add: commit_rec_ok fun_upd_twist)
qed

section \<open>The run\<close>

lemma bucket_numbers: "unat (str_hash_func ''a'') = 177670" "slot ''d'' \<notin> slot ` {''a'', ''b'', ''c''}"
  by (simp_all add: str_hash_func_def djb2_def slot_def schar_def default_list_size_def)

text \<open>One client has set three keys, which fill the array of two buckets, and is about to unlink one.\<close>

abbreviation three_sets :: "event list" where
  "three_sets \<equiv> [(1, C_Begin, transaction_started), (1, C_Set ''b'' ''v'', set_success), (1, C_Set ''c'' ''v'', set_success),
     (1, C_Set ''a'' ''v'', set_success)]"

abbreviation three_recs :: "kv_recovery_log_line list" where
  "three_recs \<equiv> [begin1, update_rec 2 1 1 ''b'' [] ''v'', update_rec 3 2 1 ''c'' [] ''v'', update_rec 4 3 1 ''a'' [] ''v'',
     update_rec 5 4 1 ''a'' ''v'' []]"

lemma before_growth:
  obtains fg a m where "fine_run three_sets fg" "last_lsn_file (fine_files fg) = None"
    "stage (At_Unlink ''a'' 0 False) three_recs a 5 m fg" "m = [''b'' \<mapsto> ''v'', ''c'' \<mapsto> ''v'', ''a'' \<mapsto> ''v'']"
    "str_table (db_ht (fine_db fg)) 3 2" "lm_held (db_lm (fine_db fg)) 1 (slot ''d'') = 0"
proof -
  have v: "small_str ''v''" "small_str ''a''" "small_str ''b''" "small_str ''c''" by (simp_all add: small_str_def)
  have sl: "slot ''d'' \<noteq> slot ''a''" "slot ''d'' \<noteq> slot ''b''" "slot ''d'' \<noteq> slot ''c''" using bucket_numbers(2) by auto
  obtain fg0 a where f0: "fine_run [(1, C_Begin, transaction_started)] fg0" "last_lsn_file (fine_files fg0) = None"
    "db_ht (fine_db fg0) = db_ht fresh_db" "db_lm (fine_db fg0) = kv_lm_create" "stage Idle [begin1] a 1 Map.empty fg0"
    using begin_stage by blast
  have h0: "lm_held (db_lm (fine_db fg0)) 1 (slot ''d'') = 0" by (simp add: f0(4) lm_inv_create(2))
  have t0: "str_table (db_ht (fine_db fg0)) 0 2" using fresh_ht(1) f0(3) by (simp add: str_table_def) (simp add: fresh_db_def)
  obtain fg1 where f1: "fine_run [(1, C_Begin, transaction_started), (1, C_Set ''b'' ''v'', set_success)] fg1"
    "fine_files fg1 = fine_files fg0" "db_ht (fine_db fg1) = snd (kv_ht_set (db_ht (fine_db fg0)) ''b'' ''v'')"
    "lm_held (db_lm (fine_db fg1)) 1 (slot ''d'') = 0"
    "stage Idle [begin1, update_rec 2 1 1 ''b'' [] ''v''] a 2 [''b'' \<mapsto> ''v''] fg1"
    using stage_set [OF f0(1,5) v(3,1)] h0 sl by auto
  have t1: "str_table (db_ht (fine_db fg1)) 1 2"
    unfolding f1(3) by (rule str_table_set [OF t0]) (use stageD(9) [OF f0(5)] in simp_all)
  obtain fg2 where f2: "fine_run [(1, C_Begin, transaction_started), (1, C_Set ''b'' ''v'', set_success), (1, C_Set ''c'' ''v'', set_success)] fg2"
    "fine_files fg2 = fine_files fg1" "db_ht (fine_db fg2) = snd (kv_ht_set (db_ht (fine_db fg1)) ''c'' ''v'')"
    "lm_held (db_lm (fine_db fg2)) 1 (slot ''d'') = 0"
    "stage Idle [begin1, update_rec 2 1 1 ''b'' [] ''v'', update_rec 3 2 1 ''c'' [] ''v''] a 3 [''b'' \<mapsto> ''v'', ''c'' \<mapsto> ''v''] fg2"
    using stage_set [OF f1(1,5) v(4,1)] f1(4) sl by auto
  have t2: "str_table (db_ht (fine_db fg2)) 2 2"
    unfolding f2(3) by (rule str_table_set [OF t1]) (use stageD(9) [OF f1(5)] in simp_all)
  obtain fg3 where f3: "fine_run three_sets fg3"
    "fine_files fg3 = fine_files fg2" "db_ht (fine_db fg3) = snd (kv_ht_set (db_ht (fine_db fg2)) ''a'' ''v'')"
    "lm_held (db_lm (fine_db fg3)) 1 (slot ''d'') = 0"
    "stage Idle [begin1, update_rec 2 1 1 ''b'' [] ''v'', update_rec 3 2 1 ''c'' [] ''v'', update_rec 4 3 1 ''a'' [] ''v''] a 4
      [''b'' \<mapsto> ''v'', ''c'' \<mapsto> ''v'', ''a'' \<mapsto> ''v''] fg3"
    using stage_set [OF f2(1,5) v(2,1)] f2(4) sl by auto
  have t3: "str_table (db_ht (fine_db fg3)) 3 2"
    unfolding f3(3) by (rule str_table_set [OF t2]) (use stageD(9) [OF f2(5)] in simp_all)
  have b: "del_bucket ''a'' (fine_db fg3) = 0"
    using t3 bucket_numbers(1) by (simp add: del_bucket_def kv_ht_hash_def str_table_def)
  obtain fg4 where f4: "fine_run three_sets fg4" "fine_files fg4 = fine_files fg3" "db_ht (fine_db fg4) = db_ht (fine_db fg3)"
    "lm_held (db_lm (fine_db fg4)) 1 (slot ''d'') = 0"
    "stage (At_Unlink ''a'' 0 False) three_recs a 5 [''b'' \<mapsto> ''v'', ''c'' \<mapsto> ''v'', ''a'' \<mapsto> ''v''] fg4"
    using stage_delete [OF f3(1,5) v(2,1)] f3(4) sl b by auto
  show thesis by (rule that [OF f4(1) _ f4(5) refl]) (use f0(2) f1(2) f2(2) f3(2) f4(2-4) t3 in simp_all)
qed

text \<open>The second client's \<open>set\<close> makes the array grow, the first client's delete misses its key and is committed.\<close>

abbreviation growth_recs :: "kv_recovery_log_line \<Rightarrow> kv_recovery_log_line \<Rightarrow> kv_recovery_log_line \<Rightarrow> kv_recovery_log_line list" where
  "growth_recs r u c \<equiv> three_recs @ [r] @ [u] @ [c]"

lemma after_growth:
  obtains fg b r u c where
    "raw_run (three_sets @ [(1, C_Del ''a'' , del_not_found), (1, C_Commit, transaction_committed)]) fg"
    "last_lsn_file (fine_files fg) = None" "kv_ht_get (db_ht (fine_db fg)) ''a'' = Some ''v''" "fine_tx fg = [2 \<mapsto> b]"
    "log_type r = KV_REC_BEGIN" "log_type u = KV_REC_UPDATE" "log_key u = ''d''" "log_new_val u = ''v''" "log_type c = KV_REC_COMMIT"
    "log_rep (db_rec (fine_db fg)) (growth_recs r u c)" "numbered (fine_db fg)"
proof -
  have v: "small_str ''d''" "small_str ''v''" by (simp_all add: small_str_def)
  obtain fg1 a m where g1: "fine_run three_sets fg1" "last_lsn_file (fine_files fg1) = None"
    "stage (At_Unlink ''a'' 0 False) three_recs a 5 m fg1" "m = [''b'' \<mapsto> ''v'', ''c'' \<mapsto> ''v'', ''a'' \<mapsto> ''v'']"
    "str_table (db_ht (fine_db fg1)) 3 2" "lm_held (db_lm (fine_db fg1)) 1 (slot ''d'') = 0" by (rule before_growth)
  have m: "kv_ht_get (db_ht (fine_db fg1)) = m" by (rule stageD(9) [OF g1(3)])
  obtain fg2 b r where g2: "raw_run three_sets fg2" "fine_files fg2 = fine_files fg1" "db_ht (fine_db fg2) = db_ht (fine_db fg1)"
    "db_lm (fine_db fg2) = db_lm (fine_db fg1)" "log_type r = KV_REC_BEGIN"
    "both (At_Unlink ''a'' 0 False) (Waiting (C_Set ''d'' ''v'') True) (three_recs @ [r]) a b fg2"
    using both_start [OF g1(1,3) v, OF _ _ not_waiting(4)] by auto
  obtain fg3 u where g3: "raw_run three_sets fg3" "fine_files fg3 = fine_files fg2" "db_ht (fine_db fg3) = db_ht (fine_db fg2)"
    "log_type u = KV_REC_UPDATE" "log_key u = ''d''" "log_new_val u = ''v''"
    "both (At_Unlink ''a'' 0 False) (At_Apply (C_Set ''d'' ''v'') True True) ((three_recs @ [r]) @ [u]) a b fg3"
    using both_write [OF g2(1,6) v, OF _ _ _ _ not_waiting(4)] g1(4,6) g2(3,4) m by auto
  obtain fg4 where g4: "raw_run three_sets fg4" "fine_files fg4 = fine_files fg3"
    "db_ht (fine_db fg4) = snd (kv_ht_set (db_ht (fine_db fg3)) ''d'' ''v'')"
    "both (At_Unlink ''a'' 0 False) (At_Commit (C_Set ''d'' ''v'') set_success) ((three_recs @ [r]) @ [u]) a b fg4"
    using both_apply [OF g3(1,7) not_waiting(4)] by blast
  have tb: "str_table (db_ht (fine_db fg3)) 3 2" using g1(5) g2(3) g3(3) by simp
  have t4: "str_table (db_ht (fine_db fg4)) 4 4" unfolding g4(3)
    by (rule str_table_set [OF tb]) (use m g1(4) g2(3) g3(3) in simp_all)
  have "del_bucket ''a'' (fine_db fg4) = 2"
    using t4 bucket_numbers(1) by (simp add: del_bucket_def kv_ht_hash_def str_table_def)
  then have un: "unlink_part ''a'' 0 (fine_db fg4) = (del_not_found, fine_db fg4)"
    using t4 by (intro unlink_stale) (simp_all add: str_table_def)
  have in_table: "kv_ht_get (db_ht (fine_db fg4)) ''a'' = Some ''v''"
    using kv_ht_set_correct(2) [of "db_ht (fine_db fg3)" "''d''" "''v''"] tb m g1(4) g2(3) g3(3)
    by (simp add: g4(3) str_table_def)
  obtain fg5 where g5: "raw_run (three_sets @ [(1, C_Del ''a'', del_not_found)]) fg5" "fine_files fg5 = fine_files fg4"
    "fine_db fg5 = fine_db fg4" "both Idle (At_Commit (C_Set ''d'' ''v'') set_success) ((three_recs @ [r]) @ [u]) a b fg5"
    using both_unlink [OF g4(1,4) un] by auto
  obtain fg6 c where g6: "raw_run ((three_sets @ [(1, C_Del ''a'', del_not_found)]) @ [(1, C_Commit, transaction_committed)]) fg6"
    "fine_files fg6 = fine_files fg5" "db_ht (fine_db fg6) = db_ht (fine_db fg5)" "fine_tx fg6 = [2 \<mapsto> b]" "log_type c = KV_REC_COMMIT"
    "log_rep (db_rec (fine_db fg6)) (((three_recs @ [r]) @ [u]) @ [c])" "numbered (fine_db fg6)"
    using both_commit [OF g5(1,4)] by auto
  show thesis
    by (rule that [of fg6 b r u c])
      (use g1(2) g2(2,5) g3(2,4-6) g4(2) g5(2,3) g6 in_table in simp_all)
qed

section \<open>Properties\<close>

text \<open>
  C10. A delete with a stale bucket number.  A client has set three keys in a transaction and deletes
  one of them; between its bucket number and the mutex of the table another client's \<open>set\<close> makes
  the array grow.  The client is told that its key is not there and that its transaction is
  committed.  The abstract store does not accept these replies, and the table keeps the key, which
  only the log says is deleted: after a crash the next server does not have it.
\<close>

theorem stale_bucket_keeps_key:
  "\<exists>fg db es. es = [(1, C_Begin, transaction_started), (1, C_Set ''b'' ''v'', set_success), (1, C_Set ''c'' ''v'', set_success),
      (1, C_Set ''a'' ''v'', set_success), (1, C_Del ''a'', del_not_found), (1, C_Commit, transaction_committed)] \<and>
    raw_run es fg \<and> accepts es empty_store = None \<and> fine_tx fg 1 = None \<and>
    kv_ht_get (db_ht (fine_db fg)) ''a'' = Some ''v'' \<and>
    server_start (fine_files fg) (recovery_file (db_rec (fine_db fg))) (tx_id_file (db_txm (fine_db fg))) = Inr db \<and>
    kv_ht_get (db_ht db) ''a'' = None"
proof -
  obtain fg b r u c where w: "raw_run (three_sets @ [(1, C_Del ''a'' , del_not_found), (1, C_Commit, transaction_committed)]) fg"
    and f: "last_lsn_file (fine_files fg) = None" and t: "kv_ht_get (db_ht (fine_db fg)) ''a'' = Some ''v''" "fine_tx fg = [2 \<mapsto> b]"
    and l: "log_type r = KV_REC_BEGIN" "log_type u = KV_REC_UPDATE" "log_key u = ''d''" "log_new_val u = ''v''" "log_type c = KV_REC_COMMIT"
    and rep: "log_rep (db_rec (fine_db fg)) (growth_recs r u c)" and num: "numbered (fine_db fg)" by (rule after_growth)
  let ?st = "db_rec (fine_db fg)"
  obtain ht0 :: kv_table where ht0: "kv_ht_create 2 str_hash_func str_cmp_func = Inr ht0" "ht_inv ht0" "kv_ht_get ht0 = Map.empty"
    using kv_ht_create_correct [of 2 str_cmp_func str_hash_func] by auto
  have rc: "kv_recovery_recover (fine_files fg) (recovery_file ?st) = Inr ?st"
    by (rule recover_no_checkpoint [OF rep _ f]) simp
  obtain ht where h: "kv_recovery_redo (fine_files fg) (recovery_file ?st) ht0 = Inr ht" "ht_inv ht"
    "kv_ht_get ht = replay (growth_recs r u c) Map.empty"
    using redo_whole_log [OF rep _ ht0(2) f] ht0(3) by auto
  have c: "replay (growth_recs r u c) Map.empty = [''b'' \<mapsto> ''v'', ''c'' \<mapsto> ''v'', ''d'' \<mapsto> ''v'']"
    using l by (auto simp: replay_rec_def update_rec_def short_rec_def val_of_def fun_eq_iff)
  have new: "kv_ht_get ht = [''b'' \<mapsto> ''v'', ''c'' \<mapsto> ''v'', ''d'' \<mapsto> ''v'']" by (simp only: h(3) c)
  then have "vals_ok (kv_ht_get ht)" by (auto simp: vals_ok_def small_str_def split: if_splits)
  moreover obtain xs where "tx_id_file (db_txm (fine_db fg)) = id_lines xs" using num by (auto simp: numbered_def id_state_def)
  ultimately obtain db where "server_start (fine_files fg) (recovery_file ?st) (tx_id_file (db_txm (fine_db fg))) = Inr db"
    "kv_ht_get (db_ht db) = kv_ht_get ht" using new_server [OF ht0(1) rc rep h] by blast
  moreover have "accepts (three_sets @ [(1, C_Del ''a'' , del_not_found), (1, C_Commit, transaction_committed)]) empty_store = None"
    by (simp add: empty_store_def Let_def tx_view_def tx_writes_def)
  ultimately show ?thesis using w t by (intro exI [of _ fg] exI [of _ db]) (simp add: new)
qed

end
