(* ===== verification/Mutexes.thy ===== *)
theory Mutexes
  imports Kv_Command
begin

text \<open>
  The mutexes around the shared structures: in which order the threads take them.  The calls of
  \<open>pthread_mutex_lock\<close> and \<open>pthread_mutex_unlock\<close> of each operation are listed, with the points
  where a command waits for the lock of its key, and all threads are run together.

  The lemmas show that every operation takes its mutexes in one order and gives them all back, so
  the mutexes alone never make the server stand still, and that nobody waits for a key with a
  mutex in hand.
\<close>

section \<open>Definitions\<close>

subsection \<open>Mutexes and calls\<close>

text \<open>
  \<open>Terminate_Lock\<close> is \<open>server_terminate_lock\<close>; \<open>Ht_Lock\<close> and \<open>Ll_Lock\<close> are those of the one table
  and of the list of transactions.
\<close>

datatype mutex = Terminate_Lock | Tx_Lock | Tx_List_Lock | Lsn_Lock | Ht_Lock | Ll_Lock

datatype mutex_call = Acquire mutex | Release mutex | Key_Wait string

definition kv_txm_lock :: "mutex_call list" where "kv_txm_lock = [Acquire Tx_Lock]"
definition kv_txm_unlock :: "mutex_call list" where "kv_txm_unlock = [Release Tx_Lock]"
definition kv_recovery_lock :: "mutex_call list" where "kv_recovery_lock = [Acquire Lsn_Lock]"
definition kv_recovery_unlock :: "mutex_call list" where "kv_recovery_unlock = [Release Lsn_Lock]"
definition kv_ht_lock :: "mutex_call list" where "kv_ht_lock = [Acquire Ht_Lock]"
definition kv_ht_unlock :: "mutex_call list" where "kv_ht_unlock = [Release Ht_Lock]"

text \<open>
  One operation of the list, of the table, one record in the log; every branch of \<open>kv_ht_set\<close> and
  \<open>kv_ht_del\<close> gives the mutex back.  (\<open>kv_ht_del\<close> reads the size of the array before it takes it.)
\<close>

definition list_calls :: "mutex_call list" where "list_calls = [Acquire Ll_Lock, Release Ll_Lock]"
definition table_calls :: "mutex_call list" where "table_calls = [Acquire Ht_Lock, Release Ht_Lock]"
definition log_calls :: "mutex_call list" where "log_calls = [Acquire Lsn_Lock, Release Lsn_Lock]"

definition start_calls :: "mutex_call list" where
  "start_calls = [Acquire Tx_Lock] @ list_calls @ [Release Tx_Lock]"

definition end_calls :: "mutex_call list" where
  "end_calls = [Acquire Tx_List_Lock] @ list_calls @ [Release Tx_List_Lock]"

subsection \<open>The threads\<close>

text \<open>
  A command: \<open>in_tx\<close> says whether the client has a transaction, \<open>found\<close> whether the key is in the
  table, \<open>undone\<close> for each UPDATE record an abort finds whether the table is changed.
\<close>

fun command_calls :: "bool \<Rightarrow> bool \<Rightarrow> bool list \<Rightarrow> command \<Rightarrow> mutex_call list" where
  "command_calls in_tx found undone C_Empty = []"
| "command_calls in_tx found undone C_Begin = (if in_tx then [] else start_calls @ log_calls)"
| "command_calls in_tx found undone (C_Get key) =
     (if in_tx then [] else start_calls @ log_calls) @ [Key_Wait key] @ table_calls @
     (if in_tx then [] else log_calls @ end_calls)"
| "command_calls in_tx found undone (C_Set key val) =
     (if in_tx then [] else start_calls @ log_calls) @ [Key_Wait key] @ table_calls @ log_calls @ table_calls @
     (if in_tx then [] else log_calls @ end_calls)"
| "command_calls in_tx found undone (C_Del key) =
     (if in_tx then [] else start_calls @ log_calls) @ [Key_Wait key] @ table_calls @
     (if found then log_calls @ table_calls else []) @ (if in_tx then [] else log_calls @ end_calls)"
| "command_calls in_tx found undone C_Commit = (if in_tx then log_calls @ end_calls else [])"
| "command_calls in_tx found undone C_Abort =
     (if in_tx then log_calls @ concat (map (\<lambda>change. log_calls @ (if change then table_calls else [])) undone) @
        log_calls @ end_calls else [])"

fun client_calls :: "(bool \<times> bool \<times> bool list \<times> command) list \<Rightarrow> mutex_call list" where
  "client_calls [] = []"
| "client_calls ((in_tx, found, undone, cmd) # cs) = command_calls in_tx found undone cmd @ client_calls cs"

text \<open>
  The checkpoint: the list of transactions is gone through when it is not empty, the CHECK record
  is written without taking the mutex of the log again.
\<close>

definition checkpoint_calls :: "bool \<Rightarrow> mutex_call list" where
  "checkpoint_calls any =
     kv_txm_lock @ kv_recovery_lock @ kv_ht_lock @ (if any then list_calls else []) @
     kv_ht_unlock @ kv_recovery_unlock @ kv_txm_unlock"

text \<open>
  The checkpoint thread: a wait gives \<open>terminate_lock\<close> back and takes it again; a round that ran into
  its time limit (\<open>Some any\<close>) takes a checkpoint.
\<close>

fun round_calls :: "bool option list \<Rightarrow> mutex_call list" where
  "round_calls [] = []"
| "round_calls (r # rs) =
     [Release Terminate_Lock, Acquire Terminate_Lock] @ (case r of None \<Rightarrow> [] | Some any \<Rightarrow> checkpoint_calls any) @ round_calls rs"

definition handler_calls :: "bool option list \<Rightarrow> mutex_call list" where
  "handler_calls rs = [Acquire Terminate_Lock] @ round_calls rs @ [Release Terminate_Lock]"

text \<open>
  The main thread at the end; \<open>kv_txm_destroy\<close> takes \<open>open_txs\<close> transactions out of the list and then
  finds it empty.
\<close>

definition shutdown_calls :: "nat \<Rightarrow> mutex_call list" where
  "shutdown_calls open_txs = [Acquire Terminate_Lock, Release Terminate_Lock] @ concat (replicate (open_txs + 1) list_calls)"

subsection \<open>All threads together\<close>

type_synonym mutex_state = "(thread \<Rightarrow> mutex_call list) \<times> (mutex \<Rightarrow> thread option)"

inductive mutex_step :: "mutex_state \<Rightarrow> mutex_state \<Rightarrow> bool" where
  mutex_acquire: "prog u = Acquire m # cs \<Longrightarrow> own m = None \<Longrightarrow> mutex_step (prog, own) (prog(u := cs), own(m \<mapsto> u))"
| mutex_release: "prog u = Release m # cs \<Longrightarrow> own m = Some u \<Longrightarrow> mutex_step (prog, own) (prog(u := cs), own(m := None))"

text \<open>A lock of a key may be granted at any time, or never.\<close>

inductive mutex_run :: "mutex_state \<Rightarrow> mutex_state \<Rightarrow> bool" for st where
  mutex_start: "mutex_run st st"
| mutex_more: "mutex_run st st' \<Longrightarrow> mutex_step st' st'' \<Longrightarrow> mutex_run st st''"
| mutex_key: "mutex_run st (prog, own) \<Longrightarrow> prog u = Key_Wait k # cs \<Longrightarrow> mutex_run st (prog(u := cs), own)"

text \<open>What the threads of the server run.\<close>

definition server_calls_of :: "mutex_call list \<Rightarrow> bool" where
  "server_calls_of cs \<longleftrightarrow> (\<exists>ms. cs = client_calls ms) \<or> (\<exists>rs. cs = handler_calls rs) \<or> (\<exists>n. cs = shutdown_calls n)"

section \<open>One order\<close>

fun rank :: "mutex \<Rightarrow> nat" where
  "rank Terminate_Lock = 0" | "rank Tx_Lock = 1" | "rank Tx_List_Lock = 1" | "rank Lsn_Lock = 2" | "rank Ht_Lock = 3"
| "rank Ll_Lock = 4"

lemma rank_le: "rank m \<le> 4"
  by (cases m) simp_all

text \<open>
  \<open>ordered hs cs\<close>: a thread that holds the mutexes \<open>hs\<close> takes new ones above them only, gives back what
  it holds, waits for keys with empty hands, and ends with none.
\<close>

fun ordered :: "mutex set \<Rightarrow> mutex_call list \<Rightarrow> bool" where
  "ordered hs [] = (hs = {})"
| "ordered hs (Acquire m # cs) = ((\<forall>h \<in> hs. rank h < rank m) \<and> ordered (insert m hs) cs)"
| "ordered hs (Release m # cs) = (m \<in> hs \<and> ordered (hs - {m}) cs)"
| "ordered hs (Key_Wait k # cs) = (hs = {} \<and> ordered {} cs)"

lemma ordered_append: "ordered hs as \<Longrightarrow> ordered {} bs \<Longrightarrow> ordered hs (as @ bs)"
  by (induction hs as rule: ordered.induct) auto

lemma ordered_concat: "\<forall>cs \<in> set css. ordered {} cs \<Longrightarrow> ordered {} (concat css)"
  by (induction css) (auto intro: ordered_append)

lemmas call_defs = list_calls_def table_calls_def log_calls_def start_calls_def end_calls_def kv_txm_lock_def kv_txm_unlock_def
  kv_recovery_lock_def kv_recovery_unlock_def kv_ht_lock_def kv_ht_unlock_def

lemma ordered_parts:
  "ordered {} list_calls" "ordered {} table_calls" "ordered {} log_calls" "ordered {} start_calls" "ordered {} end_calls"
  by (simp_all add: call_defs)

lemma ordered_command: "ordered {} (command_calls in_tx found undone cmd)"
proof (cases cmd)
  case C_Abort
  have "ordered {} (concat (map (\<lambda>change. log_calls @ (if change then table_calls else [])) undone))"
    by (rule ordered_concat) (auto intro!: ordered_append ordered_parts)
  then show ?thesis using C_Abort by (auto intro!: ordered_append ordered_parts)
qed (auto intro!: ordered_append ordered_parts)

lemma ordered_client: "ordered {} (client_calls ms)"
  by (induction ms rule: client_calls.induct) (auto intro: ordered_append ordered_command)

lemma ordered_rounds: "ordered {Terminate_Lock} (round_calls rs @ [Release Terminate_Lock])"
proof (induction rs)
  case (Cons r rs)
  have "ordered {Terminate_Lock} (checkpoint_calls any @ cs)" if "ordered {Terminate_Lock} cs" for any cs
    using that by (cases any) (simp_all add: checkpoint_calls_def call_defs insert_Diff_if)
  then show ?case using Cons by (cases r) (simp_all add: insert_Diff_if)
qed simp

lemma ordered_server: "server_calls_of cs \<Longrightarrow> ordered {} cs"
proof -
  have "ordered {} (concat (replicate n list_calls))" for n by (rule ordered_concat) (simp add: ordered_parts)
  then have "ordered {} (shutdown_calls n)" for n unfolding shutdown_calls_def
    by (intro ordered_append) (simp, simp del: replicate.simps)
  then show "server_calls_of cs \<Longrightarrow> ordered {} cs"
    using ordered_client ordered_rounds unfolding server_calls_of_def handler_calls_def by auto
qed

section \<open>The invariant\<close>

text \<open>Every thread holds the mutexes it owns, in order.\<close>

definition mutex_inv :: "mutex_state \<Rightarrow> bool" where
  "mutex_inv st \<longleftrightarrow> (\<forall>u. ordered {m. snd st m = Some u} (fst st u))"

lemma mutex_invD: "mutex_inv (prog, own) \<Longrightarrow> ordered {m. own m = Some u} (prog u)"
  by (simp add: mutex_inv_def)

lemma mutex_inv_step:
  assumes "mutex_step st st'" "mutex_inv st"
  shows "mutex_inv st'"
  using assms
proof (induction rule: mutex_step.induct)
  case (mutex_acquire prog u m cs own)
  have "ordered {m'. (own(m \<mapsto> u)) m' = Some v} ((prog(u := cs)) v)" for v
  proof (cases "v = u")
    case True
    have "{m'. (own(m \<mapsto> u)) m' = Some u} = insert m {m'. own m' = Some u}" by auto
    then show ?thesis using True mutex_invD [OF mutex_acquire(3), of u] mutex_acquire(1) by simp
  next
    case False
    then have "{m'. (own(m \<mapsto> u)) m' = Some v} = {m'. own m' = Some v}" using mutex_acquire(2) by auto
    then show ?thesis using False mutex_invD [OF mutex_acquire(3), of v] by simp
  qed
  then show ?case by (simp add: mutex_inv_def)
next
  case (mutex_release prog u m cs own)
  have "ordered {m'. (own(m := None)) m' = Some v} ((prog(u := cs)) v)" for v
  proof (cases "v = u")
    case True
    have "{m'. (own(m := None)) m' = Some u} = {m'. own m' = Some u} - {m}" by auto
    then show ?thesis using True mutex_invD [OF mutex_release(3), of u] mutex_release(1) by simp
  next
    case False
    then have "{m'. (own(m := None)) m' = Some v} = {m'. own m' = Some v}" using mutex_release(2) by auto
    then show ?thesis using False mutex_invD [OF mutex_release(3), of v] by simp
  qed
  then show ?case by (simp add: mutex_inv_def)
qed

lemma mutex_inv_run: "mutex_run st st' \<Longrightarrow> mutex_inv st \<Longrightarrow> mutex_inv st'"
proof (induction rule: mutex_run.induct)
  case (mutex_key prog own u k cs)
  have "ordered {m. own m = Some u} (Key_Wait k # cs)" using mutex_invD [OF mutex_key.IH [OF mutex_key.prems], of u] mutex_key(2) by simp
  then show ?case using mutex_invD [OF mutex_key.IH [OF mutex_key.prems]] by (simp add: mutex_inv_def)
qed (auto intro: mutex_inv_step)

text \<open>The owner of the highest mutex taken can go on.\<close>

lemma highest_goes_on:
  assumes inv: "mutex_inv (prog, own)" and m: "own m = Some u" "\<And>m'. own m' \<noteq> None \<Longrightarrow> rank m' \<le> rank m"
  shows "\<exists>st'. mutex_step (prog, own) st'"
proof -
  have o: "ordered {m. own m = Some u} (prog u)" using inv by (simp add: mutex_inv_def)
  then obtain c cs where c: "prog u = c # cs" using m(1) by (cases "prog u") auto
  show ?thesis
  proof (cases c)
    case (Acquire m')
    then have "rank m < rank m'" using o c m(1) by auto
    then have "own m' = None" using m(2) [of m'] by fastforce
    then show ?thesis using mutex_acquire c Acquire by blast
  next
    case (Release m')
    then show ?thesis using mutex_release [of prog u m' cs own] o c by auto
  next
    case (Key_Wait k)
    then show ?thesis using o c m(1) by auto
  qed
qed

section \<open>Properties\<close>

text \<open>
  C16. The mutexes never make the server stand still.  Whatever commands the clients run, however
  often the checkpoint thread takes checkpoints and whenever the main thread shuts down: in every
  state the threads reach, one of them can take or give back a mutex, or each of them has ended or waits for
  the lock of a key; and a thread that waits for the lock of a key, or has ended, holds no mutex.
\<close>

theorem mutexes_never_block:
  assumes progs: "\<forall>u. server_calls_of (prog u)" and run: "mutex_run (prog, \<lambda>_. None) (prog', own)"
  shows "((\<exists>st'. mutex_step (prog', own) st') \<or> (\<forall>u. prog' u = [] \<or> (\<exists>k cs. prog' u = Key_Wait k # cs))) \<and>
    (\<forall>m u. own m = Some u \<longrightarrow> prog' u \<noteq> [] \<and> (\<forall>k cs. prog' u \<noteq> Key_Wait k # cs))"
proof -
  have "mutex_inv (prog, \<lambda>_. None)" using progs ordered_server by (simp add: mutex_inv_def)
  then have inv: "mutex_inv (prog', own)" by (rule mutex_inv_run [OF run])
  have held: "prog' u \<noteq> []" "prog' u \<noteq> Key_Wait k # cs" if "own m = Some u" for m u k cs
  proof -
    have "ordered {m. own m = Some u} (prog' u)" "m \<in> {m. own m = Some u}" using inv that by (simp_all add: mutex_inv_def)
    then show "prog' u \<noteq> []" "prog' u \<noteq> Key_Wait k # cs" by auto
  qed
  have "(\<exists>st'. mutex_step (prog', own) st') \<or> (\<forall>u. prog' u = [] \<or> (\<exists>k cs. prog' u = Key_Wait k # cs))"
  proof (cases "\<exists>m. own m \<noteq> None")
    case True
    then obtain m where m: "own m \<noteq> None" "\<And>m'. own m' \<noteq> None \<Longrightarrow> rank m' \<le> rank m"
      using ex_has_greatest_nat [of "\<lambda>m. own m \<noteq> None" _ rank 5] rank_le by (metis less_Suc_eq_le eval_nat_numeral(3))
    then obtain u where "own m = Some u" by auto
    then show ?thesis using highest_goes_on [OF inv _ m(2)] by blast
  next
    case False
    then have free: "own m = None" for m by simp
    have "\<exists>st'. mutex_step (prog', own) st'" if u: "prog' u \<noteq> []" "\<forall>k cs. prog' u \<noteq> Key_Wait k # cs" for u
    proof -
      obtain c cs where c: "prog' u = c # cs" using u(1) by (cases "prog' u") auto
      moreover have "ordered {} (prog' u)" using inv free by (simp add: mutex_inv_def)
      ultimately show ?thesis using u(2) free mutex_acquire [of prog' u _ cs own] by (cases c) auto
    qed
    then show ?thesis by blast
  qed
  then show ?thesis using held by blast
qed

theorem mutexes_never_block_witness:
  "\<exists>prog' own st'. mutex_run ((\<lambda>u. if u = 1 then client_calls [(False, False, [], C_Set ''k'' ''v'')] else
       if u = 2 then handler_calls [Some True] else []), \<lambda>_. None) (prog', own) \<and>
     own Tx_Lock = Some 1 \<and> own Terminate_Lock = Some 2 \<and> mutex_step (prog', own) st'"
proof -
  let ?p = "\<lambda>u :: thread. if u = 1 then client_calls [(False, False, [], C_Set ''k'' ''v'')] else if u = 2 then handler_calls [Some True] else []"
  let ?own = "[Tx_Lock \<mapsto> 1, Terminate_Lock \<mapsto> 2]"
  obtain cs1 where c1: "?p 1 = Acquire Tx_Lock # cs1" by (simp add: call_defs)
  obtain cs2 where c2: "?p 2 = Acquire Terminate_Lock # cs2" by (simp add: handler_calls_def)
  have "mutex_step (?p, \<lambda>_. None) (?p(1 := cs1), [Tx_Lock \<mapsto> 1])" using c1 by (rule mutex_acquire) simp
  then have r1: "mutex_run (?p, \<lambda>_. None) (?p(1 := cs1), [Tx_Lock \<mapsto> 1])" by (rule mutex_more [OF mutex_start])
  have "(?p(1 := cs1)) 2 = Acquire Terminate_Lock # cs2" using c2 by simp
  then have "mutex_step (?p(1 := cs1), [Tx_Lock \<mapsto> 1]) (?p(1 := cs1, 2 := cs2), ?own)" by (rule mutex_acquire) simp
  then have r2: "mutex_run (?p, \<lambda>_. None) (?p(1 := cs1, 2 := cs2), ?own)" by (rule mutex_more [OF r1])
  have "client_calls [] = []" "server_calls_of (client_calls ms)" "server_calls_of (handler_calls rs)" for ms rs
    by (auto simp: server_calls_of_def)
  then have "server_calls_of (?p u)" for u by (cases "u = 1"; cases "u = 2") (simp_all only: if_True if_False, metis+)
  then have "\<forall>u. server_calls_of (?p u)" by blast
  note n = mutexes_never_block [OF this r2]
  have "(?p(1 := cs1, 2 := cs2)) 1 \<noteq> [] \<and> (\<forall>k cs. (?p(1 := cs1, 2 := cs2)) 1 \<noteq> Key_Wait k # cs)"
    by (rule mp [OF spec [OF spec [OF conjunct2 [OF n], of Tx_Lock], of 1]]) simp
  then have "\<exists>st'. mutex_step (?p(1 := cs1, 2 := cs2), ?own) st'" using conjunct1 [OF n] by blast
  then show ?thesis using r2 by (intro exI [of _ "?p(1 := cs1, 2 := cs2)"] exI [of _ ?own]) auto
qed

end
