(* ===== verification/Spec2Isabelle.thy ===== *)
theory Spec2Isabelle
  imports Deadlock Fine_System Stale_Bucket Client_Handler Mutexes
begin

text \<open>
  sample-kv (\<open>src/src\<close>): a key-value server with transactions, locks, a write-ahead log and
  snapshots.  Clients send lines (\<open>get k\<close>, \<open>set k v\<close>, \<open>del k\<close>, \<open>begin\<close>, \<open>commit\<close>, \<open>abort\<close>);
  each has a thread of its own; one more thread takes checkpoints.

  The parts and how they interact.  \<open>main\<close> finds the port and calls \<open>kv_run_server\<close>, which creates
  the hash table, runs recovery (\<open>kv_recovery_recover\<close>, \<open>kv_recovery_redo\<close>), starts the
  transaction manager, the locks and the checkpoint thread, and takes clients.  A client thread
  (\<open>kv_handle_client\<close>) collects bytes in a buffer, takes complete lines out of it
  (\<open>consume_command\<close>) and runs them (\<open>run_command\<close>).  A data command gets a transaction if the
  client has none, waits for the lock of its key, writes its record to the log and then changes
  the table; commit logs and releases the locks; abort also undoes the updates along
  the chain of the transaction's records.

  Theories, in the order they build on each other, with the code they model:

  \<^item> Prelude: results with errors (\<open>res\<close>, \<open>bind_res\<close>), C strings, buffers with bounds, and the
    collection \<open>res_iff\<close>.
  \<^item> Utils (\<open>utils.c\<close> and the conversions of \<open>kv_recovery.c\<close>): numbers in base 10, 16 and on two
    digits, \<open>djb2\<close>; round trips and where they end.
  \<^item> Kv_Map, Kv_Hash, Kv_Key (\<open>kv_hash.c\<close>, the hash and comparison of \<open>kv_command.c\<close>): the locale
    \<open>kv_map\<close> states what a map promises; the table with its chains and its growth is an
    interpretation of it, for every hash function.  \<open>kv_ht_del\<close> computes its bucket number outside
    the mutex of the table; \<open>kv_ht_del_at\<close> is the part inside it.
  \<^item> Kv_Log (\<open>kv_recovery.c\<close>, writers and reader of the log): records as text; the locale
    \<open>log_store\<close> states that a record appended is found by its number and that none is lost.
  \<^item> Linked_List (\<open>linked_list.c\<close>): elements on a heap with pointers that may be unwritten; the
    locale \<open>tx_registry\<close> states what the transaction manager needs.
  \<^item> Lock (\<open>lock_rwlock.c\<close>, \<open>lock_manager.c\<close>): locks with owner and count, one for each of 64
    slots; the locale \<open>key_lock\<close> states exclusion and release.
  \<^item> Transaction (\<open>transaction.c\<close>): collected locks, and rollback along the chain of records.
  \<^item> Tx_Manager (\<open>tx_manager.c\<close>): the running transactions, their numbers and the file of numbers.
  \<^item> Kv_Command (\<open>kv_command.c\<close>): parsing, the buffer, and every command with all its effects on
    the state \<open>kv_db\<close> of table, locks, transactions and log.
  \<^item> Client_Handler (\<open>kv_client_handler.c\<close>): reads, replies and the loop over the buffer.
  \<^item> Kv_Store: the abstract store (committed contents, and the commands of each running
    transaction), and the relation \<open>sim\<close> of a store with a state of the server and its log.
  \<^item> Refinement: every command of every thread keeps \<open>sim\<close> and answers as the store does, or
    waits, or fails at the list of transactions.
  \<^item> Kv_Snapshot (\<open>kv_recovery_snapshot.c\<close> and the snapshot loader of \<open>kv_recovery_redo\<close>).
  \<^item> Kv_Recovery (\<open>kv_recovery_recover\<close>, \<open>kv_recovery_redo\<close>).
  \<^item> Snapshot_Thread (\<open>kv_recovery_snapshot_handler\<close>): the loop over waits and checkpoints, the fork,
    and the ways of parent and child behind the loop.
  \<^item> Sys_Steps, Sample_Runs, System: all threads together, as the step relation \<open>sys_step\<close>; runs,
    invariants by rule induction, refinement, serializability, isolation, progress.
  \<^item> Deadlock: threads that wait for each other, in every continuation of a run.
  \<^item> Server (\<open>main.c\<close>, \<open>kv_server.c\<close>): arguments, start, the loop over clients, shutdown, and the
    program as a whole with every outcome of the calls it makes; the checkpoint thread is not joined
    and can end the process first (\<open>ended_by_thread\<close>).
  \<^item> Restart: a crash in any state of a run and the start of a server on its files.
  \<^item> Mutexes: the mutexes around the shared structures, which the other theories take for granted; the
    order every thread takes them in, and that they never block the server.
  \<^item> Interleaving, Fine_Refinement: the smaller steps \<open>fine_step\<close>, in which a command is taken
    apart, and the invariant \<open>fine_inv\<close> that relates them to the same abstract store.
  \<^item> Fine_Runs, Fine_System, Windows: sample runs of the smaller steps, what holds in all runs without
    stale bucket numbers, and what a checkpoint between two parts of a command does to the next
    start.
  \<^item> Stale_Bucket: a run in which the table grows between the bucket number of a delete and the
    search of the bucket, so that a logged and committed delete leaves its key in the table.

  How the model reads the code.  Records, enums and functions keep their names.  Numbers of 32
  bits are words and wrap around; sizes are naturals, with the wrap-around of a subtraction
  written out (\<open>size_sub\<close>).  An access outside an array, a read of a byte or pointer never
  written, a null or dangling pointer, signed overflow and \<open>exit\<close> are values of the type
  of errors, and a lock another thread holds is the value \<open>Blocked\<close>.  Files are their contents.

  Two step relations.  A step of \<open>sys_step\<close> is one command from its start to its reply; if its lock
  is taken, it is two steps, one up to the lock and one from there on; a checkpoint is one step.
  A step of \<open>fine_step\<close> is a part of a command: the start of its transaction with the BEGIN record,
  the lock with the record of the change (or with the read), for a delete the number of its bucket,
  the change of the table, the COMMIT or ABORT record, the end of the transaction (after an abort,
  with the undoing); steps of other threads and checkpoints may come between any two.  \<open>raw_run\<close>
  has all interleavings of these steps; \<open>fine_run\<close> those in which every delete searches the bucket
  its key is in, so those in which the array does not grow, with another bucket for the key, between
  the two steps of a delete.  Replies, serializability and the agreement of log and table hold for
  \<open>sys_run\<close> and \<open>fine_run\<close>; Stale_Bucket shows that they fail for \<open>raw_run\<close>.  What a restart gives is
  proved in Restart for runs whose checkpoints fall between commands, and Windows shows that it
  fails for checkpoints in the middle of one, which the code does not exclude.

  Not split further, although the code does them in more than one critical section:
  \<^item> a record and the note of its number in the transaction;
  \<^item> the entry in the list of transactions and the BEGIN record (\<open>recover_without_begin\<close> looks at a
    checkpoint between the two);
  \<^item> the end of a transaction: the code releases its locks one by one, then takes it out of the list,
    then frees it, and the reply is sent after that; the event of the reply stands at this step;
  \<^item> the undoing of an abort: its records, its changes of the table, whose deletes compute their
    bucket outside the mutex as well, and the end of the transaction;
  \<^item> a checkpoint: it holds the locks against starts, records and changes of the table, but not the
    one under which a transaction is taken out of the list, so that the two looks at the list, for
    its length and for its entries, can see different lists (\<open>ongoing_stale\<close>) or freed entries.

  Bounds.  \<open>command_small\<close>: keys and values of at most 15 bytes without newlines and zero bytes,
  no empty values (longer ones are misread from the log, \<open>long_value_truncated\<close>; empty ones are
  logged as deletions).  \<open>room\<close>: record and transaction numbers below 2^30, so that no counter
  wraps around in a step; Restart asks for fewer than 2^29 records because recover may write up to
  five times as many.  Loops over the log have the length of the file as fuel: every record
  has at least one byte and the numbers go up, so it is never used up (\<open>redo_loop_correct\<close>,
  \<open>analyze_tx_eq\<close>, \<open>undo_tx_correct\<close>).  The loop of \<open>kv_txm_destroy\<close> has the length of the list.

  Groups of lemmas.  Each component has its invariant (\<open>ht_inv\<close>, \<open>ll_rep\<close>, \<open>lm_inv\<close>, \<open>txm_rep\<close>,
  \<open>log_rep\<close>), what every operation does to it and its behaviour on every branch; \<open>chain\<close> and
  \<open>consistent\<close> say what the records of a transaction look like and \<open>undo_locked\<close> what undoing them
  gives; \<open>replay\<close> is what the log says the table holds, kept equal to the table by every step;
  \<open>listed\<close> and \<open>checked\<close> say what the last checkpoint has to do with the present state; \<open>at_ok\<close> says
  how far a thread in the middle of a command has come, \<open>vis\<close> what its client knows of it, \<open>behind\<close>
  which key the table is late on, \<open>stage\<close> is one client step by step and \<open>both\<close> two of them.

  Not modelled: what sockets and signals do inside the calls (their outcomes are arguments of
  \<open>kv_run_server\<close> and \<open>accept_loop\<close>), the timer of the checkpoint thread (a wait ends in time or
  not), client threads that go on after the server has freed its transactions and locks (they are
  not joined), messages but for those of \<open>main\<close>, freeing of memory (except
  where a freed transaction or key is used again), failures of files other than those of the
  snapshot's directory and file, the Python tests and the Makefile.
\<close>

end
